(* ===== verification/Prelude.thy ===== *)
theory Prelude
  imports Main "HOL-Library.Multiset"
begin

section \<open>Shared vocabulary of the development\<close>

text \<open>
  What the components share: the collections of simplification and introduction rules, the
  part of Go's \<open>strings\<close>, \<open>slices\<close> and \<open>sort\<close> packages the sources call, and generic
  lemmas on lists, options and finite sets.

  A Go string is a sequence of bytes: it is a \<^typ>\<open>string\<close>, one \<^typ>\<open>char\<close> per byte.
  Case conversion (\<open>strings.ToLower\<close>, \<open>strings.ToUpper\<close>, \<open>strings.EqualFold\<close>) is the
  one on ASCII letters; bytes above 127 are left alone, so the Unicode case tables are not
  modelled.
\<close>

named_theorems go_simps \<open>equations that evaluate the modelled parts of Go's library\<close>
named_theorems inv_intros \<open>preservation of component invariants\<close>

subsection \<open>Results of fallible operations\<close>

text \<open>
  A Go call that may fail ends in one of three ways: it returns a value, it returns a
  non-nil error, or it panics (a nil dereference, an index out of range, a negative
  allocation). The error value keeps the fixed part of the message.
\<close>

datatype 'a outcome = Ok 'a | Err string | Panic

fun bind_outcome :: "'a outcome \<Rightarrow> ('a \<Rightarrow> 'b outcome) \<Rightarrow> 'b outcome" where
  "bind_outcome (Ok a) f = f a"
| "bind_outcome (Err e) f = Err e"
| "bind_outcome Panic f = Panic"

lemma bind_outcome_Ok_iff [simp]:
  "bind_outcome m f = Ok b \<longleftrightarrow> (\<exists>a. m = Ok a \<and> f a = Ok b)"
  by (cases m) auto

lemma bind_outcome_Panic_iff:
  "bind_outcome m f = Panic \<longleftrightarrow> m = Panic \<or> (\<exists>a. m = Ok a \<and> f a = Panic)"
  by (cases m) auto

subsection \<open>Strings\<close>

definition code_of :: "char \<Rightarrow> nat" where
  "code_of c = of_char c"

definition is_upper :: "char \<Rightarrow> bool" where
  "is_upper c \<longleftrightarrow> 65 \<le> code_of c \<and> code_of c \<le> 90"

definition is_lower :: "char \<Rightarrow> bool" where
  "is_lower c \<longleftrightarrow> 97 \<le> code_of c \<and> code_of c \<le> 122"

definition lower_char :: "char \<Rightarrow> char" where
  "lower_char c = (if is_upper c then char_of (code_of c + 32) else c)"

definition upper_char :: "char \<Rightarrow> char" where
  "upper_char c = (if is_lower c then char_of (code_of c - 32) else c)"

definition ToLower :: "string \<Rightarrow> string" where
  "ToLower s = map lower_char s"

definition ToUpper :: "string \<Rightarrow> string" where
  "ToUpper s = map upper_char s"

definition EqualFold :: "string \<Rightarrow> string \<Rightarrow> bool" where
  "EqualFold s t \<longleftrightarrow> ToLower s = ToLower t"

definition HasPrefix :: "string \<Rightarrow> string \<Rightarrow> bool" where
  "HasPrefix s p \<longleftrightarrow> take (length p) s = p"

definition HasSuffix :: "string \<Rightarrow> string \<Rightarrow> bool" where
  "HasSuffix s p \<longleftrightarrow> length p \<le> length s \<and> drop (length s - length p) s = p"

definition TrimSuffix :: "string \<Rightarrow> string \<Rightarrow> string" where
  "TrimSuffix s p = (if HasSuffix s p then take (length s - length p) s else s)"

definition is_space :: "char \<Rightarrow> bool" where
  "is_space c \<longleftrightarrow> code_of c = 32 \<or> (9 \<le> code_of c \<and> code_of c \<le> 13)"

definition TrimSpace :: "string \<Rightarrow> string" where
  "TrimSpace s = rev (dropWhile is_space (rev (dropWhile is_space s)))"

text \<open>\<open>strings.Split\<close> for a one-byte separator: always at least one piece.\<close>

fun Split :: "string \<Rightarrow> char \<Rightarrow> string list" where
  "Split [] c = [[]]"
| "Split (x # xs) c =
     (if x = c then [] # Split xs c
      else (case Split xs c of [] \<Rightarrow> [[x]] | y # ys \<Rightarrow> (x # y) # ys))"

fun Join :: "string list \<Rightarrow> string \<Rightarrow> string" where
  "Join [] sep = []"
| "Join [x] sep = x"
| "Join (x # y # ys) sep = x @ sep @ Join (y # ys) sep"

text \<open>\<open>strings.IndexByte\<close> and \<open>strings.LastIndexByte\<close>, \<^const>\<open>None\<close> for minus one.\<close>

fun IndexByte :: "string \<Rightarrow> char \<Rightarrow> nat option" where
  "IndexByte [] c = None"
| "IndexByte (x # xs) c = (if x = c then Some 0 else map_option Suc (IndexByte xs c))"

definition LastIndexByte :: "string \<Rightarrow> char \<Rightarrow> nat option" where
  "LastIndexByte s c = map_option (\<lambda>i. length s - 1 - i) (IndexByte (rev s) c)"

text \<open>
  \<open>net.SplitHostPort\<close>: the port follows the last colon; a host in square brackets may
  itself contain colons. \<^const>\<open>None\<close> is any of its address errors.
\<close>

definition SplitHostPort :: "string \<Rightarrow> (string \<times> string) option" where
  "SplitHostPort hostport =
     (case LastIndexByte hostport (CHR '':'') of
        None \<Rightarrow> None
      | Some i \<Rightarrow>
          (if hd hostport = CHR ''['' then
             (case IndexByte hostport (CHR '']'') of
                None \<Rightarrow> None
              | Some e \<Rightarrow>
                  if e + 1 \<noteq> i then None
                  else if CHR ''['' \<in> set (drop 1 hostport) then None
                  else if CHR '']'' \<in> set (drop (e + 1) hostport) then None
                  else Some (take (e - 1) (drop 1 hostport), drop (i + 1) hostport))
           else
             (let host = take i hostport in
              if CHR '':'' \<in> set host then None
              else if CHR ''['' \<in> set hostport then None
              else if CHR '']'' \<in> set hostport then None
              else Some (host, drop (i + 1) hostport))))"

text \<open>\<open>utf8.RuneSelf\<close>: bytes below 128 are ASCII.\<close>

definition is_ascii_char :: "char \<Rightarrow> bool" where
  "is_ascii_char c \<longleftrightarrow> code_of c < 128"

subsection \<open>Lemmas on strings\<close>

lemma code_of_bound [simp]: "code_of c < 256"
  by (simp add: code_of_def)

lemma code_of_eq_iff [simp]: "code_of c = code_of d \<longleftrightarrow> c = d"
  by (simp add: code_of_def)

lemma char_of_code_of [simp]: "char_of (code_of c) = c"
  by (simp add: code_of_def)

lemma code_of_char_of [simp]: "n < 256 \<Longrightarrow> code_of (char_of n) = n"
  by (simp add: code_of_def)

lemma code_of_upper_bound: "is_upper c \<Longrightarrow> code_of c + 32 < 256"
  by (simp add: is_upper_def)

lemma lower_char_idem [simp]: "lower_char (lower_char c) = lower_char c"
  by (auto simp: lower_char_def is_upper_def)

lemma upper_char_idem [simp]: "upper_char (upper_char c) = upper_char c"
  by (auto simp: upper_char_def is_lower_def)

lemma lower_char_ascii [simp]: "is_ascii_char (lower_char c) \<longleftrightarrow> is_ascii_char c"
  by (auto simp: lower_char_def is_ascii_char_def is_upper_def)

lemma ToLower_idem [simp]: "ToLower (ToLower s) = ToLower s"
  by (simp add: ToLower_def comp_def)

lemma ToUpper_idem [simp]: "ToUpper (ToUpper s) = ToUpper s"
  by (simp add: ToUpper_def comp_def)

lemma ToLower_simps [simp]:
  "ToLower [] = []"
  "ToLower (c # s) = lower_char c # ToLower s"
  "ToLower (s @ t) = ToLower s @ ToLower t"
  by (simp_all add: ToLower_def)

lemma ToUpper_simps [simp]:
  "ToUpper [] = []"
  "ToUpper (c # s) = upper_char c # ToUpper s"
  "ToUpper (s @ t) = ToUpper s @ ToUpper t"
  by (simp_all add: ToUpper_def)

lemma length_ToLower [simp]: "length (ToLower s) = length s"
  by (simp add: ToLower_def)

lemma length_ToUpper [simp]: "length (ToUpper s) = length s"
  by (simp add: ToUpper_def)

lemma EqualFold_refl [simp]: "EqualFold s s"
  by (simp add: EqualFold_def)

lemma EqualFold_ToLower [simp]: "EqualFold s (ToLower t) \<longleftrightarrow> EqualFold s t"
  by (simp add: EqualFold_def)

lemma HasPrefix_append: "HasPrefix s p \<longleftrightarrow> (\<exists>t. s = p @ t)"
  by (auto simp: HasPrefix_def) (metis append_take_drop_id)

lemma HasSuffix_append: "HasSuffix s p \<longleftrightarrow> (\<exists>t. s = t @ p)"
  by (auto simp: HasSuffix_def) (metis append_take_drop_id)

lemma TrimSuffix_append [simp]: "TrimSuffix (s @ p) p = s"
  by (simp add: TrimSuffix_def HasSuffix_def)

lemma TrimSuffix_none: "\<not> HasSuffix s p \<Longrightarrow> TrimSuffix s p = s"
  by (simp add: TrimSuffix_def)

lemma Split_not_Nil [simp]: "Split s c \<noteq> []"
  by (cases s) (auto split: list.splits)

lemma Join_Cons: "ys \<noteq> [] \<Longrightarrow> Join (x # ys) sep = x @ sep @ Join ys sep"
  by (cases ys) auto

lemma Join_Cons_Cons: "Join ((x # y) # ys) sep = x # Join (y # ys) sep"
  by (cases ys) auto

text \<open>Splitting and joining with the separator is a round trip.\<close>

lemma Join_Split [simp]: "Join (Split s c) [c] = s"
proof (induction s)
  case (Cons x xs)
  then show ?case
    by (cases "Split xs c") (auto simp: Join_Cons Join_Cons_Cons)
qed simp

lemma Split_no_sep: "c \<notin> set s \<Longrightarrow> Split s c = [s]"
  by (induction s) auto

lemma length_Split: "length (Split s c) = Suc (count_list s c)"
proof (induction s)
  case (Cons x xs)
  then show ?case by (cases "Split xs c") auto
qed simp

lemma Split_single_iff: "length (Split s c) = 1 \<longleftrightarrow> c \<notin> set s"
  by (simp add: length_Split count_list_0_iff)

lemma Split_append_sep: "Split (s @ c # t) c = Split s c @ Split t c"
proof (induction s)
  case (Cons x xs)
  then show ?case by (cases "Split xs c") auto
qed simp

lemma Split_pieces: "p \<in> set (Split s c) \<Longrightarrow> c \<notin> set p"
proof (induction s arbitrary: p)
  case (Cons x xs)
  then show ?case
    by (cases "Split xs c") (auto split: if_splits)
qed simp

lemma find_SomeE:
  assumes "find P xs = Some x"
  obtains us vs where "xs = us @ x # vs" and "\<forall>u\<in>set us. \<not> P u" and "P x"
proof -
  have "\<exists>us vs. xs = us @ x # vs \<and> (\<forall>u\<in>set us. \<not> P u) \<and> P x"
    using assms
  proof (induction xs)
    case (Cons y ys)
    show ?case
    proof (cases "P y")
      case True
      with Cons.prems have "y # ys = [] @ x # ys" and "P x" by auto
      then show ?thesis by (metis empty_iff empty_set)
    next
      case False
      with Cons obtain us vs where "ys = us @ x # vs" "\<forall>u\<in>set us. \<not> P u" "P x"
        by auto
      with False have "y # ys = (y # us) @ x # vs" "\<forall>u\<in>set (y # us). \<not> P u" "P x"
        by auto
      then show ?thesis by blast
    qed
  qed simp
  with that show ?thesis by blast
qed

subsection \<open>Sorting\<close>

text \<open>
  \<open>sort.Sort\<close> sorts by the \<open>Less\<close> method of its argument and is not guaranteed to be
  stable. Where the order of equal elements matters the sources would see any of them, so
  the sorting function is an argument of the definitions that call it, and all that is
  used of it is the contract below. \<open>insertionSort\<close> is the routine the library itself runs
  on slices of at most twelve elements; it satisfies the contract.
\<close>

locale strict_weak_order =
  fixes lt :: "'a \<Rightarrow> 'a \<Rightarrow> bool"
  assumes asym: "lt x y \<Longrightarrow> \<not> lt y x"
    and neg_trans: "lt x z \<Longrightarrow> lt x y \<or> lt y z"

locale sort_Sort = strict_weak_order lt
  for lt :: "'a \<Rightarrow> 'a \<Rightarrow> bool" +
  fixes srt :: "'a list \<Rightarrow> 'a list"
  assumes srt_perm: "mset (srt xs) = mset xs"
    and srt_sorted: "sorted_wrt (\<lambda>x y. \<not> lt y x) (srt xs)"
begin

lemma set_srt [simp]: "set (srt xs) = set xs"
  by (rule mset_eq_setD [OF srt_perm])

lemma length_srt [simp]: "length (srt xs) = length xs"
  by (rule mset_eq_length [OF srt_perm])

lemma srt_Nil [simp]: "srt [] = []"
  using srt_perm [of "[]"] by simp

lemma first_is_least:
  assumes "find P (srt xs) = Some x" and y: "y \<in> set xs" "P y"
  shows "\<not> lt y x"
proof -
  from assms(1) obtain us vs
    where split: "srt xs = us @ x # vs" and no: "\<forall>u\<in>set us. \<not> P u"
    by (rule find_SomeE)
  have "set xs = set (us @ x # vs)"
    by (simp only: split [symmetric] set_srt)
  with y no have "y = x \<or> y \<in> set vs" by auto
  moreover have "\<not> lt v x" if "v \<in> set vs" for v
    using srt_sorted [of xs] that by (simp add: split sorted_wrt_append)
  ultimately show ?thesis using asym [of x x] by metis
qed

end

text \<open>
  A table kept sorted: entries are made from specifications, appended one at a time and the table
  sorted again after each; a specification that gives no entry is skipped.
\<close>

fun add_sorted :: "('a list \<Rightarrow> 'a list) \<Rightarrow> ('s \<Rightarrow> 'a option) \<Rightarrow> 's list \<Rightarrow> 'a list \<Rightarrow> 'a list" where
  "add_sorted srt mk [] tab = tab"
| "add_sorted srt mk (s # ss) tab =
     (case mk s of None \<Rightarrow> add_sorted srt mk ss tab | Some r \<Rightarrow> add_sorted srt mk ss (srt (tab @ [r])))"

context sort_Sort
begin

lemma add_sorted_inv:
  "(\<exists>xs. tab = srt xs) \<Longrightarrow> (\<exists>xs. add_sorted srt mk ss tab = srt xs) \<and>
     set (add_sorted srt mk ss tab) = set tab \<union> {r. \<exists>s \<in> set ss. mk s = Some r}"
proof (induction ss arbitrary: tab)
  case (Cons s ss)
  show ?case
  proof (cases "mk s")
    case None
    then show ?thesis using Cons by auto
  next
    case (Some r)
    have "\<exists>xs. srt (tab @ [r]) = srt xs" by blast
    from Cons.IH [OF this] Some show ?thesis by auto
  qed
qed simp

lemma add_sorted_start:
  "(\<exists>xs. add_sorted srt mk ss [] = srt xs) \<and>
     set (add_sorted srt mk ss []) = {r. \<exists>s \<in> set ss. mk s = Some r}"
proof -
  have "\<exists>xs. [] = srt xs" by (rule exI [of _ "[]"]) simp
  from add_sorted_inv [OF this] show ?thesis by simp
qed

text \<open>The first entry with a property is one of the least entries that have it.\<close>

lemma add_sorted_first:
  assumes "find P (add_sorted srt mk ss []) = Some r"
  shows "\<exists>s \<in> set ss. mk s = Some r" "P r"
    "s' \<in> set ss \<Longrightarrow> mk s' = Some r' \<Longrightarrow> P r' \<Longrightarrow> \<not> lt r' r"
proof -
  obtain xs where xs: "add_sorted srt mk ss [] = srt xs"
    and set: "set (add_sorted srt mk ss []) = {r. \<exists>s \<in> set ss. mk s = Some r}"
    using add_sorted_start [of mk ss] by blast
  have "r \<in> set (add_sorted srt mk ss [])"
    using assms by (auto elim!: find_SomeE)
  then show "\<exists>s \<in> set ss. mk s = Some r"
    unfolding set by simp
  show "P r"
    using assms by (auto elim!: find_SomeE)
  show "\<not> lt r' r" if "s' \<in> set ss" "mk s' = Some r'" "P r'"
  proof (rule first_is_least [of P xs])
    show "find P (srt xs) = Some r" using assms xs by simp
    show "r' \<in> set xs" using that set unfolding xs set_srt by blast
  qed (rule that)
qed

lemma add_sorted_none:
  assumes "find P (add_sorted srt mk ss []) = None" "s \<in> set ss" "mk s = Some r"
  shows "\<not> P r"
proof -
  have "r \<in> set (add_sorted srt mk ss [])"
    using add_sorted_start [of mk ss] assms(2,3) by auto
  then show ?thesis
    using assms(1) by (simp add: find_None_iff)
qed

end

fun sift :: "('a \<Rightarrow> 'a \<Rightarrow> bool) \<Rightarrow> 'a \<Rightarrow> 'a list \<Rightarrow> 'a list" where
  "sift lt x [] = [x]"
| "sift lt x (y # ys) = (if lt x y then y # sift lt x ys else x # y # ys)"

definition insertionSort :: "('a \<Rightarrow> 'a \<Rightarrow> bool) \<Rightarrow> 'a list \<Rightarrow> 'a list" where
  "insertionSort lt xs = rev (fold (sift lt) xs [])"

lemma mset_sift: "mset (sift lt x ys) = add_mset x (mset ys)"
  by (induction ys) auto

lemma set_sift: "set (sift lt x ys) = insert x (set ys)"
  by (induction ys) auto

lemma mset_insertionSort: "mset (insertionSort lt xs) = mset xs"
proof -
  have "mset (fold (sift lt) xs ys) = mset xs + mset ys" for ys
    by (induction xs arbitrary: ys) (auto simp: mset_sift)
  then show ?thesis by (simp add: insertionSort_def)
qed

context strict_weak_order
begin

lemma sift_sorted:
  "sorted_wrt (\<lambda>x y. \<not> lt x y) ys \<Longrightarrow> sorted_wrt (\<lambda>x y. \<not> lt x y) (sift lt x ys)"
proof (induction ys)
  case (Cons y ys)
  have "\<not> lt x z" if "\<not> lt x y" and "z \<in> set ys" for z
    using that Cons.prems neg_trans [of x z y] by auto
  with Cons show ?case
    by (auto simp: set_sift dest: asym)
qed simp

lemma insertionSort_sorted: "sorted_wrt (\<lambda>x y. \<not> lt y x) (insertionSort lt xs)"
proof -
  have "sorted_wrt (\<lambda>x y. \<not> lt x y) ys \<Longrightarrow>
      sorted_wrt (\<lambda>x y. \<not> lt x y) (fold (sift lt) xs ys)" for ys
    by (induction xs arbitrary: ys) (auto simp: sift_sorted)
  then show ?thesis by (simp add: insertionSort_def sorted_wrt_rev)
qed

lemma insertionSort_sort_Sort: "sort_Sort lt (insertionSort lt)"
  by unfold_locales (simp_all add: mset_insertionSort insertionSort_sorted)

end

text \<open>A position is listed once in a filtered range.\<close>

lemma count_list_filter_upt: "i < n \<Longrightarrow> count_list (filter P [0..<n]) i = (if P i then 1 else 0)"
  by (induction n) (auto simp: less_Suc_eq count_list_0_iff)

end
