(* ===== verification/UrlPath.thy ===== *)
theory UrlPath
  imports Prelude
begin

section \<open>Percent-encoded request paths\<close>

text \<open>
  The functions that walk a percent-encoded path byte by byte: the routing path of the HTTP
  muxer (\<open>withRoutingPath\<close> in \<open>pkg/muxer/http/mux.go\<close>), the normalisation every entry point
  applies first (\<open>normalizePath\<close> in \<open>pkg/server/server_entrypoint_tcp.go\<close>) and the two
  rejections of encoded characters (\<open>pkg/server/router/deny.go\<close> and the
  \<open>encodedcharacters\<close> middleware). Each loop is a recursive function over the remaining
  bytes.

  The lemmas show that they agree on how a path is cut into raw and encoded characters,
  that normalisation does not change what a path decodes to, that no encoded delimiter
  ever becomes a literal one in the routing path, and that a path that passed the
  rejection of encoded slashes contains none.
\<close>

subsection \<open>Library functions\<close>

definition is_hex :: "char \<Rightarrow> bool" where
  "is_hex c \<longleftrightarrow> (48 \<le> code_of c \<and> code_of c \<le> 57) \<or> (65 \<le> code_of c \<and> code_of c \<le> 70)
     \<or> (97 \<le> code_of c \<and> code_of c \<le> 102)"

definition unhex :: "char \<Rightarrow> nat" where
  "unhex c =
     (if 48 \<le> code_of c \<and> code_of c \<le> 57 then code_of c - 48
      else if 97 \<le> code_of c \<and> code_of c \<le> 102 then code_of c - 87
      else if 65 \<le> code_of c \<and> code_of c \<le> 70 then code_of c - 55
      else 0)"

text \<open>\<open>url.PathUnescape\<close> of one percent sign and two digits.\<close>

definition unescape :: "char \<Rightarrow> char \<Rightarrow> char option" where
  "unescape a b = (if is_hex a \<and> is_hex b then Some (char_of (16 * unhex a + unhex b)) else None)"

text \<open>Go converts a byte to a string as a code point: UTF-8, two bytes from 128 on.\<close>

definition string_of_byte :: "char \<Rightarrow> string" where
  "string_of_byte c =
     (if code_of c < 128 then [c]
      else [char_of (192 + code_of c div 64), char_of (128 + code_of c mod 64)])"

subsection \<open>The loops\<close>

definition reservedCharacters :: "(string \<times> char) list" where
  "reservedCharacters =
     [(''%3A'', CHR '':''), (''%2F'', CHR ''/''), (''%3F'', CHR ''?''), (''%23'', CHR ''#''),
      (''%5B'', CHR ''[''), (''%5D'', CHR '']''), (''%40'', CHR ''@''), (''%21'', CHR ''!''),
      (''%24'', CHR ''$''), (''%26'', CHR ''&''), (''%27'', CHR 0x27), (''%28'', CHR ''(''),
      (''%29'', CHR '')''), (''%2A'', CHR ''*''), (''%2B'', CHR ''+''), (''%2C'', CHR '',''),
      (''%3B'', CHR '';''), (''%3D'', CHR ''=''), (''%25'', CHR ''%'')]"

fun routing_path :: "string \<Rightarrow> string outcome" where
  "routing_path [] = Ok []"
| "routing_path (c # cs) =
     (if c \<noteq> CHR ''%'' then
        bind_outcome (routing_path cs) (\<lambda>r. Ok (string_of_byte c @ r))
      else case cs of
        a # b # rest \<Rightarrow>
          (if map_of reservedCharacters [c, a, b] \<noteq> None then
             bind_outcome (routing_path rest) (\<lambda>r. Ok (c # a # b # r))
           else case unescape a b of
             None \<Rightarrow> Err ''invalid percent-encoding in URL path''
           | Some d \<Rightarrow> bind_outcome (routing_path rest) (\<lambda>r. Ok (d # r)))
      | _ \<Rightarrow> Err ''invalid percent-encoding at the end of the URL path'')"

definition unreservedCharacters :: "(string \<times> char) list" where
  "unreservedCharacters =
     [(''%41'', CHR ''A''), (''%42'', CHR ''B''), (''%43'', CHR ''C''), (''%44'', CHR ''D''),
      (''%45'', CHR ''E''), (''%46'', CHR ''F''), (''%47'', CHR ''G''), (''%48'', CHR ''H''),
      (''%49'', CHR ''I''), (''%4A'', CHR ''J''), (''%4B'', CHR ''K''), (''%4C'', CHR ''L''),
      (''%4D'', CHR ''M''), (''%4E'', CHR ''N''), (''%4F'', CHR ''O''), (''%50'', CHR ''P''),
      (''%51'', CHR ''Q''), (''%52'', CHR ''R''), (''%53'', CHR ''S''), (''%54'', CHR ''T''),
      (''%55'', CHR ''U''), (''%56'', CHR ''V''), (''%57'', CHR ''W''), (''%58'', CHR ''X''),
      (''%59'', CHR ''Y''), (''%5A'', CHR ''Z''),
      (''%61'', CHR ''a''), (''%62'', CHR ''b''), (''%63'', CHR ''c''), (''%64'', CHR ''d''),
      (''%65'', CHR ''e''), (''%66'', CHR ''f''), (''%67'', CHR ''g''), (''%68'', CHR ''h''),
      (''%69'', CHR ''i''), (''%6A'', CHR ''j''), (''%6B'', CHR ''k''), (''%6C'', CHR ''l''),
      (''%6D'', CHR ''m''), (''%6E'', CHR ''n''), (''%6F'', CHR ''o''), (''%70'', CHR ''p''),
      (''%71'', CHR ''q''), (''%72'', CHR ''r''), (''%73'', CHR ''s''), (''%74'', CHR ''t''),
      (''%75'', CHR ''u''), (''%76'', CHR ''v''), (''%77'', CHR ''w''), (''%78'', CHR ''x''),
      (''%79'', CHR ''y''), (''%7A'', CHR ''z''),
      (''%30'', CHR ''0''), (''%31'', CHR ''1''), (''%32'', CHR ''2''), (''%33'', CHR ''3''),
      (''%34'', CHR ''4''), (''%35'', CHR ''5''), (''%36'', CHR ''6''), (''%37'', CHR ''7''),
      (''%38'', CHR ''8''), (''%39'', CHR ''9''),
      (''%2D'', CHR ''-''), (''%2E'', CHR ''.''), (''%5F'', CHR ''_''), (''%7E'', CHR ''~'')]"

text \<open>
  A request URL as \<open>net/url\<close> holds it, and \<open>URL.URL_EscapedPath\<close> with the library functions
  under it: \<open>shouldEscape\<close> and \<open>validEncoded\<close> in path mode, \<open>escape\<close> and \<open>unescape\<close>.
\<close>

record url =
  Path :: string
  RawPath :: string

definition unreserved :: "char \<Rightarrow> bool" where
  "unreserved c \<longleftrightarrow> (48 \<le> code_of c \<and> code_of c \<le> 57) \<or> (65 \<le> code_of c \<and> code_of c \<le> 90)
     \<or> (97 \<le> code_of c \<and> code_of c \<le> 122) \<or> c \<in> set ''-_.~''"

definition shouldEscape :: "char \<Rightarrow> bool" where
  "shouldEscape c =
     (if unreserved c then False
      else if c \<in> set ''$&+,/:;=?@'' then c = CHR ''?''
      else True)"

definition validEncoded_char :: "char \<Rightarrow> bool" where
  "validEncoded_char c \<longleftrightarrow>
     c \<in> set ''!$&()*+,;=:@[]%'' \<or> c = CHR 0x27 \<or> \<not> shouldEscape c"

definition validEncoded :: "string \<Rightarrow> bool" where
  "validEncoded s = list_all validEncoded_char s"

definition upperhex :: string where
  "upperhex = ''0123456789ABCDEF''"

definition escape_char :: "char \<Rightarrow> string" where
  "escape_char c =
     (if shouldEscape c then [CHR ''%'', upperhex ! (code_of c div 16), upperhex ! (code_of c mod 16)]
      else [c])"

definition escape :: "string \<Rightarrow> string" where
  "escape s = concat (map escape_char s)"

fun pct_decode :: "string \<Rightarrow> string option" where
  "pct_decode [] = Some []"
| "pct_decode (c # cs) =
     (if c \<noteq> CHR ''%'' then map_option ((#) c) (pct_decode cs)
      else case cs of
        a # b # rest \<Rightarrow>
          (case unescape a b of None \<Rightarrow> None | Some d \<Rightarrow> map_option ((#) d) (pct_decode rest))
      | _ \<Rightarrow> None)"

definition URL_EscapedPath :: "url \<Rightarrow> string" where
  "URL_EscapedPath u =
     (if RawPath u \<noteq> [] \<and> validEncoded (RawPath u) \<and> pct_decode (RawPath u) = Some (Path u)
      then RawPath u
      else if Path u = ''*'' then ''*''
      else escape (Path u))"

text \<open>
  The loop of \<open>normalizePath\<close> over the raw path, and the handler around it: \<^const>\<open>None\<close> is
  the answer 400, \<^term>\<open>Some u\<close> the URL of the request the next handler gets. The handler also
  recomputes \<open>RequestURI\<close> from that URL. \<open>strings.ToUpper\<close> is only met on ASCII bytes: the
  library refuses a request whose percent sign is not followed by two hexadecimal digits.
\<close>

fun normalize_loop :: "string \<Rightarrow> string option" where
  "normalize_loop [] = Some []"
| "normalize_loop (c # cs) =
     (if c \<noteq> CHR ''%'' then map_option ((@) (string_of_byte c)) (normalize_loop cs)
      else case cs of
        a # b # rest \<Rightarrow>
          (let encodedCharacter = ToUpper [c, a, b] in
           case map_of unreservedCharacters encodedCharacter of
             Some r \<Rightarrow> map_option ((#) r) (normalize_loop rest)
           | None \<Rightarrow> map_option ((@) encodedCharacter) (normalize_loop rest))
      | _ \<Rightarrow> None)"

definition normalizePath :: "url \<Rightarrow> url option" where
  "normalizePath u =
     (if RawPath u = [] then Some u
      else case normalize_loop (RawPath u) of
        None \<Rightarrow> None
      | Some normalizedRawPath \<Rightarrow>
          if normalizedRawPath = RawPath u then Some u
          else Some (u\<lparr>RawPath := normalizedRawPath\<rparr>))"

text \<open>
  The rejection loops of \<open>denyEncodedPathCharacters\<close> and of the \<open>encodedcharacters\<close>
  middleware are the same code: true is the call of the next handler, false the answer 400.
\<close>

fun scan_denied :: "string set \<Rightarrow> string \<Rightarrow> bool" where
  "scan_denied D [] = True"
| "scan_denied D (c # cs) =
     (if c \<noteq> CHR ''%'' then scan_denied D cs
      else case cs of
        a # b # rest \<Rightarrow> if [c, a, b] \<in> D then False else scan_denied D rest
      | _ \<Rightarrow> False)"

definition denyEncodedPathCharacters :: "string set \<Rightarrow> string \<Rightarrow> bool" where
  "denyEncodedPathCharacters encodedCharacters escapedPath =
     (if encodedCharacters = {} then True else scan_denied encodedCharacters escapedPath)"

definition encodedCharacters_ServeHTTP :: "string set \<Rightarrow> string \<Rightarrow> bool" where
  "encodedCharacters_ServeHTTP deniedCharacters escapedPath =
     (if deniedCharacters = {} then True else scan_denied deniedCharacters escapedPath)"

record RouterDeniedEncodedPathCharacters =
  AllowEncodedSlash :: bool
  AllowEncodedBackSlash :: bool
  AllowEncodedNullCharacter :: bool
  AllowEncodedSemicolon :: bool
  AllowEncodedPercent :: bool
  AllowEncodedQuestionMark :: bool
  AllowEncodedHash :: bool

definition deniedMap :: "RouterDeniedEncodedPathCharacters \<Rightarrow> string set" where
  "deniedMap r =
     (if \<not> AllowEncodedSlash r then {''%2F'', ''%2f''} else {}) \<union>
     (if \<not> AllowEncodedBackSlash r then {''%5C'', ''%5c''} else {}) \<union>
     (if \<not> AllowEncodedNullCharacter r then {''%00''} else {}) \<union>
     (if \<not> AllowEncodedSemicolon r then {''%3B'', ''%3b''} else {}) \<union>
     (if \<not> AllowEncodedPercent r then {''%25''} else {}) \<union>
     (if \<not> AllowEncodedQuestionMark r then {''%3F'', ''%3f''} else {}) \<union>
     (if \<not> AllowEncodedHash r then {''%23''} else {})"

definition mapDeniedCharacters :: "RouterDeniedEncodedPathCharacters \<Rightarrow> string set" where
  "mapDeniedCharacters config =
     (if \<not> AllowEncodedSlash config then {''%2F'', ''%2f''} else {}) \<union>
     (if \<not> AllowEncodedBackSlash config then {''%5C'', ''%5c''} else {}) \<union>
     (if \<not> AllowEncodedNullCharacter config then {''%00''} else {}) \<union>
     (if \<not> AllowEncodedSemicolon config then {''%3B'', ''%3b''} else {}) \<union>
     (if \<not> AllowEncodedPercent config then {''%25''} else {}) \<union>
     (if \<not> AllowEncodedQuestionMark config then {''%3F'', ''%3f''} else {}) \<union>
     (if \<not> AllowEncodedHash config then {''%23''} else {})"

subsection \<open>Well-formed encodings\<close>

inductive pct_ok :: "string \<Rightarrow> bool" where
  pct_Nil: "pct_ok []"
| pct_raw: "c \<noteq> CHR ''%'' \<Longrightarrow> pct_ok s \<Longrightarrow> pct_ok (c # s)"
| pct_enc: "is_hex a \<Longrightarrow> is_hex b \<Longrightarrow> pct_ok s \<Longrightarrow> pct_ok (CHR ''%'' # a # b # s)"

declare pct_ok.intros [intro]

lemma pct_ok_append: "pct_ok s \<Longrightarrow> pct_ok t \<Longrightarrow> pct_ok (s @ t)"
  by (induction rule: pct_ok.induct) auto

lemma pct_decode_ok: "pct_ok s \<Longrightarrow> \<exists>d. pct_decode s = Some d"
  by (induction rule: pct_ok.induct) (auto simp: unescape_def)

lemma pct_decode_pct_ok: "pct_decode s = Some d \<Longrightarrow> pct_ok s"
  by (induction s arbitrary: d rule: pct_decode.induct)
    (auto simp: unescape_def split: if_splits list.splits)

lemma pct_decode_append:
  assumes "pct_decode s = Some d" "pct_decode t = Some e"
  shows "pct_decode (s @ t) = Some (d @ e)"
  using pct_decode_pct_ok [OF assms(1)] assms
  by (induction arbitrary: d rule: pct_ok.induct) (auto simp: unescape_def)

lemma hex_digits: "is_hex c \<longleftrightarrow> c \<in> set ''0123456789ABCDEFabcdef''"
proof -
  have "\<forall>c. is_hex c = (c \<in> set ''0123456789ABCDEFabcdef'')" by code_simp
  then show ?thesis by blast
qed

subsection \<open>One encoded character\<close>

text \<open>What the loops make of one character, by evaluation over the digits and the tables.\<close>

definition delimiters :: string where
  "delimiters = '':/?#[]@!$&()*+,;='' @ [CHR 0x27]"

lemma percent_not_delimiter [simp]: "CHR ''%'' \<notin> set delimiters"
  by (simp add: delimiters_def)

lemma hex_upper:
  assumes "is_hex a"
  shows "is_hex (upper_char a)" "unhex (upper_char a) = unhex a" "unhex a < 16"
    "upper_char (upper_char a) = upper_char a" "upperhex ! unhex a = upper_char a"
    "validEncoded_char a" "a \<notin> set delimiters" "code_of a < 128" "a \<noteq> CHR ''%''"
proof -
  note a = assms [unfolded hex_digits, simplified]
  note d = is_hex_def unhex_def upper_char_def is_lower_def code_of_def upperhex_def
    validEncoded_char_def shouldEscape_def unreserved_def delimiters_def
  show "is_hex (upper_char a)" using a by (elim disjE) (simp_all add: d)
  show "unhex (upper_char a) = unhex a" using a by (elim disjE) (simp_all add: d)
  show "unhex a < 16" using a by (elim disjE) (simp_all add: d)
  show "upper_char (upper_char a) = upper_char a" using a by (elim disjE) (simp_all add: d)
  show "upperhex ! unhex a = upper_char a" using a by (elim disjE) (simp_all add: d char_of_def bit_0)
  show "validEncoded_char a" using a by (elim disjE) (simp_all add: d)
  show "a \<notin> set delimiters" using a by (elim disjE) (simp_all add: d)
  show "code_of a < 128" using a by (elim disjE) (simp_all add: d)
  show "a \<noteq> CHR ''%''" using a by (elim disjE) simp_all
qed

lemma unreserved_char:
  assumes "unreserved c"
  shows "c \<notin> set delimiters" "c \<noteq> CHR ''%''" "string_of_byte c = [c]" "\<not> shouldEscape c" "validEncoded_char c"
proof -
  have "list_all (\<lambda>c. \<not> unreserved c) (CHR ''%'' # delimiters)"
    by code_simp
  then show "c \<notin> set delimiters" "c \<noteq> CHR ''%''"
    using assms by (auto simp: list_all_iff)
  show "string_of_byte c = [c]"
    using assms by (auto simp: unreserved_def string_of_byte_def code_of_def)
  show "\<not> shouldEscape c" "validEncoded_char c"
    using assms by (auto simp: shouldEscape_def validEncoded_char_def)
qed

lemma unreservedCharacters_spec:
  assumes "map_of unreservedCharacters [CHR ''%'', a, b] = Some r"
  shows "unescape a b = Some r" "unreserved r"
proof -
  have "list_all (\<lambda>(k, r). unescape (k ! 1) (k ! 2) = Some r \<and> unreserved r) unreservedCharacters"
    by code_simp
  moreover have "([CHR ''%'', a, b], r) \<in> set unreservedCharacters"
    using assms by (rule map_of_SomeD)
  ultimately have "unescape a b = Some r \<and> unreserved r"
    unfolding list_all_iff by fastforce
  then show "unescape a b = Some r" "unreserved r" by blast+
qed

lemma reservedCharacters_complete:
  assumes "is_hex a" "is_hex b" "upper_char a = a" "upper_char b = b"
    and "unescape a b = Some d" "d \<in> insert (CHR ''%'') (set delimiters)"
  shows "map_of reservedCharacters [CHR ''%'', a, b] \<noteq> None"
proof -
  have "list_all (\<lambda>d. map_of reservedCharacters
      [CHR ''%'', upperhex ! (code_of d div 16), upperhex ! (code_of d mod 16)] \<noteq> None)
    (CHR ''%'' # delimiters)"
    by code_simp
  then have r: "map_of reservedCharacters
      [CHR ''%'', upperhex ! (code_of d div 16), upperhex ! (code_of d mod 16)] \<noteq> None"
    using assms(6) unfolding list_all_iff by auto
  have "d = char_of (16 * unhex a + unhex b)"
    using assms by (auto simp: unescape_def)
  moreover have "16 * unhex a + unhex b < 256"
    using hex_upper(3) [OF assms(1)] hex_upper(3) [OF assms(2)] by linarith
  ultimately have "code_of d = 16 * unhex a + unhex b"
    by (simp add: code_of_def)
  then have "code_of d div 16 = unhex a" "code_of d mod 16 = unhex b"
    using hex_upper(3) [OF assms(2)] by simp_all
  then show ?thesis
    using r hex_upper(5) [OF assms(1)] hex_upper(5) [OF assms(2)] assms(3,4) by simp
qed

definition norm_enc :: "char \<Rightarrow> char \<Rightarrow> string" where
  "norm_enc a b = (case map_of unreservedCharacters (ToUpper [CHR ''%'', a, b]) of
     Some r \<Rightarrow> [r] | None \<Rightarrow> ToUpper [CHR ''%'', a, b])"

lemma upper_percent [simp]: "upper_char (CHR ''%'') = CHR ''%''"
  by (simp add: upper_char_def is_lower_def code_of_def)

lemma normalize_loop_enc:
  "normalize_loop (CHR ''%'' # a # b # s) = map_option (\<lambda>t. norm_enc a b @ t) (normalize_loop s)"
  by (cases "normalize_loop s") (simp_all add: norm_enc_def Let_def split: option.split)

lemma unescape_upper:
  "is_hex a \<Longrightarrow> is_hex b \<Longrightarrow> unescape (upper_char a) (upper_char b) = unescape a b"
  by (simp add: unescape_def hex_upper)

text \<open>The normal form of an encoded character is unreserved and bare, or encoded in upper case.\<close>

lemma norm_enc_cases:
  assumes "is_hex a" "is_hex b"
  obtains (bare) r where "norm_enc a b = [r]" "unescape a b = Some r" "unreserved r"
  | (encoded) a' b' d where "norm_enc a b = [CHR ''%'', a', b']" "is_hex a'" "is_hex b'"
      "upper_char a' = a'" "upper_char b' = b'" "unescape a' b' = Some d" "unescape a b = Some d"
      "map_of unreservedCharacters [CHR ''%'', a', b'] = None"
proof (cases "map_of unreservedCharacters [CHR ''%'', upper_char a, upper_char b]")
  case None
  moreover obtain d where "unescape a b = Some d"
    using assms by (auto simp: unescape_def)
  ultimately show ?thesis
    using assms
    by (intro encoded [of "upper_char a" "upper_char b" d])
      (simp_all add: norm_enc_def hex_upper unescape_upper)
next
  case (Some r)
  then show ?thesis
    using assms unreservedCharacters_spec [OF Some]
    by (intro bare [of r]) (simp_all add: norm_enc_def unescape_upper)
qed

text \<open>Its routing form decodes to the same character and holds no literal delimiter.\<close>

lemma norm_enc_routing:
  assumes "is_hex a" "is_hex b" "unescape a b = Some d"
  obtains r where "\<And>s. routing_path (norm_enc a b @ s) = bind_outcome (routing_path s) (\<lambda>t. Ok (r @ t))"
    and "pct_decode r = Some [d]" "\<And>c. c \<in> set delimiters \<Longrightarrow> count_list r c = 0"
  using assms(1,2)
proof (cases rule: norm_enc_cases)
  case (bare r)
  have "count_list [r] c = 0" if "c \<in> set delimiters" for c
    using that unreserved_char(1) [OF bare(3)] by auto
  then show ?thesis
    using bare assms(3) by (intro that [of "[r]"]) (simp_all add: unreserved_char)
next
  case (encoded a' b' d')
  have *: "\<And>c. c \<in> set delimiters \<Longrightarrow> count_list [CHR ''%'', a', b'] c = 0"
    using hex_upper(7) [OF encoded(2)] hex_upper(7) [OF encoded(3)] percent_not_delimiter by auto
  show ?thesis
  proof (cases "map_of reservedCharacters [CHR ''%'', a', b'] = None")
    case True
    then have "d \<notin> insert (CHR ''%'') (set delimiters)"
      using reservedCharacters_complete [OF encoded(2-5), of d] encoded(6,7) assms(3) by auto
    then have "pct_decode [d] = Some [d]" "\<And>c. c \<in> set delimiters \<Longrightarrow> count_list [d] c = 0"
      by auto
    moreover have "unescape a' b' = Some d"
      using encoded(6,7) assms(3) by simp
    ultimately show ?thesis
      using True encoded(1) by (intro that [of "[d]"]) simp_all
  next
    case False
    then show ?thesis
      using * encoded(1,6,7) assms(3) by (intro that [of "[CHR ''%'', a', b']"]) simp_all
  qed
qed

subsection \<open>Whole paths\<close>

lemma validEncoded_simps [simp]:
  "validEncoded []"
  "validEncoded (c # s) \<longleftrightarrow> validEncoded_char c \<and> validEncoded s"
  "validEncoded (s @ t) \<longleftrightarrow> validEncoded s \<and> validEncoded t"
  by (simp_all add: validEncoded_def)

lemma validEncoded_char_ascii: "validEncoded_char c \<Longrightarrow> code_of c < 128"
proof -
  have "\<forall>c. validEncoded_char c \<longrightarrow> code_of c < 128" by code_simp
  then show "validEncoded_char c \<Longrightarrow> code_of c < 128" by blast
qed

lemma validEncoded_string_of_byte: "validEncoded (string_of_byte c) \<longleftrightarrow> validEncoded_char c"
proof (cases "code_of c < 128")
  case False
  moreover have "code_of c < 256"
    by (simp add: code_of_def)
  moreover have "192 + code_of c div 64 < 256"
    using calculation(2) by linarith
  then have "code_of (char_of (192 + code_of c div 64)) \<ge> 128"
    by (simp add: code_of_def)
  ultimately show ?thesis
    using validEncoded_char_ascii [of c] validEncoded_char_ascii [of "char_of (192 + code_of c div 64)"]
    by (auto simp: string_of_byte_def)
qed (simp add: string_of_byte_def)

lemma string_of_byte_valid: "validEncoded_char c \<Longrightarrow> string_of_byte c = [c]"
  by (simp add: string_of_byte_def validEncoded_char_ascii)

lemma validEncoded_percent [simp]: "validEncoded_char (CHR ''%'')"
  by (simp add: validEncoded_char_def)

lemma norm_enc_valid:
  assumes "is_hex a" "is_hex b"
  shows "validEncoded (norm_enc a b)" "pct_decode (norm_enc a b) = pct_decode [CHR ''%'', a, b]"
    "norm_enc a b \<noteq> []"
proof -
  from assms have "validEncoded (norm_enc a b) \<and> pct_decode (norm_enc a b) = pct_decode [CHR ''%'', a, b]
    \<and> norm_enc a b \<noteq> []"
  proof (cases rule: norm_enc_cases)
    case (bare r)
    then show ?thesis by (simp add: unreserved_char)
  next
    case (encoded a' b' d)
    show ?thesis using encoded(1-3,6,7) by (simp add: hex_upper(6))
  qed
  then show "validEncoded (norm_enc a b)" "pct_decode (norm_enc a b) = pct_decode [CHR ''%'', a, b]"
    "norm_enc a b \<noteq> []" by blast+
qed

lemma normalize_loop_total: "pct_ok s \<Longrightarrow> \<exists>t. normalize_loop s = Some t"
proof (induction rule: pct_ok.induct)
  case (pct_enc a b s)
  then show ?case unfolding normalize_loop_enc by auto
qed auto

lemma normalize_loop_valid:
  assumes "pct_ok s" "normalize_loop s = Some t"
  shows "validEncoded t \<longleftrightarrow> validEncoded s" "t = [] \<longleftrightarrow> s = []"
  using assms
proof (induction arbitrary: t rule: pct_ok.induct)
  case (pct_raw c s)
  { case 1 then show ?case using pct_raw by (auto simp: validEncoded_string_of_byte)
  next
    case 2 then show ?case using pct_raw by (auto simp: string_of_byte_def split: if_splits) }
next
  case (pct_enc a b s)
  { case 1
    then show ?case using pct_enc norm_enc_valid [of a b]
      by (auto simp: normalize_loop_enc hex_upper(6)
          simp del: normalize_loop.simps)
  next
    case 2
    then show ?case using pct_enc norm_enc_valid [of a b]
      by (auto simp: normalize_loop_enc simp del: normalize_loop.simps) }
qed simp_all

lemma normalize_loop_decode:
  assumes "pct_ok s" "normalize_loop s = Some t" "validEncoded s"
  shows "pct_decode t = pct_decode s"
  using assms
proof (induction arbitrary: t rule: pct_ok.induct)
  case (pct_raw c s)
  then show ?case by (auto simp: string_of_byte_valid)
next
  case (pct_enc a b s)
  obtain t' where t': "normalize_loop s = Some t'" "t = norm_enc a b @ t'"
    using pct_enc.prems(1) by (auto simp: normalize_loop_enc simp del: normalize_loop.simps)
  obtain d where d: "pct_decode s = Some d"
    using pct_decode_ok [OF pct_enc.hyps(3)] by blast
  have "pct_decode t' = Some d"
    using pct_enc t' d by simp
  moreover obtain x where "pct_decode [CHR ''%'', a, b] = Some [x]" "unescape a b = Some x"
    using pct_enc.hyps by (auto simp: unescape_def)
  ultimately show ?case
    using pct_decode_append [of "norm_enc a b" "[x]" t' d] norm_enc_valid(2) [of a b] pct_enc.hyps d t'
    by simp
qed simp

text \<open>The routing path of a normalised path.\<close>

lemma routing_path_normalized:
  assumes "pct_ok s" "normalize_loop s = Some t" "validEncoded s"
  shows "\<exists>rp. routing_path t = Ok rp \<and> pct_decode rp = pct_decode s
    \<and> (\<forall>c. c \<in> set delimiters \<longrightarrow> count_list rp c = count_list s c)"
  using assms
proof (induction arbitrary: t rule: pct_ok.induct)
  case (pct_raw c s)
  obtain t' where t': "normalize_loop s = Some t'" "t = c # t'"
    using pct_raw.prems pct_raw.hyps by (auto simp: string_of_byte_valid)
  then obtain rp where "routing_path t' = Ok rp" "pct_decode rp = pct_decode s"
    "\<forall>c. c \<in> set delimiters \<longrightarrow> count_list rp c = count_list s c"
    using pct_raw by auto
  then show ?case
    using t' pct_raw.hyps pct_raw.prems by (intro exI [of _ "c # rp"]) (simp add: string_of_byte_valid)
next
  case (pct_enc a b s)
  obtain t' where t': "normalize_loop s = Some t'" "t = norm_enc a b @ t'"
    using pct_enc.prems(1) by (auto simp: normalize_loop_enc simp del: normalize_loop.simps)
  then obtain rp where rp: "routing_path t' = Ok rp" "pct_decode rp = pct_decode s"
    "\<forall>c. c \<in> set delimiters \<longrightarrow> count_list rp c = count_list s c"
    using pct_enc by auto
  obtain x where x: "unescape a b = Some x"
    using pct_enc.hyps by (auto simp: unescape_def)
  obtain r where r: "\<And>s. routing_path (norm_enc a b @ s) = bind_outcome (routing_path s) (\<lambda>t. Ok (r @ t))"
    "pct_decode r = Some [x]" "\<And>c. c \<in> set delimiters \<Longrightarrow> count_list r c = 0"
    using norm_enc_routing [OF pct_enc.hyps(1,2) x] by blast
  obtain d where d: "pct_decode s = Some d"
    using pct_decode_ok [OF pct_enc.hyps(3)] by blast
  have "count_list (CHR ''%'' # a # b # s) c = count_list s c" if "c \<in> set delimiters" for c
    using that hex_upper(7) [OF pct_enc.hyps(1)] hex_upper(7) [OF pct_enc.hyps(2)] percent_not_delimiter
    by auto
  then have "count_list (r @ rp) c = count_list (CHR ''%'' # a # b # s) c" if "c \<in> set delimiters" for c
    using that r(3) [OF that] rp(3) by (simp only: count_list_append)
  moreover have "pct_decode (r @ rp) = pct_decode (CHR ''%'' # a # b # s)"
    using pct_decode_append [OF r(2), of rp d] rp(2) d x by simp
  ultimately show ?case
    using r(1) [of t'] rp(1) t'(2) by (intro exI [of _ "r @ rp"]) simp
qed simp

lemma unhex_upperhex:
  assumes "n < 16"
  shows "is_hex (upperhex ! n)" "unhex (upperhex ! n) = n" "upper_char (upperhex ! n) = upperhex ! n"
proof -
  have "list_all (\<lambda>n. is_hex (upperhex ! n) \<and> unhex (upperhex ! n) = n
      \<and> upper_char (upperhex ! n) = upperhex ! n) [0..<16]"
    by code_simp
  then have "is_hex (upperhex ! n) \<and> unhex (upperhex ! n) = n \<and> upper_char (upperhex ! n) = upperhex ! n"
    using assms unfolding list_all_iff by simp
  then show "is_hex (upperhex ! n)" "unhex (upperhex ! n) = n" "upper_char (upperhex ! n) = upperhex ! n"
    by blast+
qed

lemma escape_digits:
  "unescape (upperhex ! (code_of c div 16)) (upperhex ! (code_of c mod 16)) = Some c"
  "is_hex (upperhex ! (code_of c div 16))" "is_hex (upperhex ! (code_of c mod 16))"
proof -
  have "code_of c < 256" by (simp add: code_of_def)
  then have "code_of c div 16 < 16" by linarith
  then show "unescape (upperhex ! (code_of c div 16)) (upperhex ! (code_of c mod 16)) = Some c"
    "is_hex (upperhex ! (code_of c div 16))" "is_hex (upperhex ! (code_of c mod 16))"
    by (simp_all add: unescape_def unhex_upperhex code_of_def)
qed

lemma escape_norm_enc:
  assumes "shouldEscape c"
  shows "norm_enc (upperhex ! (code_of c div 16)) (upperhex ! (code_of c mod 16)) = escape_char c"
proof -
  have "code_of c < 256" by (simp add: code_of_def)
  then have "code_of c div 16 < 16" by linarith
  moreover have "map_of unreservedCharacters
      [CHR ''%'', upperhex ! (code_of c div 16), upperhex ! (code_of c mod 16)] = None"
    using unreservedCharacters_spec escape_digits(1) [of c] assms
    by (metis not_None_eq option.inject shouldEscape_def)
  ultimately show ?thesis
    using assms by (simp add: norm_enc_def escape_char_def unhex_upperhex)
qed

lemma not_shouldEscape: "\<not> shouldEscape c \<Longrightarrow> c \<noteq> CHR ''%'' \<and> validEncoded_char c"
  by (auto simp: validEncoded_char_def shouldEscape_def unreserved_def code_of_def)

lemma escape_Cons: "escape (c # s) = escape_char c @ escape s"
  by (simp add: escape_def)

lemma pct_ok_escape: "pct_ok (escape s)"
  by (induction s)
    (auto simp: escape_Cons escape_char_def escape_digits dest: not_shouldEscape, simp add: escape_def pct_Nil)

lemma validEncoded_escape: "validEncoded (escape s)"
  by (induction s)
    (simp_all add: escape_Cons escape_char_def escape_digits not_shouldEscape hex_upper(6) escape_def)

lemma pct_decode_escape: "pct_decode (escape s) = Some s"
  by (induction s)
    (simp_all add: escape_Cons escape_char_def escape_digits not_shouldEscape, simp add: escape_def)

lemma normalize_loop_escape: "normalize_loop (escape s) = Some (escape s)"
proof (induction s)
  case (Cons c s)
  show ?case
  proof (cases "shouldEscape c")
    case True
    then have "normalize_loop (escape_char c @ escape s)
        = map_option (\<lambda>t. escape_char c @ t) (normalize_loop (escape s))"
      using normalize_loop_enc [of _ _ "escape s"] escape_norm_enc [OF True] by (simp add: escape_char_def)
    then show ?thesis using Cons by (simp add: escape_Cons)
  next
    case False
    then show ?thesis
      using Cons by (simp add: escape_Cons escape_char_def not_shouldEscape string_of_byte_valid)
  qed
qed (simp add: escape_def)

text \<open>
  A URL as the library parses it: a raw path, where it is kept, decodes to the path.
\<close>

definition url_ok :: "url \<Rightarrow> bool" where
  "url_ok u \<longleftrightarrow> RawPath u = [] \<or> pct_decode (RawPath u) = Some (Path u)"

lemma EscapedPath_ok:
  "pct_ok (URL_EscapedPath u)" "validEncoded (URL_EscapedPath u)" "pct_decode (URL_EscapedPath u) = Some (Path u)"
  by (auto simp: URL_EscapedPath_def pct_ok_escape validEncoded_escape pct_decode_escape
      validEncoded_char_def intro: pct_decode_pct_ok)

lemma EscapedPath_fallback:
  assumes "\<not> validEncoded (RawPath u) \<or> RawPath u = []"
  shows "normalize_loop (URL_EscapedPath u) = Some (URL_EscapedPath u)"
  using assms by (auto simp: URL_EscapedPath_def normalize_loop_escape string_of_byte_def code_of_def)

lemma normalize_EscapedPath:
  assumes "url_ok u"
  shows "\<exists>u'. normalizePath u = Some u' \<and> Path u' = Path u
    \<and> normalize_loop (URL_EscapedPath u) = Some (URL_EscapedPath u')"
proof (cases "RawPath u = []")
  case True
  then show ?thesis
    using assms by (simp add: normalizePath_def EscapedPath_fallback)
next
  case False
  then have ok: "pct_ok (RawPath u)" and dec: "pct_decode (RawPath u) = Some (Path u)"
    using assms by (auto simp: url_ok_def intro: pct_decode_pct_ok)
  obtain t where t: "normalize_loop (RawPath u) = Some t"
    using normalize_loop_total [OF ok] by blast
  define u' where "u' = u\<lparr>RawPath := t\<rparr>"
  have "normalizePath u = Some u'"
    using False t by (simp add: normalizePath_def u'_def)
  moreover have "Path u' = Path u"
    by (simp add: u'_def)
  moreover have "normalize_loop (URL_EscapedPath u) = Some (URL_EscapedPath u')"
  proof (cases "validEncoded (RawPath u)")
    case True
    then show ?thesis
      using False t dec normalize_loop_valid [OF ok t] normalize_loop_decode [OF ok t]
      by (simp add: URL_EscapedPath_def u'_def url_ok_def)
  next
    case invalid: False
    then have "URL_EscapedPath u' = URL_EscapedPath u"
      using normalize_loop_valid [OF ok t] by (simp add: URL_EscapedPath_def u'_def)
    then show ?thesis
      using EscapedPath_fallback invalid by simp
  qed
  ultimately show ?thesis by blast
qed

text \<open>
  Normalisation at the entry point acts on what the rest of the server reads of the URL.
  For every URL the library parses, \<open>normalizePath\<close> lets the request through, keeps the decoded
  path, and the escaped path afterwards is the normal form of the escaped path before; in
  particular the early return for an empty raw path is sound, and a request never falls
  back to re-encoding the path because of the rewriting.
\<close>

theorem normalizePath_correct:
  assumes "url_ok u"
  shows "\<exists>u'. normalizePath u = Some u' \<and> Path u' = Path u
    \<and> normalize_loop (URL_EscapedPath u) = Some (URL_EscapedPath u')"
  using normalize_EscapedPath [OF assms] .

definition demo_url :: url where
  "demo_url = \<lparr>Path = ''/a/b~c'', RawPath = ''/a%2fb%7ec''\<rparr>"

lemma demo_url_ok: "url_ok demo_url"
  by (simp add: url_ok_def demo_url_def unescape_def is_hex_def unhex_def code_of_def)
    (simp add: char_of_def bit_0)

theorem normalizePath_correct_witness:
  "url_ok demo_url \<and> (\<exists>u'. normalizePath demo_url = Some u' \<and> Path u' = Path demo_url
    \<and> normalize_loop (URL_EscapedPath demo_url) = Some (URL_EscapedPath u'))"
  using normalizePath_correct [OF demo_url_ok] demo_url_ok by blast

text \<open>
  C5. Encoded delimiters stay encoded for routing. Behind \<open>normalizePath\<close> the muxer always
  obtains a routing path; it decodes to the path of the URL, and it has exactly as many
  literal slashes, question marks and other reserved characters as the escaped
  path the client sent: no \<open>%2F\<close>, in either case, ever acts as a path separator in a rule.
\<close>

theorem routing_path_keeps_delimiters:
  assumes "url_ok u" "normalizePath u = Some u'"
  shows "\<exists>rp. routing_path (URL_EscapedPath u') = Ok rp \<and> pct_decode rp = Some (Path u)
    \<and> (\<forall>c. c \<in> set delimiters \<longrightarrow> count_list rp c = count_list (URL_EscapedPath u) c)"
proof -
  have "normalize_loop (URL_EscapedPath u) = Some (URL_EscapedPath u')"
    using normalize_EscapedPath [OF assms(1)] assms(2) by auto
  from routing_path_normalized [OF EscapedPath_ok(1) this EscapedPath_ok(2)] show ?thesis
    by (simp add: EscapedPath_ok(3))
qed

theorem routing_path_keeps_delimiters_witness:
  "\<exists>u' rp. normalizePath demo_url = Some u' \<and> routing_path (URL_EscapedPath u') = Ok rp
    \<and> pct_decode rp = Some (Path demo_url) \<and> count_list rp (CHR ''/'') = count_list (URL_EscapedPath demo_url) (CHR ''/'')"
proof -
  obtain u' where u': "normalizePath demo_url = Some u'"
    using normalize_EscapedPath [OF demo_url_ok] by blast
  moreover have "CHR ''/'' \<in> set delimiters"
    by (simp add: delimiters_def)
  ultimately show ?thesis
    using routing_path_keeps_delimiters [OF demo_url_ok u'] by blast
qed

subsection \<open>Rejected encodings\<close>

lemma scan_denied_count:
  assumes "scan_denied D s" "pct_decode s = Some d" "code_of c < 128" "c \<noteq> CHR ''%''"
    and "\<not> is_hex c"
    and "\<And>a b. unescape a b = Some c \<Longrightarrow> [CHR ''%'', a, b] \<in> D"
  shows "count_list d c = count_list s c"
  using pct_decode_pct_ok [OF assms(2)] assms
proof (induction arbitrary: d rule: pct_ok.induct)
  case (pct_enc a b s)
  obtain x d' where x: "unescape a b = Some x" "pct_decode s = Some d'" "d = x # d'"
    using pct_enc.prems(2) by (auto split: option.splits)
  have "x \<noteq> c" "scan_denied D s"
    using pct_enc.prems(1,6) x(1) by (auto split: if_splits)
  moreover have "a \<noteq> c" "b \<noteq> c"
    using pct_enc.hyps pct_enc.prems(5) by auto
  ultimately show ?case
    using pct_enc.IH [OF _ x(2)] pct_enc.prems x by simp
qed auto

lemma unescape_encodings:
  assumes "unescape a b = Some c"
  shows "[upper_char a, upper_char b] = [upperhex ! (code_of c div 16), upperhex ! (code_of c mod 16)]"
proof -
  have h: "is_hex a" "is_hex b" and "c = char_of (16 * unhex a + unhex b)"
    using assms by (auto simp: unescape_def split: if_splits)
  moreover have "unhex a < 16" "unhex b < 16"
    using h hex_upper(3) by auto
  ultimately have "code_of c div 16 = unhex a" "code_of c mod 16 = unhex b"
    by (simp_all add: code_of_def)
  then show ?thesis
    using h by (simp add: hex_upper(5))
qed

lemma upper_char_inv: "upper_char a = c \<Longrightarrow> a = c \<or> a = lower_char c"
proof -
  have "\<forall>a. a = upper_char a \<or> a = lower_char (upper_char a)" by code_simp
  then show "upper_char a = c \<Longrightarrow> a = c \<or> a = lower_char c" by blast
qed

definition encodings :: "char \<Rightarrow> string list" where
  "encodings c = (let x = upperhex ! (code_of c div 16); y = upperhex ! (code_of c mod 16) in
     [[CHR ''%'', p, q]. p \<leftarrow> [x, lower_char x], q \<leftarrow> [y, lower_char y]])"

lemma unescape_encodings_mem: "unescape a b = Some c \<Longrightarrow> [CHR ''%'', a, b] \<in> set (encodings c)"
  using unescape_encodings [of a b c] upper_char_inv [of a] upper_char_inv [of b]
  by (auto simp: encodings_def Let_def)

lemma encodings_eval:
  "encodings (CHR ''/'') = [''%2F'', ''%2f'', ''%2F'', ''%2f'']"
  "encodings (CHR 0x5C) = [''%5C'', ''%5c'', ''%5C'', ''%5c'']"
  "encodings (CHR 0x00) = [''%00'', ''%00'', ''%00'', ''%00'']"
  "encodings (CHR '';'') = [''%3B'', ''%3b'', ''%3B'', ''%3b'']"
  "encodings (CHR ''%'') = [''%25'', ''%25'', ''%25'', ''%25'']"
  "encodings (CHR ''?'') = [''%3F'', ''%3f'', ''%3F'', ''%3f'']"
  "encodings (CHR ''#'') = [''%23'', ''%23'', ''%23'', ''%23'']"
  by code_simp+

lemma deniedMap_encodings:
  "\<not> AllowEncodedSlash r \<Longrightarrow> set (encodings (CHR ''/'')) \<subseteq> deniedMap r"
  "\<not> AllowEncodedBackSlash r \<Longrightarrow> set (encodings (CHR 0x5C)) \<subseteq> deniedMap r"
  "\<not> AllowEncodedNullCharacter r \<Longrightarrow> set (encodings (CHR 0x00)) \<subseteq> deniedMap r"
  "\<not> AllowEncodedSemicolon r \<Longrightarrow> set (encodings (CHR '';'')) \<subseteq> deniedMap r"
  "\<not> AllowEncodedPercent r \<Longrightarrow> set (encodings (CHR ''%'')) \<subseteq> deniedMap r"
  "\<not> AllowEncodedQuestionMark r \<Longrightarrow> set (encodings (CHR ''?'')) \<subseteq> deniedMap r"
  "\<not> AllowEncodedHash r \<Longrightarrow> set (encodings (CHR ''#'')) \<subseteq> deniedMap r"
  unfolding encodings_eval by (simp_all add: deniedMap_def)

lemma scan_denied_percent:
  assumes "scan_denied D s" "pct_decode s = Some d"
    and "\<And>a b. unescape a b = Some (CHR ''%'') \<Longrightarrow> [CHR ''%'', a, b] \<in> D"
  shows "CHR ''%'' \<notin> set d"
  using pct_decode_pct_ok [OF assms(2)] assms
proof (induction arbitrary: d rule: pct_ok.induct)
  case (pct_enc a b s)
  then show ?case by (fastforce split: option.splits if_splits)
qed auto

text \<open>
  C39. A path that passes \<open>denyEncodedPathCharacters\<close> hides no denied character. For each of the
  seven options that is off, every such character of the decoded path was already a literal
  one in the escaped path (and a percent sign does not occur in the decoded path at all),
  whichever case the hexadecimal digits have.
\<close>

theorem denyEncodedPathCharacters_sound:
  assumes "denyEncodedPathCharacters (deniedMap r) s" "pct_decode s = Some d"
  shows "(\<not> AllowEncodedSlash r \<longrightarrow> count_list d (CHR ''/'') = count_list s (CHR ''/''))
    \<and> (\<not> AllowEncodedBackSlash r \<longrightarrow> count_list d (CHR 0x5C) = count_list s (CHR 0x5C))
    \<and> (\<not> AllowEncodedNullCharacter r \<longrightarrow> count_list d (CHR 0x00) = count_list s (CHR 0x00))
    \<and> (\<not> AllowEncodedSemicolon r \<longrightarrow> count_list d (CHR '';'') = count_list s (CHR '';''))
    \<and> (\<not> AllowEncodedPercent r \<longrightarrow> CHR ''%'' \<notin> set d)
    \<and> (\<not> AllowEncodedQuestionMark r \<longrightarrow> count_list d (CHR ''?'') = count_list s (CHR ''?''))
    \<and> (\<not> AllowEncodedHash r \<longrightarrow> count_list d (CHR ''#'') = count_list s (CHR ''#''))"
proof (cases "deniedMap r = {}")
  case True
  then show ?thesis by (auto simp: deniedMap_def split: if_splits)
next
  case False
  then have scan: "scan_denied (deniedMap r) s"
    using assms(1) by (simp add: denyEncodedPathCharacters_def)
  have 1: "count_list d (CHR ''/'') = count_list s (CHR ''/'')" if "\<not> AllowEncodedSlash r"
    using deniedMap_encodings(1) [OF that]
    by (intro scan_denied_count [OF scan assms(2)]) (auto simp: is_hex_def code_of_def dest: unescape_encodings_mem)
  have 2: "count_list d (CHR 0x5C) = count_list s (CHR 0x5C)" if "\<not> AllowEncodedBackSlash r"
    using deniedMap_encodings(2) [OF that]
    by (intro scan_denied_count [OF scan assms(2)]) (auto simp: is_hex_def code_of_def dest: unescape_encodings_mem)
  have 3: "count_list d (CHR 0x00) = count_list s (CHR 0x00)" if "\<not> AllowEncodedNullCharacter r"
    using deniedMap_encodings(3) [OF that]
    by (intro scan_denied_count [OF scan assms(2)]) (auto simp: is_hex_def code_of_def dest: unescape_encodings_mem)
  have 4: "count_list d (CHR '';'') = count_list s (CHR '';'')" if "\<not> AllowEncodedSemicolon r"
    using deniedMap_encodings(4) [OF that]
    by (intro scan_denied_count [OF scan assms(2)]) (auto simp: is_hex_def code_of_def dest: unescape_encodings_mem)
  have 5: "CHR ''%'' \<notin> set d" if "\<not> AllowEncodedPercent r"
    using deniedMap_encodings(5) [OF that]
    by (intro scan_denied_percent [OF scan assms(2)]) (auto simp: is_hex_def code_of_def dest: unescape_encodings_mem)
  have 6: "count_list d (CHR ''?'') = count_list s (CHR ''?'')" if "\<not> AllowEncodedQuestionMark r"
    using deniedMap_encodings(6) [OF that]
    by (intro scan_denied_count [OF scan assms(2)]) (auto simp: is_hex_def code_of_def dest: unescape_encodings_mem)
  have 7: "count_list d (CHR ''#'') = count_list s (CHR ''#'')" if "\<not> AllowEncodedHash r"
    using deniedMap_encodings(7) [OF that]
    by (intro scan_denied_count [OF scan assms(2)]) (auto simp: is_hex_def code_of_def dest: unescape_encodings_mem)
  show ?thesis using 1 2 3 4 5 6 7 by blast
qed

theorem denyEncodedPathCharacters_sound_witness:
  "\<exists>r d. denyEncodedPathCharacters (deniedMap r) ''/a%20b'' \<and> pct_decode ''/a%20b'' = Some d
    \<and> \<not> AllowEncodedSlash r \<and> count_list d (CHR ''/'') = count_list ''/a%20b'' (CHR ''/'')"
proof -
  define r where "r = \<lparr>AllowEncodedSlash = False, AllowEncodedBackSlash = True,
    AllowEncodedNullCharacter = True, AllowEncodedSemicolon = True, AllowEncodedPercent = True,
    AllowEncodedQuestionMark = True, AllowEncodedHash = True\<rparr>"
  have 1: "denyEncodedPathCharacters (deniedMap r) ''/a%20b''"
    by (simp add: r_def deniedMap_def denyEncodedPathCharacters_def)
  obtain d where 2: "pct_decode ''/a%20b'' = Some d"
    by (simp add: unescape_def is_hex_def code_of_def)
  have "\<not> AllowEncodedSlash r"
    by (simp add: r_def)
  with denyEncodedPathCharacters_sound [OF 1 2] 1 2 show ?thesis by blast
qed

end
