(* ===== verification/RouterConfig.thy ===== *)
theory RouterConfig
  imports UrlPath
begin

section \<open>Configuration of HTTP routers\<close>

text \<open>
  The data of \<open>pkg/config/dynamic/http_config.go\<close> and \<open>pkg/config/runtime/runtime_http.go\<close> that the aggregation of configurations
  (\<open>Aggregator\<close>), the tree of routers (\<open>RouterTree\<close>) and the construction of handlers (\<open>RouterBuild\<close>) share, and
  the qualified names of \<open>pkg/server/provider/provider.go\<close>. A slice is a list, or an optional list where the code distinguishes
  a nil slice from an empty one; a pointer to a value that may be missing is an option. The extension points of package \<open>ext\<close>, which
  embed empty structures, are left out.
\<close>

subsection \<open>Dynamic configuration\<close>

record Domain =
  Main :: string
  SANs :: "string list"

record RouterTLSConfig =
  Options :: string
  CertResolver :: string
  Domains :: "Domain list"

record RouterObservabilityConfig =
  AccessLogs :: "bool option"
  Metrics :: "bool option"
  Tracing :: "bool option"
  TraceVerbosity :: string

definition MinimalVerbosity :: string where
  "MinimalVerbosity = ''minimal''"

record Router =
  EntryPoints :: "string list"
  Middlewares :: "string list"
  Service :: string
  Rule :: string
  ParentRefs :: "string list option"
  RuleSyntax :: string
  Priority :: int
  TLS :: "RouterTLSConfig option"
  Observability :: "RouterObservabilityConfig option"
  DefaultRule :: bool
  DeniedEncodedPathCharacters :: "RouterDeniedEncodedPathCharacters option"

text \<open>The elements of a slice that may be nil.\<close>

definition elems :: "'a list option \<Rightarrow> 'a list" where
  "elems xs = (case xs of None \<Rightarrow> [] | Some ys \<Rightarrow> ys)"

lemma elems_simps [simp]: "elems None = []" "elems (Some ys) = ys"
  by (simp_all add: elems_def)

text \<open>A slice grown by \<open>append\<close> from nil is nil when nothing was appended.\<close>

definition appended :: "'a list \<Rightarrow> 'a list option" where
  "appended xs = (if xs = [] then None else Some xs)"

lemma elems_appended [simp]: "elems (appended xs) = xs"
  by (simp add: appended_def)

subsection \<open>Runtime information\<close>

datatype status = StatusEnabled | StatusWarning | StatusDisabled

record RouterInfo = Router +
  Errs :: "string list"
  Status :: status
  Using :: "string list"
  ChildRefs :: "string list"

definition AddError :: "string \<Rightarrow> bool \<Rightarrow> RouterInfo \<Rightarrow> RouterInfo" where
  "AddError err critical r =
     (if err \<in> set (Errs r) then r
      else let r' = r\<lparr>Errs := Errs r @ [err]\<rparr> in
           if critical then r'\<lparr>Status := StatusDisabled\<rparr>
           else if Status r' \<noteq> StatusDisabled then r'\<lparr>Status := StatusWarning\<rparr> else r')"

text \<open>The information that \<open>NewConfig\<close> starts a configured router with.\<close>

definition NewRouterInfo :: "Router \<Rightarrow> RouterInfo" where
  "NewRouterInfo v = Router.extend v (RouterInfo.fields [] StatusEnabled [] [])"

lemma AddError_kept [simp]:
  "EntryPoints (AddError e k r) = EntryPoints r" "Middlewares (AddError e k r) = Middlewares r"
  "Service (AddError e k r) = Service r" "Rule (AddError e k r) = Rule r" "ParentRefs (AddError e k r) = ParentRefs r"
  "RuleSyntax (AddError e k r) = RuleSyntax r" "Priority (AddError e k r) = Priority r" "TLS (AddError e k r) = TLS r"
  "Observability (AddError e k r) = Observability r" "DefaultRule (AddError e k r) = DefaultRule r"
  "DeniedEncodedPathCharacters (AddError e k r) = DeniedEncodedPathCharacters r" "Using (AddError e k r) = Using r"
  "ChildRefs (AddError e k r) = ChildRefs r"
  by (simp_all add: AddError_def Let_def)

lemma NewRouterInfo_simps [simp]:
  "EntryPoints (NewRouterInfo v) = EntryPoints v" "Middlewares (NewRouterInfo v) = Middlewares v" "Service (NewRouterInfo v) = Service v"
  "Rule (NewRouterInfo v) = Rule v" "ParentRefs (NewRouterInfo v) = ParentRefs v" "TLS (NewRouterInfo v) = TLS v"
  "Errs (NewRouterInfo v) = []" "Status (NewRouterInfo v) = StatusEnabled" "ChildRefs (NewRouterInfo v) = []"
  by (simp_all add: NewRouterInfo_def Router.defs RouterInfo.defs)

lemma Errs_AddError: "set (Errs (AddError e k r)) = insert e (set (Errs r))"
  by (auto simp: AddError_def Let_def)

type_synonym routers = "string \<rightharpoonup> RouterInfo"

text \<open>A change made through the pointer that the map holds for a name.\<close>

definition modify :: "string \<Rightarrow> (RouterInfo \<Rightarrow> RouterInfo) \<Rightarrow> routers \<Rightarrow> routers" where
  "modify nm f c = (case c nm of None \<Rightarrow> c | Some r \<Rightarrow> c(nm \<mapsto> f r))"

lemma modify_dom [simp]: "dom (modify nm f c) = dom c"
  by (auto simp: modify_def split: option.splits)

lemma modify_apply: "modify nm f c n = (if n = nm then map_option f (c n) else c n)"
  by (simp add: modify_def split: option.split)

subsection \<open>Qualified names\<close>

text \<open>A context carries at most the name of a provider.\<close>

type_synonym provider_context = "string option"

definition MakeQualifiedName :: "string \<Rightarrow> string \<Rightarrow> string" where
  "MakeQualifiedName providerName elementName = elementName @ ''@'' @ providerName"

definition AddInContext :: "provider_context \<Rightarrow> string \<Rightarrow> provider_context" where
  "AddInContext ctx elementName =
     (let parts = Split elementName (CHR ''@'') in
      if length parts = 1 then ctx
      else if ctx = Some (parts ! 1) then ctx
      else Some (parts ! 1))"

definition GetQualifiedName :: "provider_context \<Rightarrow> string \<Rightarrow> string" where
  "GetQualifiedName ctx elementName =
     (let parts = Split elementName (CHR ''@'') in
      if length parts = 1
      then (case ctx of Some providerName \<Rightarrow> MakeQualifiedName providerName (parts ! 0) | None \<Rightarrow> elementName)
      else elementName)"

text \<open>Names without a provider are completed once; completed names stay as they are and name their provider.\<close>

lemma Split_qualified: "CHR ''@'' \<notin> set n \<Longrightarrow> CHR ''@'' \<notin> set p \<Longrightarrow> Split (MakeQualifiedName p n) (CHR ''@'') = [n, p]"
  by (simp add: MakeQualifiedName_def Split_append_sep Split_no_sep)

lemma GetQualifiedName_idem [simp]: "GetQualifiedName ctx (GetQualifiedName ctx' n) =
   (if ctx' = None then GetQualifiedName ctx n else GetQualifiedName ctx' n)"
proof -
  have "length (Split (MakeQualifiedName p m) (CHR ''@'')) \<noteq> 1" for p m
    by (simp add: Split_single_iff MakeQualifiedName_def del: One_nat_def)
  then show ?thesis
    by (simp add: GetQualifiedName_def Let_def split: option.split del: One_nat_def)
qed

lemma AddInContext_qualified:
  "CHR ''@'' \<notin> set n \<Longrightarrow> CHR ''@'' \<notin> set p \<Longrightarrow> AddInContext ctx (MakeQualifiedName p n) = Some p"
  by (simp add: AddInContext_def Split_qualified Let_def)

end
