(* ===== verification/RouterTree.thy ===== *)
theory RouterTree
  imports RouterConfig "HOL-Library.List_Lexorder" "HOL-Library.Char_ord"
begin

section \<open>The tree of routers (\<open>pkg/server/router/router.go\<close>)\<close>

text \<open>
  Routers may name parent routers; \<open>ParseRouterTree\<close> turns these references into lists of child_refs,
  removes references that close a cycle, and marks routers that cannot be used. Modelled: \<open>ParseRouterTree\<close>,
  \<open>traverse\<close> and \<open>handleCycle\<close>. The loops over the map of routers take its keys in an
  order that is an argument. Quoting by the verb \<open>%q\<close> is that of names of printable characters. The recursion of \<open>traverse\<close> is bounded by a number that the theorems show to be enough: one more than the
  number of routers.
\<close>

subsection \<open>Children\<close>

definition quoted :: "string \<Rightarrow> string" where
  "quoted s = [CHR 0x22] @ s @ [CHR 0x22]"

definition add_child :: "string \<Rightarrow> string \<Rightarrow> routers \<Rightarrow> routers" where
  "add_child routerName parentName conf =
     (case conf parentName of
        Some parentRouter \<Rightarrow>
          if routerName \<in> set (ChildRefs parentRouter) then conf
          else conf(parentName \<mapsto> parentRouter\<lparr>ChildRefs := ChildRefs parentRouter @ [routerName]\<rparr>)
      | None \<Rightarrow> modify routerName (AddError (''parent router '' @ quoted parentName @ '' does not exist'') True) conf)"

definition check_nonroot :: "string \<Rightarrow> routers \<Rightarrow> routers" where
  "check_nonroot routerName conf =
     modify routerName (\<lambda>router.
       if TLS router \<noteq> None then AddError ''non-root router cannot have TLS configuration'' True router
       else if Observability router \<noteq> None then AddError ''non-root router cannot have Observability configuration'' True router
       else if length (EntryPoints router) > 0 then AddError ''non-root router cannot have Entrypoints configuration'' True router
       else router) conf"

definition is_root :: "routers \<Rightarrow> string \<Rightarrow> bool" where
  "is_root conf nm \<longleftrightarrow> (case conf nm of None \<Rightarrow> False | Some r \<Rightarrow> elems (ParentRefs r) = [])"

definition populate :: "string \<Rightarrow> routers \<Rightarrow> routers" where
  "populate routerName conf =
     (case conf routerName of
        None \<Rightarrow> conf
      | Some router \<Rightarrow>
          if elems (ParentRefs router) = [] then conf
          else check_nonroot routerName (fold (add_child routerName) (elems (ParentRefs router)) conf))"

subsection \<open>Traversal\<close>

text \<open>The guilty router is the last of the path, the victim the one that it refers back to.\<close>

definition handleCycle :: "string \<Rightarrow> string list \<Rightarrow> routers \<Rightarrow> routers" where
  "handleCycle victimRouter path conf =
     (if victimRouter \<notin> set path then conf
      else let cyclePath = dropWhile (\<lambda>name. name \<noteq> victimRouter) path @ [victimRouter];
               cycleRouters = Join cyclePath '' -> ''
           in modify (last path)
                (\<lambda>g. (AddError (''cyclic reference detected in router tree: '' @ cycleRouters) False g)
                       \<lparr>ChildRefs := remove1 victimRouter (ChildRefs g)\<rparr>) conf)"

record traversal =
  tconf :: routers
  visited :: "string set"
  currentPath :: "string set"

definition child_refs :: "routers \<Rightarrow> string \<Rightarrow> string list" where
  "child_refs c nm = (case c nm of None \<Rightarrow> [] | Some r \<Rightarrow> ChildRefs r)"

fun traverse :: "nat \<Rightarrow> string \<Rightarrow> string list \<Rightarrow> traversal \<Rightarrow> traversal option"
and traverse_list :: "nat \<Rightarrow> string list \<Rightarrow> string list \<Rightarrow> traversal \<Rightarrow> traversal option" where
  "traverse 0 routerName path s = None"
| "traverse (Suc fuel) routerName path s =
     (if routerName \<in> currentPath s then Some (s\<lparr>tconf := handleCycle routerName path (tconf s)\<rparr>)
      else if routerName \<in> visited s then Some s
      else let s1 = s\<lparr>visited := insert routerName (visited s)\<rparr> in
           case tconf s routerName of
             None \<Rightarrow> Some s1
           | Some router \<Rightarrow>
               map_option (\<lambda>s2. s2\<lparr>currentPath := currentPath s2 - {routerName}\<rparr>)
                 (traverse_list fuel (sort (ChildRefs router)) (path @ [routerName])
                   (s1\<lparr>currentPath := insert routerName (currentPath s1)\<rparr>)))"
| "traverse_list fuel [] path s = Some s"
| "traverse_list fuel (childName # rest) path s =
     (case traverse fuel childName path s of None \<Rightarrow> None | Some s' \<Rightarrow> traverse_list fuel rest path s')"

fun traverse_roots :: "nat \<Rightarrow> string list \<Rightarrow> traversal \<Rightarrow> traversal option" where
  "traverse_roots fuel [] s = Some s"
| "traverse_roots fuel (rootName # rest) s =
     (if rootName \<in> visited s then traverse_roots fuel rest s
      else case traverse fuel rootName [] s of None \<Rightarrow> None | Some s' \<Rightarrow> traverse_roots fuel rest s')"

definition check_used :: "string set \<Rightarrow> string \<Rightarrow> routers \<Rightarrow> routers" where
  "check_used vis routerName conf =
     modify routerName (\<lambda>router.
       if routerName \<notin> vis then AddError ''router is not reachable'' True router
       else if Service router = [] \<and> length (ChildRefs router) = 0
         then AddError ''router has no service and no child routers'' True router
       else if Service router \<noteq> [] \<and> length (ChildRefs router) > 0
         then AddError ''router has both a service and is referenced as a parent by other routers'' True router
       else router) conf"

definition ParseRouterTree :: "string list \<Rightarrow> string list \<Rightarrow> routers \<Rightarrow> routers option" where
  "ParseRouterTree order1 order2 c =
     (let c1 = fold populate order1 c;
          rootRouters = sort (filter (is_root c) order1)
      in map_option (\<lambda>s. fold (check_used (visited s)) order2 (tconf s))
           (traverse_roots (Suc (length order1)) rootRouters \<lparr>tconf = c1, visited = {}, currentPath = {}\<rparr>))"

subsection \<open>What is left alone\<close>

text \<open>Errors and children leave the rest of a router alone.\<close>

definition same_parents :: "routers \<Rightarrow> routers \<Rightarrow> bool" where
  "same_parents c c' \<longleftrightarrow> (\<forall>n. map_option ParentRefs (c n) = map_option ParentRefs (c' n))"

lemma same_parents_refl: "same_parents c c"
  by (simp add: same_parents_def)

lemma same_parents_trans: "same_parents c c1 \<Longrightarrow> same_parents c1 c2 \<Longrightarrow> same_parents c c2"
  by (simp add: same_parents_def)

lemma same_parents_dom: "same_parents c c' \<Longrightarrow> dom c' = dom c"
  unfolding same_parents_def dom_def by (metis (mono_tags) option.map_disc_iff)

lemma same_parents_root: "same_parents c c' \<Longrightarrow> is_root c' n = is_root c n"
  unfolding same_parents_def is_root_def by (drule spec [of _ n]) (auto split: option.splits)

lemma same_parents_modify: "\<forall>r. ParentRefs (f r) = ParentRefs r \<Longrightarrow> same_parents c (modify n f c)"
  by (simp add: same_parents_def modify_def split: option.split)

lemma same_parents_fold:
  assumes "\<And>x c. same_parents c (f x c)"
  shows "same_parents c (fold f xs c)"
proof (induction xs arbitrary: c)
  case (Cons x xs)
  show ?case using same_parents_trans [OF assms Cons.IH] by simp
qed (simp add: same_parents_refl)

lemma same_parents_add_child: "same_parents c (add_child n p c)"
  by (auto simp: add_child_def same_parents_def modify_def split: option.split)

lemma same_parents_check: "same_parents c (check_nonroot n c)" "same_parents c (check_used vis n c)"
  unfolding check_nonroot_def check_used_def by (intro same_parents_modify; simp)+

lemma same_parents_populate: "same_parents c (populate n c)"
  unfolding populate_def
  using same_parents_trans [OF same_parents_fold [of "add_child n", OF same_parents_add_child] same_parents_check(1)]
  by (simp add: same_parents_refl split: option.split)

lemma same_parents_handleCycle: "same_parents c (handleCycle v path c)"
  unfolding handleCycle_def Let_def by (simp add: same_parents_refl same_parents_modify)

subsection \<open>Invariants of the traversal\<close>

lemma children_modify [simp]:
  "child_refs (modify nm f c) n = (if n = nm then (case c nm of None \<Rightarrow> [] | Some r \<Rightarrow> ChildRefs (f r)) else child_refs c n)"
  by (auto simp: modify_def child_refs_def split: option.splits)

lemma handleCycle_dom [simp]: "dom (handleCycle v path c) = dom c"
  by (simp add: handleCycle_def Let_def)

lemma handleCycle_child_refs:
  "v \<in> set path \<Longrightarrow> child_refs (handleCycle v path c) = (child_refs c)(last path := remove1 v (child_refs c (last path)))"
  by (auto simp: handleCycle_def Let_def fun_eq_iff) (auto simp: child_refs_def split: option.split)

text \<open>
  Routers in the order they were finished, the last one first: the children of each were
  finished before it.
\<close>

fun ordered :: "(string \<Rightarrow> string list) \<Rightarrow> string list \<Rightarrow> bool" where
  "ordered ch [] \<longleftrightarrow> True"
| "ordered ch (u # us) \<longleftrightarrow> set (ch u) \<subseteq> set us \<and> u \<notin> set us \<and> ordered ch us"

lemma ordered_cong: "\<forall>u \<in> set us. ch u = ch' u \<Longrightarrow> ordered ch us = ordered ch' us"
  by (induction us) auto

definition graph_ok :: "routers \<Rightarrow> bool" where
  "graph_ok c \<longleftrightarrow> finite (dom c) \<and> (\<forall>n. distinct (child_refs c n) \<and> set (child_refs c n) \<subseteq> dom c)"

definition trav_inv :: "traversal \<Rightarrow> string list \<Rightarrow> bool" where
  "trav_inv s fin \<longleftrightarrow> graph_ok (tconf s) \<and> visited s \<subseteq> dom (tconf s) \<and> currentPath s \<subseteq> visited s \<and>
     set fin = visited s - currentPath s \<and> ordered (child_refs (tconf s)) fin"

text \<open>What a call leaves as it was: the path, what is finished, and the other routers of the path.\<close>

definition extends :: "traversal \<Rightarrow> string list \<Rightarrow> traversal \<Rightarrow> string list \<Rightarrow> bool" where
  "extends s fin s' fin' \<longleftrightarrow> trav_inv s' fin' \<and> same_parents (tconf s) (tconf s') \<and> dom (tconf s') = dom (tconf s) \<and> visited s \<subseteq> visited s' \<and>
     currentPath s' = currentPath s \<and> set fin \<subseteq> set fin' \<and> (\<forall>m \<in> set fin. child_refs (tconf s') m = child_refs (tconf s) m)"

text \<open>The references from finished routers, which do not change any more, and what a call has newly visited.\<close>

definition refs :: "traversal \<Rightarrow> string list \<Rightarrow> (string \<times> string) set" where
  "refs s fin = {(a, b). a \<in> set fin \<and> b \<in> set (child_refs (tconf s) a)}"

definition found :: "string set \<Rightarrow> traversal \<Rightarrow> traversal \<Rightarrow> string list \<Rightarrow> bool" where
  "found ns s s' fin' \<longleftrightarrow> (\<forall>v \<in> visited s' - visited s. \<exists>n \<in> ns. (n, v) \<in> (refs s' fin')\<^sup>*)"

lemma refs_mono: "extends s fin s' fin' \<Longrightarrow> refs s fin \<subseteq> refs s' fin'"
  by (auto simp: refs_def extends_def)

lemma extends_refl: "trav_inv s fin \<Longrightarrow> extends s fin s fin"
  by (simp add: extends_def same_parents_refl)

lemma extends_trans: "extends s fin s1 fin1 \<Longrightarrow> extends s1 fin1 s2 fin2 \<Longrightarrow> extends s fin s2 fin2"
  unfolding extends_def using same_parents_trans by (auto dest: subsetD)

lemma found_trans:
  assumes "found ns s s1 fin1" "found ms s1 s2 fin2" "extends s1 fin1 s2 fin2"
  shows "found (ns \<union> ms) s s2 fin2"
proof -
  have "(refs s1 fin1)\<^sup>* \<subseteq> (refs s2 fin2)\<^sup>*"
    using refs_mono [OF assms(3)] by (rule rtrancl_mono)
  then show ?thesis
    using assms(1,2) unfolding found_def by (metis DiffE DiffI UnCI subsetD)
qed

definition after_child :: "string \<Rightarrow> string list \<Rightarrow> traversal \<Rightarrow> traversal \<Rightarrow> bool" where
  "after_child n path s s' \<longleftrightarrow>
     (if n \<in> currentPath s
      then \<forall>m \<in> currentPath s. child_refs (tconf s') m = (if m = last path then remove1 n (child_refs (tconf s) m) else child_refs (tconf s) m)
      else n \<in> visited s' \<and> (\<forall>m \<in> currentPath s. child_refs (tconf s') m = child_refs (tconf s) m))"

definition after_children :: "string list \<Rightarrow> string list \<Rightarrow> traversal \<Rightarrow> traversal \<Rightarrow> bool" where
  "after_children cs path s s' \<longleftrightarrow>
     (\<forall>m \<in> currentPath s. child_refs (tconf s') m =
        (if m = last path then filter (\<lambda>c. \<not> (c \<in> set cs \<and> c \<in> currentPath s)) (child_refs (tconf s) m) else child_refs (tconf s) m)) \<and>
     set cs - currentPath s \<subseteq> visited s'"

lemma graph_ok_handleCycle:
  assumes "graph_ok c"
  shows "graph_ok (handleCycle v path c)"
proof (cases "v \<in> set path")
  case True
  then show ?thesis
    using assms by (auto simp: graph_ok_def handleCycle_child_refs dest: notin_set_remove1 intro: distinct_remove1)
qed (use assms in \<open>simp add: handleCycle_def\<close>)

lemma cycle_step:
  assumes "trav_inv s fin" "n \<in> currentPath s" "currentPath s = set path"
  shows "extends s fin (s\<lparr>tconf := handleCycle n path (tconf s)\<rparr>) fin"
    "after_child n path s (s\<lparr>tconf := handleCycle n path (tconf s)\<rparr>)"
proof -
  have "n \<in> set path" using assms(2,3) by simp
  moreover from this have "path \<noteq> []" by (cases path) simp_all
  ultimately have path: "n \<in> set path" "last path \<in> currentPath s"
    unfolding assms(3) by simp_all
  have "last path \<notin> set fin"
    using assms(1) path(2) by (simp add: trav_inv_def)
  then have "\<forall>u \<in> set fin. child_refs (handleCycle n path (tconf s)) u = child_refs (tconf s) u"
    by (auto simp: handleCycle_child_refs [OF path(1)])
  from ordered_cong [OF this] have "ordered (child_refs (handleCycle n path (tconf s))) fin"
    using assms(1) by (simp add: trav_inv_def)
  then show "extends s fin (s\<lparr>tconf := handleCycle n path (tconf s)\<rparr>) fin"
    using assms(1) graph_ok_handleCycle [of "tconf s"] \<open>\<forall>u \<in> set fin. _ u = _ u\<close> by (simp add: extends_def trav_inv_def same_parents_handleCycle)
  show "after_child n path s (s\<lparr>tconf := handleCycle n path (tconf s)\<rparr>)"
    using assms(2) by (simp add: after_child_def handleCycle_child_refs [OF path(1)] del: fun_upd_apply) (simp add: fun_upd_def)
qed

lemma filter_remove_path:
  assumes "distinct xs"
  shows "filter (\<lambda>c. \<not> (c \<in> set cs \<and> c \<in> A)) (if n \<in> A then remove1 n xs else xs) = filter (\<lambda>c. \<not> (c \<in> set (n # cs) \<and> c \<in> A)) xs"
  using assms by (auto simp: distinct_remove1_removeAll removeAll_filter_not_eq intro!: filter_cong)

lemma list_step:
  assumes step: "\<And>n s fin. trav_inv s fin \<Longrightarrow> currentPath s = set path \<Longrightarrow> n \<in> dom (tconf s) \<Longrightarrow> card (dom (tconf s) - visited s) < fuel \<Longrightarrow>
      \<exists>s' fin'. traverse fuel n path s = Some s' \<and> extends s fin s' fin' \<and> after_child n path s s' \<and> found ({n} - set path) s s' fin'"
  shows "trav_inv s fin \<Longrightarrow> currentPath s = set path \<Longrightarrow> set cs \<subseteq> dom (tconf s) \<Longrightarrow> card (dom (tconf s) - visited s) < fuel \<Longrightarrow> distinct cs \<Longrightarrow>
      \<exists>s' fin'. traverse_list fuel cs path s = Some s' \<and> extends s fin s' fin' \<and> after_children cs path s s' \<and> found (set cs - set path) s s' fin'"
proof (induction cs arbitrary: s fin)
  case Nil
  then show ?case by (intro exI [of _ s] exI [of _ fin]) (auto simp: extends_refl after_children_def found_def)
next
  case (Cons n cs)
  obtain s1 fin1 where s1: "traverse fuel n path s = Some s1" "extends s fin s1 fin1" "after_child n path s s1" "found ({n} - set path) s s1 fin1"
    using step [OF Cons.prems(1,2) _ Cons.prems(4), of n] Cons.prems(3) by (meson list.set_intros(1) subsetD)
  have "finite (dom (tconf s))" using Cons.prems(1) by (simp add: trav_inv_def graph_ok_def)
  then have "card (dom (tconf s1) - visited s1) \<le> card (dom (tconf s) - visited s)"
    using s1(2) by (intro card_mono) (auto simp: extends_def)
  moreover have "trav_inv s1 fin1" "currentPath s1 = set path" "set cs \<subseteq> dom (tconf s1)"
    using s1(2) Cons.prems(2,3) by (auto simp: extends_def)
  ultimately obtain s2 fin2 where s2: "traverse_list fuel cs path s1 = Some s2" "extends s1 fin1 s2 fin2" "after_children cs path s1 s2"
    "found (set cs - set path) s1 s2 fin2"
    using Cons.IH [of s1 fin1] Cons.prems(4,5) by auto
  have ext: "extends s fin s2 fin2"
    by (rule extends_trans [OF s1(2) s2(2)])
  have fnd: "found (set (n # cs) - set path) s s2 fin2"
    using found_trans [OF s1(4) s2(4) s2(2)] by (simp add: Un_Diff [symmetric])
  have cur: "currentPath s1 = currentPath s" using s1(2) by (simp add: extends_def)
  have ch: "child_refs (tconf s2) m = (if m = last path
      then filter (\<lambda>c. \<not> (c \<in> set (n # cs) \<and> c \<in> currentPath s)) (child_refs (tconf s) m) else child_refs (tconf s) m)"
    if m: "m \<in> currentPath s" for m
  proof -
    have "child_refs (tconf s2) m = (if m = last path
        then filter (\<lambda>c. \<not> (c \<in> set cs \<and> c \<in> currentPath s)) (child_refs (tconf s1) m) else child_refs (tconf s1) m)"
      using s2(3) m cur by (simp add: after_children_def)
    moreover have "child_refs (tconf s1) m = (if m = last path then (if n \<in> currentPath s then remove1 n (child_refs (tconf s) m) else child_refs (tconf s) m)
        else child_refs (tconf s) m)"
      using s1(3) m by (auto simp: after_child_def split: if_splits)
    moreover have "distinct (child_refs (tconf s) m)"
      using Cons.prems(1) by (simp add: trav_inv_def graph_ok_def)
    ultimately show ?thesis
      by (simp only: filter_remove_path if_cancel split: if_split) blast
  qed
  have "set (n # cs) - currentPath s \<subseteq> visited s2"
    using s1(3) s2(2,3) cur by (auto simp: after_child_def after_children_def extends_def)
  with ch have "after_children (n # cs) path s s2"
    unfolding after_children_def by blast
  then show ?case using s1(1) s2(1) ext fnd by auto
qed

text \<open>Entering a router, and leaving it when its children are done.\<close>

definition enter :: "string \<Rightarrow> traversal \<Rightarrow> traversal" where
  "enter n s = s\<lparr>visited := insert n (visited s), currentPath := insert n (currentPath s)\<rparr>"

definition leave :: "string \<Rightarrow> traversal \<Rightarrow> traversal" where
  "leave n s = s\<lparr>currentPath := currentPath s - {n}\<rparr>"

lemma trav_inv_enter:
  "trav_inv s fin \<Longrightarrow> n \<in> dom (tconf s) \<Longrightarrow> n \<notin> visited s \<Longrightarrow> trav_inv (enter n s) fin"
  by (auto simp: trav_inv_def enter_def)

lemma traverse_enter:
  assumes "n \<notin> currentPath s" "n \<notin> visited s" "n \<in> dom (tconf s)"
  shows "traverse (Suc k) n path s =
    map_option (leave n) (traverse_list k (sort (child_refs (tconf s) n)) (path @ [n]) (enter n s))"
  using assms by (auto simp: enter_def leave_def [abs_def] child_refs_def Let_def)

lemma leave_ok:
  assumes "trav_inv s fin" "n \<in> dom (tconf s)" "n \<notin> visited s"
    and "extends (enter n s) fin s2 fin2" "after_children (sort (child_refs (tconf s) n)) (path @ [n]) (enter n s) s2"
    and "found (set (child_refs (tconf s) n) - insert n (currentPath s)) (enter n s) s2 fin2"
  shows "extends s fin (leave n s2) (n # fin2)" "after_child n path s (leave n s2)"
    "found {n} s (leave n s2) (n # fin2)"
proof -
  have inv2: "trav_inv s2 fin2" "currentPath s2 = insert n (currentPath s)" "same_parents (tconf s) (tconf s2)" "dom (tconf s2) = dom (tconf s)"
    "insert n (visited s) \<subseteq> visited s2" "set fin \<subseteq> set fin2" "\<forall>m \<in> set fin. child_refs (tconf s2) m = child_refs (tconf s) m"
    using assms(4) by (simp_all add: extends_def enter_def)
  have n: "n \<notin> currentPath s" using assms(1,3) by (auto simp: trav_inv_def)
  have ch: "child_refs (tconf s2) m = (if m = n
      then filter (\<lambda>c. \<not> (c \<in> set (child_refs (tconf s) n) \<and> c \<in> insert n (currentPath s))) (child_refs (tconf s) m)
      else child_refs (tconf s) m)" if "m \<in> insert n (currentPath s)" for m
    using assms(5) that by (cases "m = n") (auto simp: after_children_def enter_def)
  have "set (child_refs (tconf s2) n) \<subseteq> visited s2 - insert n (currentPath s)"
    using ch [of n] assms(5) by (auto simp: after_children_def enter_def)
  also have "\<dots> = set fin2"
    using inv2(1,2) by (simp add: trav_inv_def)
  finally have "ordered (child_refs (tconf s2)) (n # fin2)"
    using inv2(1,2) by (simp add: trav_inv_def)
  moreover have "set (n # fin2) = visited s2 - currentPath s"
    using inv2 n by (auto simp: trav_inv_def)
  moreover have "currentPath (leave n s2) = currentPath s"
    using inv2(2) n by (simp add: leave_def)
  ultimately show "extends s fin (leave n s2) (n # fin2)"
    using inv2 by (auto simp: extends_def trav_inv_def leave_def)
  show "after_child n path s (leave n s2)"
    using n ch inv2(5) by (auto simp: after_child_def leave_def)
  have sub: "(refs s2 fin2)\<^sup>* \<subseteq> (refs (leave n s2) (n # fin2))\<^sup>*"
    by (intro rtrancl_mono) (auto simp: refs_def leave_def)
  have "(n, v) \<in> (refs (leave n s2) (n # fin2))\<^sup>*" if v: "v \<in> visited s2 - visited s" for v
  proof (cases "v = n")
    case False
    then obtain c where c: "c \<in> set (child_refs (tconf s) n)" "c \<notin> insert n (currentPath s)" "(c, v) \<in> (refs s2 fin2)\<^sup>*"
      using assms(6) v by (auto simp: found_def enter_def)
    then have "(n, c) \<in> refs (leave n s2) (n # fin2)"
      using ch [of n] by (simp add: refs_def leave_def)
    then show ?thesis
      using c(3) sub by (meson converse_rtrancl_into_rtrancl subsetD)
  qed simp
  then show "found {n} s (leave n s2) (n # fin2)"
    by (simp add: found_def leave_def)
qed

lemma traverse_ok:
  "trav_inv s fin \<Longrightarrow> currentPath s = set path \<Longrightarrow> n \<in> dom (tconf s) \<Longrightarrow> card (dom (tconf s) - visited s) < fuel \<Longrightarrow>
     \<exists>s' fin'. traverse fuel n path s = Some s' \<and> extends s fin s' fin' \<and> after_child n path s s' \<and> found ({n} - set path) s s' fin'"
proof (induction fuel arbitrary: n path s fin)
  case (Suc k)
  consider "n \<in> currentPath s" | "n \<notin> currentPath s" "n \<in> visited s" | "n \<notin> currentPath s" "n \<notin> visited s"
    by blast
  then show ?case
  proof cases
    case 1
    have "found ({n} - set path) s (s\<lparr>tconf := handleCycle n path (tconf s)\<rparr>) fin" by (simp add: found_def)
    then show ?thesis using cycle_step [OF Suc.prems(1) 1 Suc.prems(2)] 1 by (simp, blast)
  next
    case 2
    then show ?thesis using Suc.prems(1) by (intro exI [of _ s] exI [of _ fin]) (simp add: extends_refl after_child_def found_def)
  next
    case 3
    have fin: "finite (dom (tconf s))" "distinct (child_refs (tconf s) n)" "set (child_refs (tconf s) n) \<subseteq> dom (tconf s)"
      using Suc.prems(1) by (simp_all add: trav_inv_def graph_ok_def)
    have "card (dom (tconf s) - insert n (visited s)) < card (dom (tconf s) - visited s)"
      using fin(1) 3 Suc.prems(3) by (intro psubset_card_mono) auto
    then have "card (dom (tconf (enter n s)) - visited (enter n s)) < k"
      using Suc.prems(4) by (simp add: enter_def)
    moreover have "trav_inv (enter n s) fin"
      using Suc.prems(1,3) 3(2) by (rule trav_inv_enter)
    moreover have "currentPath (enter n s) = set (path @ [n])" "set (sort (child_refs (tconf s) n)) \<subseteq> dom (tconf (enter n s))"
      using Suc.prems(2) fin(3) by (simp_all add: enter_def)
    ultimately have "\<exists>s2 fin2. traverse_list k (sort (child_refs (tconf s) n)) (path @ [n]) (enter n s) = Some s2 \<and>
        extends (enter n s) fin s2 fin2 \<and> after_children (sort (child_refs (tconf s) n)) (path @ [n]) (enter n s) s2 \<and>
        found (set (sort (child_refs (tconf s) n)) - set (path @ [n])) (enter n s) s2 fin2"
      using fin(2) by (intro list_step Suc.IH) simp_all
    then obtain s2 fin2 where s2: "traverse_list k (sort (child_refs (tconf s) n)) (path @ [n]) (enter n s) = Some s2"
      "extends (enter n s) fin s2 fin2" "after_children (sort (child_refs (tconf s) n)) (path @ [n]) (enter n s) s2"
      "found (set (sort (child_refs (tconf s) n)) - set (path @ [n])) (enter n s) s2 fin2"
      by blast
    have "found (set (child_refs (tconf s) n) - insert n (currentPath s)) (enter n s) s2 fin2" "{n} - set path = {n}"
      using s2(4) 3(1) Suc.prems(2) by auto
    moreover have "traverse (Suc k) n path s = Some (leave n s2)"
      unfolding traverse_enter [OF 3 Suc.prems(3)] by (simp add: s2(1))
    ultimately show ?thesis
      using leave_ok [OF Suc.prems(1,3) 3(2) s2(2,3)] by metis
  qed
qed simp

lemma roots_ok:
  "trav_inv s fin \<Longrightarrow> currentPath s = {} \<Longrightarrow> set rs \<subseteq> dom (tconf s) \<Longrightarrow> card (dom (tconf s)) < fuel \<Longrightarrow>
     \<exists>s' fin'. traverse_roots fuel rs s = Some s' \<and> extends s fin s' fin' \<and> set rs \<subseteq> visited s' \<and> found (set rs) s s' fin'"
proof (induction rs arbitrary: s fin)
  case Nil
  then show ?case by (intro exI [of _ s] exI [of _ fin]) (auto simp: extends_refl found_def)
next
  case (Cons r rs)
  have "finite (dom (tconf s))" using Cons.prems(1) by (simp add: trav_inv_def graph_ok_def)
  then have card: "card (dom (tconf s) - visited s) < fuel"
    using Cons.prems(4) card_mono [of "dom (tconf s)" "dom (tconf s) - visited s"] by auto
  obtain s1 fin1 where s1: "(if r \<in> visited s then Some s else traverse fuel r [] s) = Some s1" "extends s fin s1 fin1" "r \<in> visited s1"
    "found {r} s s1 fin1"
  proof (cases "r \<in> visited s")
    case True
    then show ?thesis using that [of s fin] Cons.prems(1) by (simp add: extends_refl found_def)
  next
    case False
    then show ?thesis
      using traverse_ok [OF Cons.prems(1) _ _ card, of "[]" r] Cons.prems(2,3) that
      by (auto simp: after_child_def)
  qed
  have "trav_inv s1 fin1" "currentPath s1 = {}" "dom (tconf s1) = dom (tconf s)"
    using s1(2) Cons.prems(2) by (simp_all add: extends_def)
  then obtain s2 fin2 where s2: "traverse_roots fuel rs s1 = Some s2" "extends s1 fin1 s2 fin2" "set rs \<subseteq> visited s2"
    "found (set rs) s1 s2 fin2"
    using Cons.IH [of s1 fin1] Cons.prems(3,4) by auto
  have "extends s fin s2 fin2" "found (set (r # rs)) s s2 fin2"
    using extends_trans [OF s1(2) s2(2)] found_trans [OF s1(4) s2(4) s2(2)] by simp_all
  moreover have "set (r # rs) \<subseteq> visited s2"
    using s1(3) s2(2,3) by (auto simp: extends_def)
  moreover have "traverse_roots fuel (r # rs) s = Some s2"
    using s1(1) s2(1) by (auto split: if_splits)
  ultimately show ?case by blast
qed

subsection \<open>The whole tree\<close>

text \<open>The routers that are used: roots, and children of routers that are used.\<close>

inductive reaches :: "routers \<Rightarrow> string \<Rightarrow> bool" for c where
  root: "is_root c n \<Longrightarrow> reaches c n"
| child: "reaches c p \<Longrightarrow> n \<in> set (child_refs c p) \<Longrightarrow> reaches c n"

lemma graph_ok_add_child:
  assumes "graph_ok c" "n \<in> dom c"
  shows "graph_ok (add_child n p c)"
proof (cases "c p")
  case None
  then have "child_refs (add_child n p c) = child_refs c" "dom (add_child n p c) = dom c"
    by (auto simp: add_child_def fun_eq_iff) (auto simp: child_refs_def split: option.split)
  then show ?thesis using assms by (simp add: graph_ok_def)
next
  case (Some r)
  have "child_refs (add_child n p c) m = (if m = p \<and> n \<notin> set (child_refs c p) then child_refs c p @ [n] else child_refs c m)" for m
    using Some by (simp add: add_child_def child_refs_def)
  moreover have "dom (add_child n p c) = dom c"
    using Some by (auto simp: add_child_def)
  ultimately show ?thesis
    using assms by (auto simp: graph_ok_def)
qed

lemma graph_ok_add_children:
  "graph_ok c \<Longrightarrow> n \<in> dom c \<Longrightarrow> graph_ok (fold (add_child n) ps c)"
proof (induction ps arbitrary: c)
  case (Cons p ps)
  then show ?case
    using graph_ok_add_child [of c n p] same_parents_dom [OF same_parents_add_child [of c n p]] by simp
qed simp

lemma children_check [simp]:
  "child_refs (check_nonroot n c) = child_refs c" "child_refs (check_used vis n c) = child_refs c"
  by (auto simp: check_nonroot_def check_used_def fun_eq_iff) (auto simp: child_refs_def split: option.split)

lemma graph_ok_populate: "graph_ok c \<Longrightarrow> graph_ok (populate n c)"
proof (cases "c n")
  case (Some r)
  assume "graph_ok c"
  then have "graph_ok (fold (add_child n) (elems (ParentRefs r)) c)"
    using Some by (intro graph_ok_add_children) auto
  then show ?thesis
    using Some \<open>graph_ok c\<close> same_parents_dom [OF same_parents_check(1)] by (simp add: populate_def graph_ok_def)
qed (simp add: populate_def)

lemma graph_ok_populates: "graph_ok c \<Longrightarrow> graph_ok (fold populate ns c)"
  by (induction ns arbitrary: c) (simp_all add: graph_ok_populate)

lemma children_fold_check: "child_refs (fold (check_used vis) ns c) = child_refs c"
  by (induction ns arbitrary: c) simp_all

text \<open>The position of a router in the order in which they were finished.\<close>

lemma ordered_rank:
  assumes "ordered ch us"
  shows "\<exists>rank :: string \<Rightarrow> nat. \<forall>u \<in> set us. \<forall>v \<in> set (ch u). v \<in> set us \<and> rank v < rank u"
  using assms
proof (induction us)
  case (Cons u us)
  then obtain rank :: "string \<Rightarrow> nat" where r: "\<forall>u \<in> set us. \<forall>v \<in> set (ch u). v \<in> set us \<and> rank v < rank u"
    by auto
  define rank' where "rank' = (\<lambda>n. if n = u then Suc (Max (insert 0 (rank ` set us))) else rank n)"
  have "rank v < rank' u" if "v \<in> set us" for v
    using that by (simp add: rank'_def less_Suc_eq_le)
  then have "\<forall>x \<in> set (u # us). \<forall>v \<in> set (ch x). v \<in> set (u # us) \<and> rank' v < rank' x"
    using r Cons.prems by (auto simp: rank'_def subset_iff)
  then show ?case by blast
qed simp

definition initial :: "routers \<Rightarrow> string list \<Rightarrow> bool" where
  "initial c order \<longleftrightarrow> distinct order \<and> set order = dom c \<and> (\<forall>r \<in> ran c. ChildRefs r = [])"

lemma initial_graph: "initial c order \<Longrightarrow> graph_ok c"
  unfolding initial_def graph_ok_def by (auto simp: child_refs_def ran_def split: option.splits) (metis List.finite_set)

lemma ParseRouterTree_traversal:
  assumes "initial c order1"
  obtains s fin where "ParseRouterTree order1 order2 c = Some (fold (check_used (visited s)) order2 (tconf s))"
    "traverse_roots (Suc (length order1)) (sort (filter (is_root c) order1)) \<lparr>tconf = fold populate order1 c, visited = {}, currentPath = {}\<rparr> = Some s"
    "trav_inv s fin" "currentPath s = {}" "same_parents c (tconf s)" "\<forall>n. is_root c n \<longrightarrow> n \<in> visited s"
    "\<forall>v \<in> visited s. \<exists>n. is_root c n \<and> (n, v) \<in> (refs s fin)\<^sup>*"
proof -
  define c1 where "c1 = fold populate order1 c"
  define s0 where "s0 = \<lparr>tconf = c1, visited = {}, currentPath = {}\<rparr>"
  define roots where "roots = sort (filter (is_root c) order1)"
  have par: "same_parents c c1"
    unfolding c1_def by (rule same_parents_fold) (rule same_parents_populate)
  have "graph_ok c1"
    unfolding c1_def by (rule graph_ok_populates [OF initial_graph [OF assms]])
  then have inv: "trav_inv s0 []"
    by (simp add: s0_def trav_inv_def)
  have dom: "dom c1 = set order1" "set roots = {n. is_root c n}"
    using same_parents_dom [OF par] assms by (auto simp: initial_def roots_def is_root_def split: option.splits)
  have "card (dom (tconf s0)) < Suc (length order1)"
    unfolding s0_def by (simp add: dom card_length le_imp_less_Suc)
  moreover have "set roots \<subseteq> dom (tconf s0)"
    by (auto simp: s0_def dom(1) roots_def)
  ultimately obtain s fin where s: "traverse_roots (Suc (length order1)) roots s0 = Some s" "extends s0 [] s fin"
    "set roots \<subseteq> visited s" "found (set roots) s0 s fin"
    using roots_ok [OF inv, of roots "Suc (length order1)"] by (auto simp: s0_def)
  show ?thesis
  proof (rule that [of s fin])
    show "ParseRouterTree order1 order2 c = Some (fold (check_used (visited s)) order2 (tconf s))"
      using s(1) by (simp add: ParseRouterTree_def Let_def c1_def s0_def roots_def)
    show "traverse_roots (Suc (length order1)) (sort (filter (is_root c) order1)) \<lparr>tconf = fold populate order1 c, visited = {}, currentPath = {}\<rparr> = Some s"
      using s(1) by (simp add: c1_def s0_def roots_def)
    show "trav_inv s fin" "currentPath s = {}" "same_parents c (tconf s)"
      using s(2) same_parents_trans [OF par] by (simp_all add: extends_def s0_def)
    show "\<forall>n. is_root c n \<longrightarrow> n \<in> visited s" "\<forall>v \<in> visited s. \<exists>n. is_root c n \<and> (n, v) \<in> (refs s fin)\<^sup>*"
      using s(3,4) dom(2) by (auto simp: found_def s0_def)
  qed
qed

text \<open>The visited routers are those that are used.\<close>

lemma visited_reaches:
  assumes "trav_inv s fin" "currentPath s = {}" "same_parents c (tconf s)" "\<forall>n. is_root c n \<longrightarrow> n \<in> visited s"
    "\<forall>v \<in> visited s. \<exists>n. is_root c n \<and> (n, v) \<in> (refs s fin)\<^sup>*"
  shows "reaches (tconf s) n \<longleftrightarrow> n \<in> visited s"
proof
  assume "reaches (tconf s) n"
  then show "n \<in> visited s"
  proof induction
    case (child p n)
    have "set fin = visited s" using assms(1,2) by (simp add: trav_inv_def)
    moreover have "ordered (child_refs (tconf s)) fin" using assms(1) by (simp add: trav_inv_def)
    ultimately show ?case using ordered_rank [of "child_refs (tconf s)" fin] child by blast
  qed (use assms(3,4) same_parents_root in auto)
next
  assume "n \<in> visited s"
  then obtain r where r: "is_root c r" "(r, n) \<in> (refs s fin)\<^sup>*" using assms(5) by blast
  from r(2) show "reaches (tconf s) n"
    by induction (use r(1) assms(3) same_parents_root in \<open>auto intro: reaches.intros simp: refs_def\<close>)
qed

lemma reaches_same:
  assumes "\<forall>n. is_root c n = is_root c' n" "child_refs c = child_refs c'" "reaches c n"
  shows "reaches c' n"
  using assms(3) by induction (use assms(1,2) in \<open>auto intro: reaches.intros\<close>)

lemma reaches_check: "reaches (fold (check_used vis) ns c) n = reaches c n"
proof -
  have "same_parents c (fold (check_used vis) ns c)"
    by (rule same_parents_fold) (rule same_parents_check(2))
  then show ?thesis
    using reaches_same [of c "fold (check_used vis) ns c" n] reaches_same [of "fold (check_used vis) ns c" c n]
    by (auto simp: same_parents_root children_fold_check)
qed

lemma ParseRouterTree_ranked:
  assumes "initial c order1" "ParseRouterTree order1 order2 c = Some c'"
  shows "\<exists>rank :: string \<Rightarrow> nat. \<forall>p n. reaches c' p \<longrightarrow> n \<in> set (child_refs c' p) \<longrightarrow> rank n < rank p"
proof -
  obtain s fin where s: "ParseRouterTree order1 order2 c = Some (fold (check_used (visited s)) order2 (tconf s))"
    "trav_inv s fin" "currentPath s = {}" "same_parents c (tconf s)" "\<forall>n. is_root c n \<longrightarrow> n \<in> visited s"
    "\<forall>v \<in> visited s. \<exists>n. is_root c n \<and> (n, v) \<in> (refs s fin)\<^sup>*"
    by (rule ParseRouterTree_traversal [OF assms(1)])
  have fin: "set fin = visited s" "ordered (child_refs (tconf s)) fin"
    using s(2,3) by (simp_all add: trav_inv_def)
  obtain rank :: "string \<Rightarrow> nat" where "\<forall>u \<in> set fin. \<forall>v \<in> set (child_refs (tconf s) u). v \<in> set fin \<and> rank v < rank u"
    using ordered_rank [OF fin(2)] by blast
  then have "\<forall>p n. reaches (tconf s) p \<longrightarrow> n \<in> set (child_refs (tconf s) p) \<longrightarrow> rank n < rank p"
    using visited_reaches [OF s(2-6)] fin(1) by simp
  then show ?thesis
    using s(1) assms(2) by (auto simp: reaches_check children_fold_check)
qed

lemma ParseRouterTree_dom:
  assumes "initial c order1" "ParseRouterTree order1 order2 c = Some c'"
  shows "dom c' = dom c"
proof -
  obtain s :: traversal where s: "ParseRouterTree order1 order2 c = Some (fold (check_used (visited s)) order2 (tconf s))" "same_parents c (tconf s)"
    by (rule ParseRouterTree_traversal [OF assms(1), of order2]) blast
  have "same_parents c (fold (check_used (visited s)) order2 (tconf s))"
    by (rule same_parents_trans [OF s(2) same_parents_fold]) (rule same_parents_check(2))
  then show ?thesis using s(1) assms(2) same_parents_dom by force
qed

text \<open>
  C10. The tree of routers has no cycle. For any configuration of routers and any order of the loops over
  their map, \<open>ParseRouterTree\<close> returns, and leaves references by which every router that is used is ranked above
  its child_refs, so that building the nested routers of any root ends.
\<close>

theorem router_tree_acyclic:
  assumes "initial c order1"
  shows "\<exists>c' (rank :: string \<Rightarrow> nat). ParseRouterTree order1 order2 c = Some c' \<and>
    (\<forall>p n. reaches c' p \<longrightarrow> n \<in> set (child_refs c' p) \<longrightarrow> rank n < rank p)"
proof -
  obtain c' where c': "ParseRouterTree order1 order2 c = Some c'"
    by (rule ParseRouterTree_traversal [OF assms])
  then show ?thesis using ParseRouterTree_ranked [OF assms c'] by auto
qed

definition demo_router :: RouterInfo where
  "demo_router = \<lparr>EntryPoints = [], Middlewares = [], Service = [], Rule = [], ParentRefs = None, RuleSyntax = [], Priority = 0, TLS = None,
     Observability = None, DefaultRule = False, DeniedEncodedPathCharacters = None, Errs = [], Status = StatusEnabled, Using = [], ChildRefs = []\<rparr>"

definition demo_routers :: routers where
  "demo_routers = [''a'' \<mapsto> demo_router, ''b'' \<mapsto> demo_router\<lparr>ParentRefs := Some [''a'', ''c'']\<rparr>,
     ''c'' \<mapsto> demo_router\<lparr>ParentRefs := Some [''b''], Service := ''s''\<rparr>]"

lemma demo_initial: "initial demo_routers [''c'', ''a'', ''b'']"
  by (auto simp: initial_def demo_routers_def demo_router_def ran_def)

theorem router_tree_acyclic_witness:
  "\<exists>c' (rank :: string \<Rightarrow> nat). ParseRouterTree [''c'', ''a'', ''b''] [''a'', ''b'', ''c''] demo_routers = Some c' \<and>
    (\<forall>p n. reaches c' p \<longrightarrow> n \<in> set (child_refs c' p) \<longrightarrow> rank n < rank p)"
  by (rule router_tree_acyclic [OF demo_initial])

subsection \<open>Routers that cannot be used\<close>

definition reports :: "routers \<Rightarrow> string \<Rightarrow> string \<Rightarrow> bool" where
  "reports c n e \<longleftrightarrow> (\<exists>r. c n = Some r \<and> e \<in> set (Errs r))"

lemma reports_check_mono: "reports c n e \<Longrightarrow> reports (check_used vis m c) n e"
  by (auto simp: reports_def check_used_def modify_def split: option.split simp: Errs_AddError)

lemma reports_checks_mono: "reports c n e \<Longrightarrow> reports (fold (check_used vis) ns c) n e"
  by (induction ns arbitrary: c) (simp_all add: reports_check_mono)

definition unusable :: "string set \<Rightarrow> routers \<Rightarrow> string \<Rightarrow> string option" where
  "unusable vis c n =
     (case c n of None \<Rightarrow> None
      | Some r \<Rightarrow>
          if n \<notin> vis then Some ''router is not reachable''
          else if Service r = [] \<and> ChildRefs r = [] then Some ''router has no service and no child routers''
          else if Service r \<noteq> [] \<and> ChildRefs r \<noteq> []
            then Some ''router has both a service and is referenced as a parent by other routers''
          else None)"

lemma check_used_kept:
  "\<exists>f. check_used vis m c n = map_option f (c n) \<and> (\<forall>r. Service (f r) = Service r \<and> ChildRefs (f r) = ChildRefs r)"
proof (cases "n = m")
  case True
  show ?thesis
    unfolding check_used_def modify_def True by (cases "c m") (fastforce, (rule exI, rule conjI, simp, simp))
next
  case False
  then show ?thesis
    by (intro exI [of _ id]) (simp add: check_used_def modify_def option.map_id split: option.split)
qed

lemma unusable_check: "unusable vis (check_used vis m c) n = unusable vis c n"
proof -
  obtain f where "check_used vis m c n = map_option f (c n)" "\<forall>r. Service (f r) = Service r \<and> ChildRefs (f r) = ChildRefs r"
    using check_used_kept by blast
  then show ?thesis by (simp add: unusable_def split: option.split)
qed

lemma unusable_checks: "unusable vis (fold (check_used vis) ns c) n = unusable vis c n"
  by (induction ns arbitrary: c) (simp_all add: unusable_check)

lemma unusable_reported:
  "n \<in> set ns \<Longrightarrow> unusable vis c n = Some e \<Longrightarrow> reports (fold (check_used vis) ns c) n e"
proof (induction ns arbitrary: c)
  case (Cons m ns)
  show ?case
  proof (cases "m = n")
    case True
    have "reports (check_used vis n c) n e"
      using Cons.prems(2)
      by (auto simp: reports_def unusable_def check_used_def modify_def Errs_AddError split: option.splits if_splits)
    then show ?thesis using True by (simp add: reports_checks_mono)
  next
    case False
    then show ?thesis using Cons by (simp add: unusable_check)
  qed
qed simp

text \<open>
  C12. Routers that lead nowhere carry an error. After \<open>ParseRouterTree\<close> a router that is not used, one that is used but has
  neither a service nor child_refs, and one that has both, carries the corresponding error, which
  keeps it from being built.
\<close>

theorem router_tree_errors:
  assumes "initial c order1" "set order2 = dom c"
  shows "\<exists>c'. ParseRouterTree order1 order2 c = Some c' \<and> dom c' = dom c \<and>
    (\<forall>n r. c' n = Some r \<longrightarrow>
       (\<not> reaches c' n \<longrightarrow> ''router is not reachable'' \<in> set (Errs r)) \<and>
       (reaches c' n \<and> Service r = [] \<and> ChildRefs r = [] \<longrightarrow> ''router has no service and no child routers'' \<in> set (Errs r)) \<and>
       (reaches c' n \<and> Service r \<noteq> [] \<and> ChildRefs r \<noteq> [] \<longrightarrow>
          ''router has both a service and is referenced as a parent by other routers'' \<in> set (Errs r)))"
proof -
  obtain s fin where s: "ParseRouterTree order1 order2 c = Some (fold (check_used (visited s)) order2 (tconf s))"
    "trav_inv s fin" "currentPath s = {}" "same_parents c (tconf s)" "\<forall>n. is_root c n \<longrightarrow> n \<in> visited s"
    "\<forall>v \<in> visited s. \<exists>n. is_root c n \<and> (n, v) \<in> (refs s fin)\<^sup>*"
    by (rule ParseRouterTree_traversal [OF assms(1)])
  define c' where "c' = fold (check_used (visited s)) order2 (tconf s)"
  have par: "same_parents c c'"
    unfolding c'_def by (rule same_parents_trans [OF s(4) same_parents_fold]) (rule same_parents_check(2))
  have un: "unusable (visited s) c' n = unusable (visited s) (tconf s) n" for n
    unfolding c'_def by (rule unusable_checks)
  have rep: "e \<in> set (Errs r)" if "c' n = Some r" "unusable (visited s) c' n = Some e" for n r e
  proof -
    have "n \<in> set order2" using that(1) assms(2) same_parents_dom [OF par] by auto
    from unusable_reported [OF this, of "visited s" "tconf s" e] show ?thesis
      using that un by (simp add: reports_def c'_def [symmetric])
  qed
  have "reaches c' n \<longleftrightarrow> n \<in> visited s" for n
    unfolding c'_def reaches_check by (rule visited_reaches [OF s(2-6)])
  then show ?thesis
    using s(1) same_parents_dom [OF par] rep
    by (intro exI [of _ c'] conjI) (simp_all add: c'_def [symmetric] unusable_def)
qed

theorem router_tree_errors_witness:
  "\<exists>c'. ParseRouterTree [''c'', ''a'', ''b''] [''b'', ''a'', ''c''] demo_routers = Some c' \<and> dom c' = {''a'', ''b'', ''c''}"
proof -
  have dom: "set [''b'', ''a'', ''c''] = dom demo_routers"
    by (auto simp: demo_routers_def)
  obtain c' where "ParseRouterTree [''c'', ''a'', ''b''] [''b'', ''a'', ''c''] demo_routers = Some c'" "dom c' = dom demo_routers"
    using router_tree_errors [OF demo_initial dom] by blast
  moreover have "dom demo_routers = {''a'', ''b'', ''c''}"
    unfolding dom [symmetric] by auto
  ultimately show ?thesis by simp
qed

subsection \<open>Routers that stand alone\<close>

lemma traverse_alone:
  "traverse fuel m path s = Some s' \<Longrightarrow> child_refs (tconf s) n = [] \<Longrightarrow> path = [] \<or> last path \<noteq> n \<Longrightarrow> tconf s' n = tconf s n"
  "traverse_list fuel cs path s = Some s' \<Longrightarrow> child_refs (tconf s) n = [] \<Longrightarrow> cs = [] \<or> path = [] \<or> last path \<noteq> n \<Longrightarrow> tconf s' n = tconf s n"
proof (induction fuel m path s and fuel cs path s arbitrary: s' and s' rule: traverse_traverse_list.induct)
  case (2 fuel m path s)
  consider "m \<in> currentPath s" | "m \<notin> currentPath s" "m \<in> visited s \<or> tconf s m = None"
    | r where "m \<notin> currentPath s" "m \<notin> visited s" "tconf s m = Some r" by fastforce
  then show ?case
  proof cases
    case 1
    then show ?thesis using 2(2,4) by (auto simp: handleCycle_def Let_def modify_apply)
  next
    case 2
    then show ?thesis using "2.prems"(1) by (auto simp: Let_def split: if_splits)
  next
    case (3 r)
    have "sort (ChildRefs r) = [] \<or> m \<noteq> n"
      using 3(3) "2.prems"(2) by (auto simp: child_refs_def)
    then show ?thesis
      using 2(1) [OF 3(1,2) refl 3(3)] "2.prems"(1,2) 3 by (auto simp: Let_def)
  qed
next
  case (4 fuel m cs path s)
  then obtain s1 where s1: "traverse fuel m path s = Some s1" "traverse_list fuel cs path s1 = Some s'"
    by (auto split: option.splits)
  then have "tconf s1 n = tconf s n"
    using 4 by auto
  then show ?case
    using "4.IH"(2) [OF s1(1) s1(2)] "4.prems"(2,3) by (auto simp: child_refs_def)
qed simp_all

lemma traverse_roots_alone:
  "traverse_roots fuel rs s = Some s' \<Longrightarrow> child_refs (tconf s) n = [] \<Longrightarrow> tconf s' n = tconf s n"
proof (induction rs arbitrary: s)
  case (Cons r rs)
  show ?case
  proof (cases "r \<in> visited s")
    case False
    then obtain s1 where s1: "traverse fuel r [] s = Some s1" "traverse_roots fuel rs s1 = Some s'"
      using Cons.prems(1) by (auto split: option.splits)
    have "tconf s1 n = tconf s n"
      using traverse_alone(1) [OF s1(1) Cons.prems(2)] by simp
    then show ?thesis
      using Cons.IH [OF s1(2)] Cons.prems(2) by (simp add: child_refs_def)
  qed (use Cons in simp)
qed simp

definition unreferenced :: "string \<Rightarrow> routers \<Rightarrow> bool" where
  "unreferenced n c \<longleftrightarrow> (\<forall>m r. c m = Some r \<longrightarrow> n \<notin> set (elems (ParentRefs r)))"

lemma unreferenced_same: "same_parents c c' \<Longrightarrow> unreferenced n c \<Longrightarrow> unreferenced n c'"
  unfolding unreferenced_def same_parents_def by (metis (no_types, lifting) map_option_eq_Some option.inject)

lemma populate_alone:
  assumes "is_root c n" "unreferenced n c"
  shows "populate m c n = c n"
proof (cases "c m")
  case (Some r)
  show ?thesis
  proof (cases "m = n")
    case True
    then show ?thesis using assms(1) Some by (simp add: populate_def is_root_def)
  next
    case False
    have "fold (add_child m) ps c' n = c' n" if "n \<notin> set ps" for ps c'
      using that
    proof (induction ps arbitrary: c')
      case (Cons p ps)
      then show ?case
        using False Cons.IH [of "add_child m p c'"] by (auto simp: add_child_def modify_apply split: option.split)
    qed simp
    moreover have "n \<notin> set (elems (ParentRefs r))" using assms(2) Some by (simp add: unreferenced_def)
    ultimately show ?thesis
      using False Some by (simp add: populate_def check_nonroot_def modify_apply)
  qed
qed (simp add: populate_def)

lemma populates_alone:
  "is_root c n \<Longrightarrow> unreferenced n c \<Longrightarrow> fold populate ms c n = c n"
proof (induction ms arbitrary: c)
  case (Cons m ms)
  then show ?case
    using Cons.IH [of "populate m c"] populate_alone [of c n m] unreferenced_same [OF same_parents_populate]
      same_parents_root [OF same_parents_populate] by auto
qed simp

lemma check_used_alone:
  assumes "c n = Some r" "n \<in> vis" "Service r \<noteq> []" "ChildRefs r = []"
  shows "fold (check_used vis) ms c n = Some r"
  using assms(1)
proof (induction ms arbitrary: c)
  case (Cons m ms)
  have "check_used vis m c n = Some r"
    using assms(2-4) Cons.prems by (cases "m = n") (simp_all add: check_used_def modify_apply)
  then show ?case by (simp add: Cons.IH)
qed simp

text \<open>A root router with a service that no router has as parent comes out as it was.\<close>

lemma standalone_untouched:
  assumes "initial c order1" "c n = Some r" "elems (ParentRefs r) = []" "Service r \<noteq> []" "unreferenced n c"
  shows "\<exists>c'. ParseRouterTree order1 order2 c = Some c' \<and> c' n = Some r"
proof -
  define s0 where "s0 = \<lparr>tconf = fold populate order1 c, visited = {}, currentPath = {}\<rparr>"
  have root: "is_root c n" using assms(2,3) by (simp add: is_root_def)
  have start: "tconf s0 n = Some r"
    using populates_alone [OF root assms(5)] assms(2) by (simp add: s0_def)
  have leaf: "ChildRefs r = []" using assms(1,2) by (auto simp: initial_def ran_def)
  obtain s fin where s: "ParseRouterTree order1 order2 c = Some (fold (check_used (visited s)) order2 (tconf s))"
    "\<forall>n. is_root c n \<longrightarrow> n \<in> visited s" "traverse_roots (Suc (length order1)) (sort (filter (is_root c) order1)) s0 = Some s"
    by (rule ParseRouterTree_traversal [OF assms(1), of order2]) (auto simp: s0_def)
  have "tconf s n = Some r"
    using traverse_roots_alone [OF s(3), of n] start leaf by (simp add: child_refs_def)
  then show ?thesis
    using s(1,2) root check_used_alone [of "tconf s" n r "visited s" order2] assms(4) leaf by simp
qed

end
