(* ===== verification/DynamicConfig.thy ===== *)
theory DynamicConfig
  imports RouterConfig "HOL-Library.AList"
begin

section \<open>Dynamic configurations\<close>

text \<open>
  The configuration that a provider delivers (\<open>pkg/config/dynamic\<close>). A Go map is an association list with distinct keys; its order
  stands for the order in which a loop over the map sees the entries, which Go leaves open, so that what
  is shown for all lists holds for all orders. Services, middlewares, transports, UDP routers, certificates, TLS options and stores are
  only passed on by the modelled code: their contents are of one type that is a parameter.
\<close>

type_synonym ('k, 'v) gomap = "('k \<times> 'v) list"

abbreviation gomap_ok :: "('k, 'v) gomap \<Rightarrow> bool" where
  "gomap_ok m \<equiv> distinct (map fst m)"

abbreviation set_key :: "'k \<Rightarrow> 'v \<Rightarrow> ('k, 'v) gomap \<Rightarrow> ('k, 'v) gomap" where
  "set_key \<equiv> AList.update"

abbreviation delete_key :: "'k \<Rightarrow> ('k, 'v) gomap \<Rightarrow> ('k, 'v) gomap" where
  "delete_key \<equiv> AList.delete"

record Model =
  modelMiddlewares :: "string list"
  modelTLS :: "RouterTLSConfig option"
  modelObservability :: RouterObservabilityConfig
  modelDenied :: "RouterDeniedEncodedPathCharacters option"
  DefaultRuleSyntax :: string

record 'r HTTPConfiguration =
  Routers :: "(string, Router) gomap"
  Services :: "(string, 'r) gomap"
  MiddlewareMap :: "(string, 'r) gomap"
  Models :: "(string, Model) gomap"
  ServersTransports :: "(string, 'r) gomap"

record RouterTCPTLSConfig =
  Passthrough :: bool
  tcpOptions :: string
  tcpCertResolver :: string
  tcpDomains :: "Domain list"

record TCPRouter =
  tcpEntryPoints :: "string list"
  tcpMiddlewares :: "string list"
  tcpService :: string
  tcpRule :: string
  tcpRuleSyntax :: string
  tcpPriority :: int
  tcpTLS :: "RouterTCPTLSConfig option"

text \<open>A TCP model holds only the default syntax of rules.\<close>

record 'r TCPConfiguration =
  TCPRouters :: "(string, TCPRouter) gomap"
  TCPServices :: "(string, 'r) gomap"
  TCPMiddlewares :: "(string, 'r) gomap"
  TCPModels :: "(string, string) gomap"
  TCPServersTransports :: "(string, 'r) gomap"

record 'r UDPConfiguration =
  UDPRouters :: "(string, 'r) gomap"
  UDPServices :: "(string, 'r) gomap"

record 'r CertAndStores =
  Certificate :: 'r
  Stores :: "string list"

record 'r TLSConfiguration =
  Certificates :: "'r CertAndStores list"
  TLSOptions :: "(string, 'r) gomap"
  TLSStores :: "(string, 'r) gomap"

record 'r Configuration =
  HTTP :: "'r HTTPConfiguration option"
  TCP :: "'r TCPConfiguration option"
  UDP :: "'r UDPConfiguration option"
  TLSConf :: "'r TLSConfiguration option"

type_synonym 'r Configurations = "(string, 'r Configuration) gomap"

subsection \<open>Building maps\<close>

text \<open>A loop that sets entries of a map one after the other.\<close>

definition set_all :: "('k, 'v) gomap \<Rightarrow> ('k, 'v) gomap \<Rightarrow> ('k, 'v) gomap" where
  "set_all entries m = fold (\<lambda>(k, v). set_key k v) entries m"

lemma set_all_simps [simp]:
  "set_all [] m = m" "set_all ((k, v) # es) m = set_all es (set_key k v m)" "set_all (es @ es') m = set_all es' (set_all es m)"
  by (simp_all add: set_all_def)

lemma gomap_set_all: "gomap_ok m \<Longrightarrow> gomap_ok (set_all es m)"
  by (induction es arbitrary: m) (auto simp: distinct_update)

lemma map_of_set_all: "map_of (set_all es m) = map_of m ++ map_of (rev es)"
proof (induction es arbitrary: m)
  case (Cons e es)
  then show ?case by (cases e) (auto simp: update_conv' map_add_def fun_eq_iff split: option.split)
qed simp

lemma dom_set_all: "fst ` set (set_all es m) = fst ` set es \<union> fst ` set m"
  using arg_cong [OF map_of_set_all [of es m], of dom] by (simp add: dom_map_of_conv_image_fst)

lemma map_of_set_all_distinct:
  assumes "gomap_ok es"
  shows "map_of (set_all es m) = map_of m ++ map_of es"
proof -
  have "map_of (rev es) = map_of es"
    using assms by (intro map_of_inject_set [THEN iffD2]) (simp_all add: rev_map [symmetric])
  then show ?thesis by (simp add: map_of_set_all)
qed

lemma set_key_entry: "(k', v') \<in> set (set_key k v m) \<Longrightarrow> (k', v') = (k, v) \<or> (k', v') \<in> set m"
  by (induction m) (auto split: if_splits)

end
