(* ===== verification/Aggregator.thy ===== *)
theory Aggregator
  imports DynamicConfig
begin

section \<open>Aggregation of configurations (\<open>pkg/server/aggregator.go\<close>)\<close>

text \<open>
  The configurations of all providers become one: \<open>mergeConfiguration\<close> qualifies every name by its provider, completes routers and
  settles the default TLS options; \<open>applyModel\<close> gives the root routers what is configured for their entry points, splitting a router
  that listens on several of them; \<open>applyDefaultObservabilityModel\<close> completes the settings for logs, metrics and traces. The
  caller hands over copies, so changing routers in place is modelled by returning them. The default TLS
  options are an argument, their contents being opaque. Where the code takes the syntax of just any model, the model takes that of the
  first one in the order of the map for all routers (the models of the entry points all carry the same).
\<close>

definition ACMETLS1Protocol :: string where
  "ACMETLS1Protocol = ''acme-tls/1''"

definition DefaultTLSConfigName :: string where
  "DefaultTLSConfigName = ''default''"

definition DefaultTLSStoreName :: string where
  "DefaultTLSStoreName = ''default''"

subsection \<open>Merging\<close>

definition merge_router :: "string list \<Rightarrow> string \<Rightarrow> Router \<Rightarrow> Router" where
  "merge_router defaultEntryPoints pvd router =
     (let router1 = (if length (EntryPoints router) = 0 \<and> ParentRefs router = None
                     then router\<lparr>EntryPoints := defaultEntryPoints\<rparr> else router)
      in router1\<lparr>ParentRefs := appended (map (\<lambda>parentRef.
           if length (Split parentRef (CHR ''@'')) = 1 then MakeQualifiedName pvd parentRef else parentRef)
           (elems (ParentRefs router1)))\<rparr>)"

text \<open>The entries of a map under qualified names.\<close>

definition qualified_map :: "string \<Rightarrow> (string, 'v) gomap \<Rightarrow> (string, 'v) gomap" where
  "qualified_map pvd m = map (\<lambda>(n, v). (MakeQualifiedName pvd n, v)) m"

definition merge_http :: "string list \<Rightarrow> string \<Rightarrow> 'r HTTPConfiguration \<Rightarrow> 'r HTTPConfiguration \<Rightarrow> 'r HTTPConfiguration" where
  "merge_http defaultEntryPoints pvd h c =
     c\<lparr>Routers := set_all (map (\<lambda>(n, r). (MakeQualifiedName pvd n, merge_router defaultEntryPoints pvd r)) (Routers h)) (Routers c),
       MiddlewareMap := set_all (qualified_map pvd (MiddlewareMap h)) (MiddlewareMap c),
       Services := set_all (qualified_map pvd (Services h)) (Services c),
       Models := set_all (qualified_map pvd (Models h)) (Models c),
       ServersTransports := set_all (qualified_map pvd (ServersTransports h)) (ServersTransports c)\<rparr>"

definition merge_tcp_router :: "string list \<Rightarrow> TCPRouter \<Rightarrow> TCPRouter" where
  "merge_tcp_router defaultEntryPoints router =
     (if length (tcpEntryPoints router) = 0 then router\<lparr>tcpEntryPoints := defaultEntryPoints\<rparr> else router)"

definition merge_tcp :: "string list \<Rightarrow> string \<Rightarrow> 'r TCPConfiguration \<Rightarrow> 'r TCPConfiguration \<Rightarrow> 'r TCPConfiguration" where
  "merge_tcp defaultEntryPoints pvd t c =
     c\<lparr>TCPRouters := set_all (map (\<lambda>(n, r). (MakeQualifiedName pvd n, merge_tcp_router defaultEntryPoints r)) (TCPRouters t)) (TCPRouters c),
       TCPMiddlewares := set_all (qualified_map pvd (TCPMiddlewares t)) (TCPMiddlewares c),
       TCPServices := set_all (qualified_map pvd (TCPServices t)) (TCPServices c),
       TCPModels := set_all (qualified_map pvd (TCPModels t)) (TCPModels c),
       TCPServersTransports := set_all (qualified_map pvd (TCPServersTransports t)) (TCPServersTransports c)\<rparr>"

definition merge_udp :: "string \<Rightarrow> 'r UDPConfiguration \<Rightarrow> 'r UDPConfiguration \<Rightarrow> 'r UDPConfiguration" where
  "merge_udp pvd u c =
     c\<lparr>UDPRouters := set_all (qualified_map pvd (UDPRouters u)) (UDPRouters c),
       UDPServices := set_all (qualified_map pvd (UDPServices u)) (UDPServices c)\<rparr>"

definition tls_key :: "string \<Rightarrow> string \<Rightarrow> string \<Rightarrow> string" where
  "tls_key default_name pvd key = (if key \<noteq> default_name then MakeQualifiedName pvd key else key)"

definition merge_tls :: "string \<Rightarrow> 'r TLSConfiguration \<Rightarrow> 'r TLSConfiguration \<Rightarrow> 'r TLSConfiguration" where
  "merge_tls pvd t c =
     c\<lparr>Certificates := Certificates c @
         filter (\<lambda>cert. \<not> (ACMETLS1Protocol \<in> set (Stores cert) \<and> pvd \<noteq> ''tlsalpn.acme'')) (Certificates t),
       TLSStores := set_all (map (\<lambda>(key, store). (tls_key DefaultTLSStoreName pvd key, store)) (TLSStores t)) (TLSStores c),
       TLSOptions := set_all (map (\<lambda>(key, opts). (tls_key ''default'' pvd key, opts)) (TLSOptions t)) (TLSOptions c)\<rparr>"

text \<open>What the loop over the providers has built, and the providers that set a default store or default options.\<close>

record 'r merging =
  mHTTP :: "'r HTTPConfiguration"
  mTCP :: "'r TCPConfiguration"
  mUDP :: "'r UDPConfiguration"
  mTLS :: "'r TLSConfiguration"
  defaultTLSOptionProviders :: "string list"
  defaultTLSStoreProviders :: "string list"

definition merge_start :: "'r merging" where
  "merge_start =
     \<lparr>mHTTP = \<lparr>Routers = [], Services = [], MiddlewareMap = [], Models = [], ServersTransports = []\<rparr>,
      mTCP = \<lparr>TCPRouters = [], TCPServices = [], TCPMiddlewares = [], TCPModels = [], TCPServersTransports = []\<rparr>,
      mUDP = \<lparr>UDPRouters = [], UDPServices = []\<rparr>,
      mTLS = \<lparr>Certificates = [], TLSOptions = [], TLSStores = []\<rparr>,
      defaultTLSOptionProviders = [], defaultTLSStoreProviders = []\<rparr>"

definition with_part :: "'a option \<Rightarrow> ('a \<Rightarrow> 's \<Rightarrow> 's) \<Rightarrow> 's \<Rightarrow> 's" where
  "with_part part f s = (case part of None \<Rightarrow> s | Some p \<Rightarrow> f p s)"

definition merge_one :: "string list \<Rightarrow> string \<times> 'r Configuration \<Rightarrow> 'r merging \<Rightarrow> 'r merging" where
  "merge_one defaultEntryPoints pc s =
     (let (pvd, configuration) = pc;
          s1 = with_part (HTTP configuration) (\<lambda>h s. s\<lparr>mHTTP := merge_http defaultEntryPoints pvd h (mHTTP s)\<rparr>) s;
          s2 = with_part (TCP configuration) (\<lambda>t s. s\<lparr>mTCP := merge_tcp defaultEntryPoints pvd t (mTCP s)\<rparr>) s1;
          s3 = with_part (UDP configuration) (\<lambda>u s. s\<lparr>mUDP := merge_udp pvd u (mUDP s)\<rparr>) s2
      in with_part (TLSConf configuration) (\<lambda>t s. s\<lparr>mTLS := merge_tls pvd t (mTLS s),
           defaultTLSStoreProviders := defaultTLSStoreProviders s @ map (\<lambda>_. pvd) (filter (\<lambda>(k, _). k = DefaultTLSStoreName) (TLSStores t)),
           defaultTLSOptionProviders := defaultTLSOptionProviders s @ map (\<lambda>_. pvd) (filter (\<lambda>(k, _). k = ''default'') (TLSOptions t))\<rparr>) s3)"

definition settle_tls :: "'r \<Rightarrow> 'r merging \<Rightarrow> 'r TLSConfiguration" where
  "settle_tls DefaultTLSOptions s =
     (let t = mTLS s;
          t1 = (if length (defaultTLSStoreProviders s) > 1
                then t\<lparr>TLSStores := delete_key DefaultTLSStoreName (TLSStores t)\<rparr> else t)
      in if length (defaultTLSOptionProviders s) = 0
         then t1\<lparr>TLSOptions := set_key DefaultTLSConfigName DefaultTLSOptions (TLSOptions t1)\<rparr>
         else if length (defaultTLSOptionProviders s) > 1
         then t1\<lparr>TLSOptions := delete_key DefaultTLSConfigName (TLSOptions t1)\<rparr>
         else t1)"

definition mergeConfiguration :: "'r \<Rightarrow> 'r Configurations \<Rightarrow> string list \<Rightarrow> 'r Configuration" where
  "mergeConfiguration DefaultTLSOptions configurations defaultEntryPoints =
     (let s = fold (merge_one defaultEntryPoints) configurations merge_start
      in \<lparr>HTTP = Some (mHTTP s), TCP = Some (mTCP s), UDP = Some (mUDP s), TLSConf = Some (settle_tls DefaultTLSOptions s)\<rparr>)"

subsection \<open>Models\<close>

definition or_else :: "'a option \<Rightarrow> 'a option \<Rightarrow> 'a option" where
  "or_else x y = (if x = None then y else x)"

text \<open>The copy of a router for an entry point with a model.\<close>

definition model_copy :: "Model \<Rightarrow> string \<Rightarrow> Router \<Rightarrow> Router" where
  "model_copy m epName router =
     (let obs = (case Observability router of
                   None \<Rightarrow> \<lparr>AccessLogs = None, Metrics = None, Tracing = None, TraceVerbosity = []\<rparr> | Some o' \<Rightarrow> o');
          mo = modelObservability m
      in router\<lparr>EntryPoints := [epName],
           TLS := or_else (TLS router) (modelTLS m),
           Middlewares := modelMiddlewares m @ Middlewares router,
           DeniedEncodedPathCharacters := (if modelDenied m \<noteq> None then modelDenied m else DeniedEncodedPathCharacters router),
           Observability := Some (obs
             \<lparr>AccessLogs := or_else (AccessLogs obs) (AccessLogs mo),
              Metrics := or_else (Metrics obs) (Metrics mo),
              Tracing := or_else (Tracing obs) (Tracing mo),
              TraceVerbosity := if TraceVerbosity obs = [] then TraceVerbosity mo else TraceVerbosity obs\<rparr>)\<rparr>)"

text \<open>
  The loop over the entry points of a router: the router without those that have a model so far, the new map of routers and
  the names of the copies, by the name of the router they were split from.
\<close>

type_synonym splitting = "Router \<times> (string, Router) gomap \<times> (string \<Rightarrow> string list)"

definition model_of :: "(string, Model) gomap \<Rightarrow> string \<Rightarrow> Model option" where
  "model_of ms epName = map_of ms (epName @ ''@internal'')"

definition apply_entry_point :: "(string, Model) gomap \<Rightarrow> string \<Rightarrow> nat \<Rightarrow> string \<Rightarrow> splitting \<Rightarrow> splitting" where
  "apply_entry_point ms nm n epName s =
     (let (router, rts, modelRouterNames) = s in
      case model_of ms epName of
        Some m \<Rightarrow>
          let cp = model_copy m epName router;
              rtName = (if n > 1 then epName @ ''-'' @ nm else nm)
          in (router, set_key rtName cp rts,
              if n > 1 then modelRouterNames(nm := modelRouterNames nm @ [rtName]) else modelRouterNames)
      | None \<Rightarrow>
          let router' = router\<lparr>EntryPoints := EntryPoints router @ [epName]\<rparr>
          in (router', set_key nm router' rts, modelRouterNames))"

definition default_syntax :: "(string, Model) gomap \<Rightarrow> Router \<Rightarrow> Router" where
  "default_syntax ms router =
     (if \<not> DefaultRule router \<and> RuleSyntax router = []
      then (case find (\<lambda>(modelName, _). HasSuffix modelName ''@internal'') ms of
              Some (_, model) \<Rightarrow> router\<lparr>RuleSyntax := DefaultRuleSyntax model\<rparr> | None \<Rightarrow> router)
      else router)"

definition apply_router ::
  "(string, Model) gomap \<Rightarrow> string \<times> Router \<Rightarrow> (string, Router) gomap \<times> (string \<Rightarrow> string list)
   \<Rightarrow> (string, Router) gomap \<times> (string \<Rightarrow> string list)" where
  "apply_router ms nr s =
     (let (nm, rt) = nr; (rts, modelRouterNames) = s in
      if ParentRefs rt \<noteq> None then (set_key nm rt rts, modelRouterNames)
      else let router = default_syntax ms rt;
               eps = EntryPoints router
           in snd (fold (apply_entry_point ms nm (length eps)) eps (router\<lparr>EntryPoints := []\<rparr>, rts, modelRouterNames)))"

definition new_parents :: "(string, Router) gomap \<Rightarrow> (string \<Rightarrow> string list) \<Rightarrow> string list \<Rightarrow> string list" where
  "new_parents rts modelRouterNames refs =
     concat (map (\<lambda>ref. (if map_of rts ref \<noteq> None then [ref] else []) @ modelRouterNames ref) refs)"

definition relink :: "(string, Router) gomap \<Rightarrow> (string \<Rightarrow> string list) \<Rightarrow> Router \<Rightarrow> Router" where
  "relink rts modelRouterNames rt =
     (case ParentRefs rt of None \<Rightarrow> rt
      | Some refs \<Rightarrow> rt\<lparr>ParentRefs := appended (new_parents rts modelRouterNames refs)\<rparr>)"

definition apply_models :: "'r HTTPConfiguration \<Rightarrow> 'r HTTPConfiguration" where
  "apply_models h =
     (if length (Models h) > 0
      then let (rts, modelRouterNames) = fold (apply_router (Models h)) (Routers h) ([], \<lambda>_. [])
           in h\<lparr>Routers := map (\<lambda>(n, rt). (n, relink rts modelRouterNames rt)) rts\<rparr>
      else h)"

definition default_observability :: "Router \<Rightarrow> Router" where
  "default_observability router =
     (if ParentRefs router \<noteq> None then router
      else router\<lparr>Observability := Some (case Observability router of
             None \<Rightarrow> \<lparr>AccessLogs = Some True, Metrics = Some True, Tracing = Some True, TraceVerbosity = MinimalVerbosity\<rparr>
           | Some o' \<Rightarrow> o'\<lparr>AccessLogs := or_else (AccessLogs o') (Some True), Metrics := or_else (Metrics o') (Some True),
               Tracing := or_else (Tracing o') (Some True),
               TraceVerbosity := if TraceVerbosity o' = [] then MinimalVerbosity else TraceVerbosity o'\<rparr>)\<rparr>)"

definition applyDefaultObservabilityModel :: "'r HTTPConfiguration \<Rightarrow> 'r HTTPConfiguration" where
  "applyDefaultObservabilityModel h = h\<lparr>Routers := map (\<lambda>(n, r). (n, default_observability r)) (Routers h)\<rparr>"

definition apply_tcp_models :: "'r TCPConfiguration \<Rightarrow> 'r TCPConfiguration" where
  "apply_tcp_models t =
     (case TCPModels t of [] \<Rightarrow> t
      | (_, syntx) # _ \<Rightarrow>
          t\<lparr>TCPRouters := map (\<lambda>(n, r). (n, if tcpRuleSyntax r = [] then r\<lparr>tcpRuleSyntax := syntx\<rparr> else r)) (TCPRouters t)\<rparr>)"

definition applyModel :: "'r Configuration \<Rightarrow> 'r Configuration" where
  "applyModel cfg =
     cfg\<lparr>HTTP := map_option (applyDefaultObservabilityModel \<circ> apply_models) (HTTP cfg),
         TCP := map_option apply_tcp_models (TCP cfg)\<rparr>"

subsection \<open>What merging yields\<close>



definition entries_of :: "('c \<Rightarrow> (string, 'v) gomap) \<Rightarrow> (string \<Rightarrow> 'v \<Rightarrow> 'w) \<Rightarrow> (string, 'c) gomap \<Rightarrow> (string, 'w) gomap" where
  "entries_of part f cs = concat (map (\<lambda>(pvd, c). map (\<lambda>(n, v). (MakeQualifiedName pvd n, f pvd v)) (part c)) cs)"




definition parts :: "('c \<Rightarrow> 'p option) \<Rightarrow> ('p \<Rightarrow> ('k, 'v) gomap) \<Rightarrow> 'c \<Rightarrow> ('k, 'v) gomap" where
  "parts sel fld c = (case sel c of None \<Rightarrow> [] | Some p \<Rightarrow> fld p)"

lemma entries_of_Cons:
  "entries_of (parts sel fld) f ((pvd, c) # cs) =
     (case sel c of None \<Rightarrow> [] | Some p \<Rightarrow> map (\<lambda>(n, v). (MakeQualifiedName pvd n, f pvd v)) (fld p)) @ entries_of (parts sel fld) f cs"
  by (simp add: entries_of_def parts_def split: option.split)

lemma merge_one_parts:
  "mHTTP (merge_one deps (pvd, c) s) = (case HTTP c of None \<Rightarrow> mHTTP s | Some h \<Rightarrow> merge_http deps pvd h (mHTTP s))"
  "mTCP (merge_one deps (pvd, c) s) = (case TCP c of None \<Rightarrow> mTCP s | Some h \<Rightarrow> merge_tcp deps pvd h (mTCP s))"
  "mUDP (merge_one deps (pvd, c) s) = (case UDP c of None \<Rightarrow> mUDP s | Some h \<Rightarrow> merge_udp pvd h (mUDP s))"
  "mTLS (merge_one deps (pvd, c) s) = (case TLSConf c of None \<Rightarrow> mTLS s | Some h \<Rightarrow> merge_tls pvd h (mTLS s))"
  by (simp_all add: merge_one_def with_part_def Let_def split: option.split)


lemma merged_tcp:
  "TCPRouters (mTCP (fold (merge_one deps) cs s)) = set_all (entries_of (parts TCP TCPRouters) (\<lambda>_. merge_tcp_router deps) cs) (TCPRouters (mTCP s))"
  "TCPServices (mTCP (fold (merge_one deps) cs s)) = set_all (entries_of (parts TCP TCPServices) (\<lambda>_ v. v) cs) (TCPServices (mTCP s))"
  "TCPMiddlewares (mTCP (fold (merge_one deps) cs s)) = set_all (entries_of (parts TCP TCPMiddlewares) (\<lambda>_ v. v) cs) (TCPMiddlewares (mTCP s))"
proof (induction cs arbitrary: s)
  case (Cons pc cs)
  obtain pvd c where pc: "pc = (pvd, c)" by (cases pc)
  case 1 show ?case by (simp add: Cons pc merge_one_parts entries_of_Cons merge_tcp_def split: option.split)
  case 2 show ?case by (simp add: Cons pc merge_one_parts entries_of_Cons merge_tcp_def qualified_map_def split: option.split)
  case 3 show ?case by (simp add: Cons pc merge_one_parts entries_of_Cons merge_tcp_def qualified_map_def split: option.split)
qed (simp_all add: entries_of_def)

lemma merged_udp:
  "UDPRouters (mUDP (fold (merge_one deps) cs s)) = set_all (entries_of (parts UDP UDPRouters) (\<lambda>_ v. v) cs) (UDPRouters (mUDP s))"
  "UDPServices (mUDP (fold (merge_one deps) cs s)) = set_all (entries_of (parts UDP UDPServices) (\<lambda>_ v. v) cs) (UDPServices (mUDP s))"
proof (induction cs arbitrary: s)
  case (Cons pc cs)
  obtain pvd c where pc: "pc = (pvd, c)" by (cases pc)
  case 1 show ?case by (simp add: Cons pc merge_one_parts entries_of_Cons merge_udp_def qualified_map_def split: option.split)
  case 2 show ?case by (simp add: Cons pc merge_one_parts entries_of_Cons merge_udp_def qualified_map_def split: option.split)
qed (simp_all add: entries_of_def)


definition demo_plain_router :: Router where
  "demo_plain_router = \<lparr>EntryPoints = [], Middlewares = [], Service = ''s'', Rule = ''r'', ParentRefs = None, RuleSyntax = [], Priority = 0,
     TLS = None, Observability = None, DefaultRule = False, DeniedEncodedPathCharacters = None\<rparr>"

definition demo_http_config :: "(string, Router) gomap \<Rightarrow> (string, Model) gomap \<Rightarrow> nat Configuration" where
  "demo_http_config rs ms = \<lparr>HTTP = Some \<lparr>Routers = rs, Services = [], MiddlewareMap = [], Models = ms, ServersTransports = []\<rparr>,
     TCP = None, UDP = None, TLSConf = None\<rparr>"



subsection \<open>Default TLS options\<close>

text \<open>The default TLS options that the providers set, in the order of the loop.\<close>

definition default_options :: "'r Configurations \<Rightarrow> 'r list" where
  "default_options cs = List.map_filter (\<lambda>(pvd, c). map_of (parts TLSConf TLSOptions c) ''default'') cs"

lemma map_of_tls_keys:
  assumes "gomap_ok m" "CHR ''@'' \<notin> set dn"
  shows "map_of (set_all (map (\<lambda>(k, v). (tls_key dn pvd k, v)) m) b) dn = (case map_of m dn of Some v \<Rightarrow> Some v | None \<Rightarrow> map_of b dn)"
  using assms(1)
proof (induction m arbitrary: b)
  case (Cons e m)
  obtain k v where e: "e = (k, v)" by (cases e)
  have "tls_key dn pvd k = dn \<longleftrightarrow> k = dn"
    using assms(2) by (auto simp: tls_key_def MakeQualifiedName_def)
  moreover have "map_of m dn = None" if "k = dn"
    using Cons.prems e that by (simp add: map_of_eq_None_iff)
  ultimately show ?case
    using Cons e by (auto simp: update_conv' split: option.split)
qed simp

lemma length_default_filter: "gomap_ok m \<Longrightarrow> length (filter (\<lambda>(k, _). k = dn) m) = (case map_of m dn of None \<Rightarrow> 0 | Some _ \<Rightarrow> 1)"
proof (induction m)
  case (Cons e m)
  obtain k v where e: "e = (k, v)" by (cases e)
  have "map_of m dn = None" if "k = dn"
    using Cons.prems e that by (simp add: map_of_eq_None_iff)
  then show ?case using Cons e by auto
qed simp

lemma merged_options:
  assumes "\<forall>(pvd, c) \<in> set cs. gomap_ok (parts TLSConf TLSOptions c)"
  shows "length (defaultTLSOptionProviders (fold (merge_one deps) cs s)) = length (defaultTLSOptionProviders s) + length (default_options cs) \<and>
      map_of (TLSOptions (mTLS (fold (merge_one deps) cs s))) ''default'' =
      (if default_options cs = [] then map_of (TLSOptions (mTLS s)) ''default'' else Some (last (default_options cs)))"
  using assms
proof (induction cs arbitrary: s)
  case (Cons pc cs)
  obtain pvd c where pc: "pc = (pvd, c)" by (cases pc)
  have prems: "\<forall>(pvd, c) \<in> set cs. gomap_ok (parts TLSConf TLSOptions c)" "gomap_ok (parts TLSConf TLSOptions c)"
    using Cons.prems pc by auto
  have opts: "default_options ((pvd, c) # cs) = (case map_of (parts TLSConf TLSOptions c) ''default'' of None \<Rightarrow> [] | Some x \<Rightarrow> [x]) @ default_options cs"
    by (simp add: default_options_def map_filter_simps split: option.split)
  have "length (defaultTLSOptionProviders (merge_one deps (pvd, c) s)) = length (defaultTLSOptionProviders s) +
      (case map_of (parts TLSConf TLSOptions c) ''default'' of None \<Rightarrow> 0 | Some _ \<Rightarrow> 1)"
    using length_default_filter [OF prems(2), of "''default''"]
    by (auto simp: merge_one_def with_part_def Let_def parts_def split: option.splits)
  then have "length (defaultTLSOptionProviders (fold (merge_one deps) (pc # cs) s)) = length (defaultTLSOptionProviders s) + length (default_options (pc # cs))"
    using Cons.IH [OF prems(1)] by (simp add: opts pc split: option.split)
  moreover have "map_of (TLSOptions (mTLS (merge_one deps (pvd, c) s))) ''default'' =
      (case map_of (parts TLSConf TLSOptions c) ''default'' of None \<Rightarrow> map_of (TLSOptions (mTLS s)) ''default'' | Some x \<Rightarrow> Some x)"
    using map_of_tls_keys [OF prems(2), of "''default''" pvd "TLSOptions (mTLS s)"]
    by (auto simp: merge_one_parts merge_tls_def parts_def split: option.splits)
  then have "map_of (TLSOptions (mTLS (fold (merge_one deps) (pc # cs) s))) ''default'' =
      (if default_options (pc # cs) = [] then map_of (TLSOptions (mTLS s)) ''default'' else Some (last (default_options (pc # cs))))"
    using Cons.IH [OF prems(1)] by (simp add: opts pc split: option.split)
  ultimately show ?case by simp
qed (simp_all add: default_options_def map_filter_simps)

text \<open>
  The default TLS options are never ambiguous. They are the built-in ones if no provider sets them, those of the provider if exactly one
  does, and missing if several do, so that routers with TLS then fail instead of using options that depend on the order of a map.
\<close>

theorem default_tls_options:
  assumes "\<forall>(pvd, c) \<in> set cs. gomap_ok (parts TLSConf TLSOptions c)"
  shows "\<exists>t. TLSConf (mergeConfiguration D cs deps) = Some t \<and>
    map_of (TLSOptions t) DefaultTLSConfigName = (case default_options cs of [] \<Rightarrow> Some D | [x] \<Rightarrow> Some x | _ \<Rightarrow> None)"
proof -
  let ?s = "fold (merge_one deps) cs merge_start"
  have len: "length (defaultTLSOptionProviders ?s) = length (default_options cs)"
    and last: "default_options cs \<noteq> [] \<Longrightarrow> map_of (TLSOptions (mTLS ?s)) ''default'' = Some (last (default_options cs))"
    using merged_options [OF assms, of deps merge_start] by (simp_all add: merge_start_def)
  have "map_of (TLSOptions (settle_tls D ?s)) DefaultTLSConfigName =
      (case default_options cs of [] \<Rightarrow> Some D | [x] \<Rightarrow> Some x | _ \<Rightarrow> None)"
    using len last
    by (cases "default_options cs" rule: remdups_adj.cases)
      (simp_all add: settle_tls_def DefaultTLSConfigName_def Let_def update_conv' delete_conv')
  then show ?thesis
    by (simp add: mergeConfiguration_def Let_def)
qed

definition demo_tls_config :: "(string, nat) gomap \<Rightarrow> nat Configuration" where
  "demo_tls_config opts = \<lparr>HTTP = None, TCP = None, UDP = None, TLSConf = Some \<lparr>Certificates = [], TLSOptions = opts, TLSStores = []\<rparr>\<rparr>"

theorem default_tls_options_witness:
  "(\<exists>t. TLSConf (mergeConfiguration 0 [(''a'', demo_tls_config [(''x'', 1), (''default'', 2)])] []) = Some t \<and>
       map_of (TLSOptions t) DefaultTLSConfigName = Some 2) \<and>
   (\<exists>t. TLSConf (mergeConfiguration 0 [(''a'', demo_tls_config [(''default'', 1)]), (''b'', demo_tls_config [(''default'', 2)])] []) = Some t \<and>
       map_of (TLSOptions t) DefaultTLSConfigName = None)"
  using default_tls_options [of "[(''a'', demo_tls_config [(''x'', 1), (''default'', 2)])]" 0 "[]"]
    default_tls_options [of "[(''a'', demo_tls_config [(''default'', 1)]), (''b'', demo_tls_config [(''default'', 2)])]" 0 "[]"]
  by (simp add: parts_def default_options_def map_filter_simps demo_tls_config_def)

subsection \<open>What models do to routers\<close>

text \<open>A root router as it comes out for an entry point with a model, or for those without.\<close>

definition from_root :: "(string, Model) gomap \<Rightarrow> Router \<Rightarrow> Router \<Rightarrow> bool" where
  "from_root ms rt r \<longleftrightarrow> ParentRefs rt = None \<and>
     ((\<exists>ep m. ep \<in> set (EntryPoints rt) \<and> model_of ms ep = Some m \<and> r = model_copy m ep (default_syntax ms rt)) \<or>
      (\<exists>eps. (\<forall>ep \<in> set eps. ep \<in> set (EntryPoints rt) \<and> model_of ms ep = None) \<and> r = (default_syntax ms rt)\<lparr>EntryPoints := eps\<rparr>))"

definition from_any :: "(string, Model) gomap \<Rightarrow> (string, Router) gomap \<Rightarrow> string \<Rightarrow> Router \<Rightarrow> bool" where
  "from_any ms rs k r \<longleftrightarrow> (\<exists>n rt. (n, rt) \<in> set rs \<and> (ParentRefs rt \<noteq> None \<and> k = n \<and> r = rt \<or> from_root ms rt r))"

lemma model_copy_EntryPoints [simp]: "model_copy m ep (r\<lparr>EntryPoints := x\<rparr>) = model_copy m ep r"
  by (simp add: model_copy_def)

lemma default_syntax_kept [simp]:
  "EntryPoints (default_syntax ms r) = EntryPoints r" "Middlewares (default_syntax ms r) = Middlewares r" "Service (default_syntax ms r) = Service r"
  "Rule (default_syntax ms r) = Rule r" "ParentRefs (default_syntax ms r) = ParentRefs r" "Priority (default_syntax ms r) = Priority r"
  "TLS (default_syntax ms r) = TLS r" "DeniedEncodedPathCharacters (default_syntax ms r) = DeniedEncodedPathCharacters r"
  by (auto simp: default_syntax_def split: option.split)

text \<open>The name of the copy of a router for an entry point with a model, and the names recorded for it.\<close>

definition copy_name :: "nat \<Rightarrow> string \<Rightarrow> string \<Rightarrow> string" where
  "copy_name n ep nm = (if n > 1 then ep @ ''-'' @ nm else nm)"

definition copy_names :: "nat \<Rightarrow> string \<Rightarrow> string \<Rightarrow> (string \<Rightarrow> string list) \<Rightarrow> string \<Rightarrow> string list" where
  "copy_names n ep nm names = (if n > 1 then names(nm := names nm @ [copy_name n ep nm]) else names)"

lemma apply_entry_point_None:
  "model_of ms ep = None \<Longrightarrow> apply_entry_point ms nm n ep (r, rts, names) =
     (r\<lparr>EntryPoints := EntryPoints r @ [ep]\<rparr>, set_key nm (r\<lparr>EntryPoints := EntryPoints r @ [ep]\<rparr>) rts, names)"
  by (simp add: apply_entry_point_def Let_def)

lemma apply_entry_point_Some:
  "model_of ms ep = Some m \<Longrightarrow> apply_entry_point ms nm n ep (r, rts, names) =
     (r, set_key (copy_name n ep nm) (model_copy m ep r) rts, copy_names n ep nm names)"
  by (simp add: apply_entry_point_def copy_name_def copy_names_def Let_def)

lemma apply_entry_point_from:
  assumes "ParentRefs rt = None" "\<forall>ep \<in> set eps. ep \<in> set (EntryPoints rt)"
    and "\<forall>(k, r) \<in> set rts. P k r" "\<And>k r. from_root ms rt r \<Longrightarrow> P k r"
    and "\<forall>ep \<in> set done. ep \<in> set (EntryPoints rt) \<and> model_of ms ep = None"
  shows "\<forall>(k, r) \<in> set (fst (snd (fold (apply_entry_point ms nm n) eps ((default_syntax ms rt)\<lparr>EntryPoints := done\<rparr>, rts, names)))). P k r"
  using assms(2,3,5)
proof (induction eps arbitrary: rts names "done")
  case (Cons ep eps)
  show ?case
  proof (cases "model_of ms ep")
    case None
    let ?r = "(default_syntax ms rt)\<lparr>EntryPoints := done @ [ep]\<rparr>"
    have don: "\<forall>x \<in> set (done @ [ep]). x \<in> set (EntryPoints rt) \<and> model_of ms x = None"
      using Cons.prems(1,3) None by auto
    then have "from_root ms rt ?r"
      unfolding from_root_def using assms(1) by blast
    then have "\<forall>(k, r) \<in> set (set_key nm ?r rts). P k r"
      using Cons.prems(2) assms(4) by (auto dest!: set_key_entry)
    then show ?thesis
      using Cons.IH [OF _ _ don] Cons.prems(1) None by (simp add: apply_entry_point_None)
  next
    case (Some m)
    have "from_root ms rt (model_copy m ep (default_syntax ms rt))"
      unfolding from_root_def using assms(1) Cons.prems(1) Some by auto
    then have "\<forall>(k, r) \<in> set (set_key nm' (model_copy m ep (default_syntax ms rt)) rts). P k r" for nm'
      using Cons.prems(2) assms(4) by (auto dest!: set_key_entry)
    then show ?thesis
      using Cons.IH [OF _ _ Cons.prems(3), of "set_key (copy_name n ep nm) (model_copy m ep (default_syntax ms rt)) rts"] Cons.prems(1) Some
      by (simp add: apply_entry_point_Some)
  qed
qed simp

lemma apply_router_from:
  assumes "(n, rt) \<in> set rs" "\<forall>(k, r) \<in> set rts. from_any ms rs k r"
  shows "\<forall>(k, r) \<in> set (fst (apply_router ms (n, rt) (rts, names))). from_any ms rs k r"
proof (cases "ParentRefs rt")
  case None
  have "from_any ms rs k r" if "from_root ms rt r" for k r
    using that assms(1) unfolding from_any_def by blast
  then show ?thesis
    using apply_entry_point_from [OF None, of "EntryPoints rt" rts "from_any ms rs" ms "[]" n "length (EntryPoints rt)" names] assms(2) None
    by (simp add: apply_router_def Let_def)
next
  case (Some refs)
  then have "from_any ms rs n rt"
    using assms(1) unfolding from_any_def by blast
  then show ?thesis
    using Some assms(2) by (auto simp: apply_router_def dest!: set_key_entry)
qed

lemma apply_routers_from:
  assumes "set done \<subseteq> set rs" "\<forall>(k, r) \<in> set rts. from_any ms rs k r"
  shows "\<forall>(k, r) \<in> set (fst (fold (apply_router ms) done (rts, names))). from_any ms rs k r"
  using assms
proof (induction "done" arbitrary: rts names)
  case (Cons nr don)
  obtain n rt where nr: "nr = (n, rt)" by (cases nr)
  obtain rts' names' where step: "apply_router ms (n, rt) (rts, names) = (rts', names')" by (cases "apply_router ms (n, rt) (rts, names)")
  have "(n, rt) \<in> set rs" "set don \<subseteq> set rs" using Cons.prems(1) nr by simp_all
  then have "\<forall>(k, r) \<in> set rts'. from_any ms rs k r"
    using apply_router_from [of n rt rs rts ms names] Cons.prems(2) step by simp
  then show ?case
    using Cons.IH [OF \<open>set don \<subseteq> set rs\<close>] by (simp only: fold_Cons_rev fold.simps comp_apply nr step)
qed simp

text \<open>A name that can still be used as parent: that of a router, or of one that was split.\<close>

definition linkable :: "string \<Rightarrow> (string, Router) gomap \<times> (string \<Rightarrow> string list) \<Rightarrow> bool" where
  "linkable ref s \<longleftrightarrow> map_of (fst s) ref \<noteq> None \<or> snd s ref \<noteq> []"

lemma linkable_entry_point:
  "linkable ref (snd s) \<or> ref = nm \<Longrightarrow> linkable ref (snd (apply_entry_point ms nm n ep s))"
proof -
  obtain r rts names where s: "s = (r, rts, names)" by (cases s)
  show "linkable ref (snd s) \<or> ref = nm \<Longrightarrow> ?thesis"
  proof (cases "model_of ms ep")
    case None
    then show "linkable ref (snd s) \<or> ref = nm \<Longrightarrow> ?thesis"
      by (auto simp: s apply_entry_point_None linkable_def update_conv')
  next
    case (Some m)
    then show "linkable ref (snd s) \<or> ref = nm \<Longrightarrow> ?thesis"
      by (auto simp: s apply_entry_point_Some linkable_def update_conv' copy_names_def copy_name_def)
  qed
qed

lemma linkable_entry_points:
  "linkable ref (snd s) \<or> ref = nm \<and> eps \<noteq> [] \<Longrightarrow> linkable ref (snd (fold (apply_entry_point ms nm n) eps s))"
proof (induction eps arbitrary: s)
  case (Cons ep eps)
  have "linkable ref (snd (apply_entry_point ms nm n ep s))"
    using Cons.prems linkable_entry_point by blast
  then show ?case using Cons.IH by simp
qed simp

lemma linkable_router:
  assumes "linkable ref s \<or> ref = n \<and> (ParentRefs rt \<noteq> None \<or> EntryPoints rt \<noteq> [])"
  shows "linkable ref (apply_router ms (n, rt) s)"
proof -
  obtain rts names where s: "s = (rts, names)" by (cases s)
  show ?thesis
  proof (cases "ParentRefs rt")
    case None
    have "apply_router ms (n, rt) s = snd (fold (apply_entry_point ms n (length (EntryPoints rt))) (EntryPoints rt)
        ((default_syntax ms rt)\<lparr>EntryPoints := []\<rparr>, s))"
      using None by (simp add: apply_router_def s Let_def)
    then show ?thesis
      using assms None linkable_entry_points [of ref "((default_syntax ms rt)\<lparr>EntryPoints := []\<rparr>, s)" n "EntryPoints rt"] by simp
  next
    case (Some refs)
    then show ?thesis
      using assms by (auto simp: apply_router_def s linkable_def update_conv')
  qed
qed

lemma linkable_routers:
  assumes "linkable ref s \<or> (\<exists>rt. (ref, rt) \<in> set rs \<and> (ParentRefs rt \<noteq> None \<or> EntryPoints rt \<noteq> []))"
  shows "linkable ref (fold (apply_router ms) rs s)"
  using assms
proof (induction rs arbitrary: s)
  case (Cons nr rs)
  obtain n rt where nr: "nr = (n, rt)" by (cases nr)
  show ?case
  proof (cases "linkable ref s \<or> ref = n \<and> (ParentRefs rt \<noteq> None \<or> EntryPoints rt \<noteq> [])")
    case True
    then show ?thesis using Cons.IH linkable_router nr by simp
  next
    case False
    then have "\<exists>rt. (ref, rt) \<in> set rs \<and> (ParentRefs rt \<noteq> None \<or> EntryPoints rt \<noteq> [])"
      using Cons.prems nr by auto
    then show ?thesis using Cons.IH by simp
  qed
qed simp

lemma relink_root:
  assumes "ParentRefs rt = None \<or> (\<exists>ref \<in> set (elems (ParentRefs rt)). linkable ref (rts, names))"
  shows "ParentRefs (relink rts names rt) = None \<longleftrightarrow> ParentRefs rt = None"
proof (cases "ParentRefs rt")
  case (Some refs)
  then obtain ref where "ref \<in> set refs" "linkable ref (rts, names)"
    using assms by auto
  then have "new_parents rts names refs \<noteq> []"
    by (auto simp: new_parents_def linkable_def intro!: bexI [of _ ref])
  then show ?thesis
    using Some by (simp add: relink_def appended_def)
qed (simp add: relink_def)

lemma relink_parents:
  "x \<in> set (elems (ParentRefs (relink rts names rt))) \<Longrightarrow> x \<in> set (elems (ParentRefs rt)) \<or> (\<exists>ref \<in> set (elems (ParentRefs rt)). x \<in> set (names ref))"
  by (auto simp: relink_def new_parents_def split: option.splits if_splits)

text \<open>Every router has a parent that exists, unless it is a root.\<close>

definition parents_exist :: "(string, Router) gomap \<Rightarrow> bool" where
  "parents_exist rs \<longleftrightarrow> (\<forall>(n, rt) \<in> set rs. ParentRefs rt \<noteq> None \<longrightarrow>
     (\<exists>ref \<in> set (elems (ParentRefs rt)). \<exists>prt. (ref, prt) \<in> set rs \<and> (ParentRefs prt \<noteq> None \<or> EntryPoints prt \<noteq> [])))"

lemma default_observability_kept [simp]:
  "EntryPoints (default_observability r) = EntryPoints r" "Middlewares (default_observability r) = Middlewares r"
  "Service (default_observability r) = Service r" "Rule (default_observability r) = Rule r" "ParentRefs (default_observability r) = ParentRefs r"
  "Priority (default_observability r) = Priority r" "TLS (default_observability r) = TLS r"
  "DeniedEncodedPathCharacters (default_observability r) = DeniedEncodedPathCharacters r"
  by (simp_all add: default_observability_def)

lemma applyModel_routers:
  assumes "HTTP cfg = Some h" "Models h \<noteq> []" "fold (apply_router (Models h)) (Routers h) ([], \<lambda>_. []) = (rts, names)"
  shows "\<exists>h'. HTTP (applyModel cfg) = Some h' \<and> Routers h' = map (\<lambda>(n, rt). (n, default_observability (relink rts names rt))) rts"
  using assms by (simp add: applyModel_def apply_models_def applyDefaultObservabilityModel_def split_def)

text \<open>
  C15. What is configured for an entry point applies to every router behind it. If each router with parents has one that exists, then after
  \<open>applyModel\<close> every root router that listens on an entry point with a model listens on this one only, runs the middlewares of the
  entry point before its own, has TLS if the entry point has it, and otherwise serves what the root router it was made from serves.
\<close>

theorem models_enforced:
  assumes "HTTP cfg = Some h" "Models h \<noteq> []" "parents_exist (Routers h)"
    and "HTTP (applyModel cfg) = Some h'" "(k, r) \<in> set (Routers h')" "ParentRefs r = None"
    and "ep \<in> set (EntryPoints r)" "model_of (Models h) ep = Some m"
  shows "\<exists>n rt. (n, rt) \<in> set (Routers h) \<and> ParentRefs rt = None \<and> ep \<in> set (EntryPoints rt) \<and> EntryPoints r = [ep] \<and>
    Middlewares r = modelMiddlewares m @ Middlewares rt \<and> TLS r = or_else (TLS rt) (modelTLS m) \<and>
    (modelDenied m \<noteq> None \<longrightarrow> DeniedEncodedPathCharacters r = modelDenied m) \<and>
    Rule r = Rule rt \<and> Service r = Service rt \<and> Priority r = Priority rt"
proof -
  obtain rts names where fold: "fold (apply_router (Models h)) (Routers h) ([], \<lambda>_. []) = (rts, names)"
    by (cases "fold (apply_router (Models h)) (Routers h) ([], \<lambda>_. [])")
  obtain r0 where r0: "(k, r0) \<in> set rts" "r = default_observability (relink rts names r0)"
    using applyModel_routers [OF assms(1,2) fold] assms(4,5) by auto
  have "from_any (Models h) (Routers h) k r0"
    using apply_routers_from [of "Routers h" "Routers h" "[]" "Models h" "\<lambda>_. []"] r0(1) fold by auto
  then obtain n rt where n: "(n, rt) \<in> set (Routers h)" "ParentRefs rt \<noteq> None \<and> k = n \<and> r0 = rt \<or> from_root (Models h) rt r0"
    unfolding from_any_def by blast
  have "linkable ref (rts, names)" if "(ref, prt) \<in> set (Routers h)" "ParentRefs prt \<noteq> None \<or> EntryPoints prt \<noteq> []" for ref prt
    using linkable_routers [of ref "([], \<lambda>_. [])" "Routers h" "Models h"] that fold by auto
  then have keep: "ParentRefs (relink rts names rt) = None \<longleftrightarrow> ParentRefs rt = None"
    using assms(3) n(1) by (intro relink_root) (fastforce simp: parents_exist_def)
  have root: "from_root (Models h) rt r0"
    using n(2) keep r0(2) assms(6) by auto
  then have same: "r = default_observability r0"
    by (auto simp: r0(2) relink_def from_root_def model_copy_def Let_def)
  have "r0 = model_copy m ep (default_syntax (Models h) rt) \<and> ParentRefs rt = None \<and> ep \<in> set (EntryPoints rt)"
    using root assms(7,8) by (auto simp: from_root_def same model_copy_def Let_def)
  then show ?thesis
    using n(1) by (intro exI [of _ n] exI [of _ rt]) (simp add: same model_copy_def Let_def)
qed

definition demo_model :: Model where
  "demo_model = \<lparr>modelMiddlewares = [''auth''], modelTLS = None,
     modelObservability = \<lparr>AccessLogs = None, Metrics = None, Tracing = None, TraceVerbosity = []\<rparr>, modelDenied = None, DefaultRuleSyntax = ''v3''\<rparr>"

definition demo_modelled :: "nat Configuration" where
  "demo_modelled = demo_http_config [(''a@file'', demo_plain_router\<lparr>EntryPoints := [''web'', ''plain''], Middlewares := [''own'']\<rparr>),
     (''b@file'', demo_plain_router\<lparr>ParentRefs := Some [''a@file'']\<rparr>)] [(''web@internal'', demo_model)]"

lemma demo_modelled_split: "map_of (Routers (the (HTTP (applyModel demo_modelled)))) ''b@file'' =
    Some (demo_plain_router\<lparr>ParentRefs := Some [''a@file'', ''web-a@file'']\<rparr>)"
  by code_simp

theorem models_enforced_witness:
  "\<exists>h' k r. HTTP (applyModel demo_modelled) = Some h' \<and> (k, r) \<in> set (Routers h') \<and> EntryPoints r = [''web''] \<and> Middlewares r = [''auth'', ''own'']"
proof -
  let ?h = "\<lparr>Routers = [(''a@file'', demo_plain_router\<lparr>EntryPoints := [''web'', ''plain''], Middlewares := [''own'']\<rparr>),
     (''b@file'', demo_plain_router\<lparr>ParentRefs := Some [''a@file'']\<rparr>)], Services = [] :: (string, nat) gomap, MiddlewareMap = [],
     Models = [(''web@internal'', demo_model)], ServersTransports = []\<rparr>"
  have h: "HTTP demo_modelled = Some ?h"
    by (simp add: demo_modelled_def demo_http_config_def)
  have "list_ex (\<lambda>(k, r). ParentRefs r = None \<and> ''web'' \<in> set (EntryPoints r)) (Routers (the (HTTP (applyModel demo_modelled))))"
    by code_simp
  then obtain k r where r: "(k, r) \<in> set (Routers (the (HTTP (applyModel demo_modelled))))" "ParentRefs r = None" "''web'' \<in> set (EntryPoints r)"
    by (auto simp: list_ex_iff)
  have some: "HTTP (applyModel demo_modelled) = Some (the (HTTP (applyModel demo_modelled)))"
    by (simp add: applyModel_def h)
  have "parents_exist (Routers ?h)" "model_of (Models ?h) ''web'' = Some demo_model"
    by (auto simp: parents_exist_def demo_plain_router_def model_of_def)
  from models_enforced [OF h _ this(1) some r this(2)] have "EntryPoints r = [''web''] \<and> Middlewares r = [''auth'', ''own'']"
    by (auto simp: demo_model_def demo_plain_router_def)
  then show ?thesis using some r(1) by blast
qed

subsection \<open>Names made for copies\<close>

text \<open>The names under which a router appears in the new map.\<close>

definition target :: "(string, Model) gomap \<Rightarrow> string \<Rightarrow> nat \<Rightarrow> string \<Rightarrow> string" where
  "target ms nm n ep = (if model_of ms ep = None then nm else copy_name n ep nm)"

definition targets :: "(string, Model) gomap \<Rightarrow> string \<Rightarrow> Router \<Rightarrow> string set" where
  "targets ms n rt =
     (if ParentRefs rt \<noteq> None then {n}
      else target ms n (length (EntryPoints rt)) ` set (EntryPoints rt))"

lemma entry_points_frame:
  assumes "k \<notin> target ms nm n ` set eps"
  shows "map_of (fst (snd (fold (apply_entry_point ms nm n) eps s))) k = map_of (fst (snd s)) k"
  using assms
proof (induction eps arbitrary: s)
  case (Cons ep eps)
  obtain r rts names where s: "s = (r, rts, names)" by (cases s)
  have "map_of (fst (snd (apply_entry_point ms nm n ep s))) k = map_of rts k"
    using Cons.prems by (cases "model_of ms ep") (auto simp: s target_def apply_entry_point_None apply_entry_point_Some update_conv')
  then show ?case using Cons s by simp
qed simp

lemma entry_points_names: "ref \<noteq> nm \<Longrightarrow> snd (snd (fold (apply_entry_point ms nm n) eps s)) ref = snd (snd s) ref"
proof (induction eps arbitrary: s)
  case (Cons ep eps)
  obtain r rts names where s: "s = (r, rts, names)" by (cases s)
  have "snd (snd (apply_entry_point ms nm n ep s)) ref = names ref"
    using Cons.prems by (cases "model_of ms ep") (simp_all add: s apply_entry_point_None apply_entry_point_Some copy_names_def)
  then show ?case using Cons s by simp
qed simp

lemma apply_router_root:
  "ParentRefs rt = None \<Longrightarrow> apply_router ms (n, rt) s =
     snd (fold (apply_entry_point ms n (length (EntryPoints rt))) (EntryPoints rt) ((default_syntax ms rt)\<lparr>EntryPoints := []\<rparr>, s))"
  by (simp add: apply_router_def Let_def split: prod.split)

lemma apply_router_child:
  "ParentRefs rt \<noteq> None \<Longrightarrow> apply_router ms (n, rt) s = (set_key n rt (fst s), snd s)"
  by (simp add: apply_router_def split: prod.split)

lemma router_frame: "k \<notin> targets ms n rt \<Longrightarrow> map_of (fst (apply_router ms (n, rt) s)) k = map_of (fst s) k"
  by (cases "ParentRefs rt = None")
    (simp_all add: targets_def apply_router_root apply_router_child entry_points_frame update_conv' split: if_splits)

lemma routers_frame:
  "\<forall>(n, rt) \<in> set rs. k \<notin> targets ms n rt \<Longrightarrow> map_of (fst (fold (apply_router ms) rs s)) k = map_of (fst s) k"
proof (induction rs arbitrary: s)
  case (Cons nr rs)
  obtain n rt where nr: "nr = (n, rt)" by (cases nr)
  then show ?case using Cons router_frame [of k ms n rt s] by simp
qed simp

lemma routers_names: "ref \<notin> fst ` set rs \<Longrightarrow> snd (fold (apply_router ms) rs s) ref = snd s ref"
proof (induction rs arbitrary: s)
  case (Cons nr rs)
  obtain n rt where nr: "nr = (n, rt)" by (cases nr)
  have "snd (apply_router ms (n, rt) s) ref = snd s ref"
    using Cons.prems nr by (cases "ParentRefs rt = None") (auto simp: apply_router_root apply_router_child entry_points_names)
  then show ?case using Cons nr by simp
qed simp

text \<open>The names recorded for a router are names under which it appears; the new map has each name once.\<close>

lemma entry_points_recorded:
  "x \<in> set (snd (snd (fold (apply_entry_point ms nm n) eps s)) nm) \<Longrightarrow> x \<in> set (snd (snd s) nm) \<or> x \<in> target ms nm n ` set eps"
proof (induction eps arbitrary: s)
  case (Cons ep eps)
  obtain r rts names where s: "s = (r, rts, names)" by (cases s)
  have "x \<in> set (snd (snd (apply_entry_point ms nm n ep s)) nm) \<Longrightarrow> x \<in> set (names nm) \<or> x = target ms nm n ep"
    by (cases "model_of ms ep") (auto simp: s apply_entry_point_None apply_entry_point_Some copy_names_def target_def split: if_splits)
  then show ?case using Cons.IH [of "apply_entry_point ms nm n ep s"] Cons.prems s by auto
qed simp

lemma routers_recorded:
  "x \<in> set (snd (fold (apply_router ms) rs s) ref) \<Longrightarrow>
     x \<in> set (snd s ref) \<or> (\<exists>rt. (ref, rt) \<in> set rs \<and> ParentRefs rt = None \<and> x \<in> targets ms ref rt)"
proof (induction rs arbitrary: s)
  case (Cons nr rs)
  obtain n rt where nr: "nr = (n, rt)" by (cases nr)
  have "x \<in> set (snd (apply_router ms (n, rt) s) ref) \<Longrightarrow> x \<in> set (snd s ref) \<or> n = ref \<and> ParentRefs rt = None \<and> x \<in> targets ms ref rt"
  proof (cases "ParentRefs rt")
    case None
    then show "x \<in> set (snd (apply_router ms (n, rt) s) ref) \<Longrightarrow> ?thesis"
      using entry_points_names [of ref n] entry_points_recorded [of x ms n]
      by (cases "n = ref") (fastforce simp: apply_router_root targets_def)+
  qed (simp add: apply_router_child)
  then show ?case using Cons.IH [of "apply_router ms nr s"] Cons.prems nr by auto
qed simp

lemma entry_points_distinct: "gomap_ok (fst (snd s)) \<Longrightarrow> gomap_ok (fst (snd (fold (apply_entry_point ms nm n) eps s)))"
proof (induction eps arbitrary: s)
  case (Cons ep eps)
  obtain r rts names where s: "s = (r, rts, names)" by (cases s)
  have "gomap_ok (fst (snd (apply_entry_point ms nm n ep s)))"
    using Cons.prems by (cases "model_of ms ep") (simp_all add: s apply_entry_point_None apply_entry_point_Some distinct_update)
  then show ?case using Cons.IH by simp
qed simp

lemma routers_distinct: "gomap_ok (fst s) \<Longrightarrow> gomap_ok (fst (fold (apply_router ms) rs s))"
proof (induction rs arbitrary: s)
  case (Cons nr rs)
  obtain n rt where nr: "nr = (n, rt)" by (cases nr)
  have "gomap_ok (fst (apply_router ms (n, rt) s))"
    using Cons.prems by (cases "ParentRefs rt = None") (simp_all add: apply_router_root apply_router_child entry_points_distinct distinct_update)
  then show ?case using Cons.IH nr by simp
qed simp

lemma child_kept:
  assumes "gomap_ok rs" "(n, rt) \<in> set rs" "ParentRefs rt \<noteq> None" "\<forall>(n', rt') \<in> set rs. n' \<noteq> n \<longrightarrow> n \<notin> targets ms n' rt'"
  shows "map_of (fst (fold (apply_router ms) rs s)) n = Some rt"
proof -
  obtain us vs where rs: "rs = us @ (n, rt) # vs" using assms(2) by (meson split_list)
  have "n \<notin> fst ` set vs" using assms(1) rs by simp
  have "n \<notin> targets ms n' rt'" if v: "(n', rt') \<in> set vs" for n' rt'
  proof -
    have "n' \<noteq> n" using v \<open>n \<notin> fst ` set vs\<close> by force
    moreover have "(n', rt') \<in> set rs" using v rs by simp
    ultimately show ?thesis using assms(4) by blast
  qed
  then have "\<forall>(n', rt') \<in> set vs. n \<notin> targets ms n' rt'" by blast
  then show ?thesis
    using assms(3) by (simp add: rs routers_frame apply_router_child update_conv')
qed

text \<open>A router all of whose parents are missing becomes a root router.\<close>

lemma orphan_relinked:
  assumes "HTTP cfg = Some h" "Models h \<noteq> []" "gomap_ok (Routers h)" "(n, rt) \<in> set (Routers h)" "ParentRefs rt = Some refs"
    and "\<forall>(n', rt') \<in> set (Routers h). n' \<noteq> n \<longrightarrow> n \<notin> targets (Models h) n' rt'"
    and "\<forall>ref \<in> set refs. \<forall>(n', rt') \<in> set (Routers h). n' \<noteq> ref \<and> ref \<notin> targets (Models h) n' rt'"
    and "HTTP (applyModel cfg) = Some h'"
  shows "map_of (Routers h') n = Some (default_observability (rt\<lparr>ParentRefs := None\<rparr>))"
proof -
  obtain rts names where fold: "fold (apply_router (Models h)) (Routers h) ([], \<lambda>_. []) = (rts, names)"
    by (cases "fold (apply_router (Models h)) (Routers h) ([], \<lambda>_. [])")
  have h': "Routers h' = map (\<lambda>(n, rt). (n, default_observability (relink rts names rt))) rts"
    using applyModel_routers [OF assms(1,2) fold] assms(8) by auto
  have "map_of rts ref = None" "names ref = []" if "ref \<in> set refs" for ref
  proof -
    have "\<forall>(n', rt') \<in> set (Routers h). ref \<notin> targets (Models h) n' rt'" "ref \<notin> fst ` set (Routers h)"
      using assms(7) that by auto
    then show "map_of rts ref = None" "names ref = []"
      using routers_frame [of "Routers h" ref "Models h" "([], \<lambda>_. [])"] routers_names [of ref "Routers h" "Models h" "([], \<lambda>_. [])"] fold by simp_all
  qed
  then have "relink rts names rt = rt\<lparr>ParentRefs := None\<rparr>"
    using assms(5) by (simp add: relink_def new_parents_def appended_def)
  moreover have "map_of rts n = Some rt"
    using child_kept [OF assms(3,4) _ assms(6), of "([], \<lambda>_. [])"] assms(5) fold by simp
  ultimately show ?thesis
    unfolding h' by (subst map_of_map) simp
qed

text \<open>Names that no router had as parent get no children, unless they were made for copies.\<close>

lemma applyModel_parents:
  assumes "HTTP cfg = Some h" "Models h \<noteq> []" "HTTP (applyModel cfg) = Some h'"
    and "\<forall>(n', rt') \<in> set (Routers h). n \<notin> set (elems (ParentRefs rt'))"
    and "\<forall>(n', rt') \<in> set (Routers h). ParentRefs rt' = None \<longrightarrow> n \<notin> targets (Models h) n' rt'"
  shows "gomap_ok (Routers h')" "\<forall>(n', rt') \<in> set (Routers h'). n \<notin> set (elems (ParentRefs rt'))"
proof -
  obtain rts names where fold: "fold (apply_router (Models h)) (Routers h) ([], \<lambda>_. []) = (rts, names)"
    by (cases "fold (apply_router (Models h)) (Routers h) ([], \<lambda>_. [])")
  have h': "Routers h' = map (\<lambda>(n, rt). (n, default_observability (relink rts names rt))) rts"
    using applyModel_routers [OF assms(1,2) fold] assms(3) by auto
  have "gomap_ok rts"
    using routers_distinct [of "([], \<lambda>_. [])" "Models h" "Routers h"] fold by simp
  then show "gomap_ok (Routers h')"
    by (simp add: h' comp_def split_def)
  have "n \<notin> set (names ref)" for ref
    using routers_recorded [of n "Models h" "Routers h" "([], \<lambda>_. [])" ref] assms(5) fold by auto
  moreover have "n \<notin> set (elems (ParentRefs rt))" if "(k, rt) \<in> set rts" for k rt
  proof -
    have "from_any (Models h) (Routers h) k rt"
      using apply_routers_from [of "Routers h" "Routers h" "[]" "Models h" "\<lambda>_. []"] that fold by auto
    then show ?thesis
      using assms(4) by (auto simp: from_any_def from_root_def model_copy_def Let_def)
  qed
  ultimately have "n \<notin> set (elems (ParentRefs (relink rts names rt)))" if "(k, rt) \<in> set rts" for k rt
    using relink_parents [of n rts names rt] that by blast
  then show "\<forall>(n', rt') \<in> set (Routers h'). n \<notin> set (elems (ParentRefs rt'))"
    by (auto simp: h')
qed

subsection \<open>Nothing is lost\<close>

text \<open>What a root router becomes for one of its entry points.\<close>

definition split_for :: "(string, Model) gomap \<Rightarrow> Router \<Rightarrow> string list \<Rightarrow> string \<Rightarrow> Router" where
  "split_for ms r eps ep =
     (case model_of ms ep of None \<Rightarrow> r\<lparr>EntryPoints := filter (\<lambda>e. model_of ms e = None) eps\<rparr> | Some m \<Rightarrow> model_copy m ep r)"

lemma copy_name_inj: "n > 1 \<Longrightarrow> copy_name n ep nm \<noteq> nm" "n > 1 \<Longrightarrow> copy_name n ep nm = copy_name n ep' nm \<longleftrightarrow> ep = ep'"
  by (auto simp: copy_name_def)

lemma split_all:
  assumes "n > 1"
  shows "\<exists>rts' names'. fold (apply_entry_point ms nm n) eps (r\<lparr>EntryPoints := []\<rparr>, rts, names) =
      (r\<lparr>EntryPoints := filter (\<lambda>e. model_of ms e = None) eps\<rparr>, rts', names') \<and>
    (\<forall>ep \<in> set eps. map_of rts' (target ms nm n ep) = Some (split_for ms r eps ep))"
proof (induction eps rule: rev_induct)
  case (snoc x eps)
  then obtain rts' names' where IH: "fold (apply_entry_point ms nm n) eps (r\<lparr>EntryPoints := []\<rparr>, rts, names) =
      (r\<lparr>EntryPoints := filter (\<lambda>e. model_of ms e = None) eps\<rparr>, rts', names')"
    "\<forall>ep \<in> set eps. map_of rts' (target ms nm n ep) = Some (split_for ms r eps ep)"
    by blast
  show ?case
  proof (cases "model_of ms x")
    case None
    let ?r = "r\<lparr>EntryPoints := filter (\<lambda>e. model_of ms e = None) (eps @ [x])\<rparr>"
    have "fold (apply_entry_point ms nm n) (eps @ [x]) (r\<lparr>EntryPoints := []\<rparr>, rts, names) = (?r, set_key nm ?r rts', names')"
      using None by (simp add: IH(1) apply_entry_point_None)
    moreover have "map_of (set_key nm ?r rts') (target ms nm n ep) = Some (split_for ms r (eps @ [x]) ep)" if "ep \<in> set (eps @ [x])" for ep
      using that None IH(2) copy_name_inj(1) [OF assms, of ep nm]
      by (cases "model_of ms ep") (auto simp: target_def split_for_def update_conv')
    ultimately show ?thesis by blast
  next
    case (Some m)
    let ?cp = "model_copy m x r" and ?r = "r\<lparr>EntryPoints := filter (\<lambda>e. model_of ms e = None) (eps @ [x])\<rparr>"
    have "fold (apply_entry_point ms nm n) (eps @ [x]) (r\<lparr>EntryPoints := []\<rparr>, rts, names) =
        (?r, set_key (copy_name n x nm) ?cp rts', copy_names n x nm names')"
      using Some by (simp add: IH(1) apply_entry_point_Some)
    moreover have "map_of (set_key (copy_name n x nm) ?cp rts') (target ms nm n ep) = Some (split_for ms r (eps @ [x]) ep)"
      if "ep \<in> set (eps @ [x])" for ep
      using that Some IH(2) copy_name_inj(1) [OF assms, of x nm] copy_name_inj(2) [OF assms, of x nm ep]
      by (cases "model_of ms ep") (auto simp: target_def split_for_def update_conv')
    ultimately show ?thesis by blast
  qed
qed simp

lemma split_router:
  assumes "ParentRefs rt = None" "ep \<in> set (EntryPoints rt)"
  shows "map_of (fst (apply_router ms (n, rt) s)) (target ms n (length (EntryPoints rt)) ep) =
    Some (split_for ms (default_syntax ms rt) (EntryPoints rt) ep)"
proof (cases "length (EntryPoints rt) > 1")
  case True
  obtain rts names where s: "s = (rts, names)" by (cases s)
  show ?thesis
    using split_all [OF True, of ms n "EntryPoints rt" "default_syntax ms rt" rts names] assms by (auto simp: apply_router_root s)
next
  case False
  then have "EntryPoints rt = [ep]"
    using assms(2) by (cases "EntryPoints rt" rule: remdups_adj.cases) auto
  moreover obtain rts names where "s = (rts, names)" by (cases s)
  ultimately show ?thesis
    using assms(1) by (cases "model_of ms ep")
      (simp_all add: apply_router_root apply_entry_point_None apply_entry_point_Some target_def split_for_def update_conv' copy_name_def)
qed

text \<open>
  C16. No entry point of a router is lost. A root router is found after \<open>applyModel\<close> for each of its entry points, unless the name made for
  the copy is also that of another router or copy: it listens there, under the same rule, priority and service, and with
  the middlewares of the entry point before its own.
\<close>

theorem models_complete:
  assumes "HTTP cfg = Some h" "Models h \<noteq> []" "gomap_ok (Routers h)"
    and "(n, rt) \<in> set (Routers h)" "ParentRefs rt = None" "ep \<in> set (EntryPoints rt)"
    and "\<forall>(n', rt') \<in> set (Routers h). n' \<noteq> n \<longrightarrow> target (Models h) n (length (EntryPoints rt)) ep \<notin> targets (Models h) n' rt'"
  shows "\<exists>h' k r. HTTP (applyModel cfg) = Some h' \<and> map_of (Routers h') k = Some r \<and> ParentRefs r = None \<and> ep \<in> set (EntryPoints r) \<and>
    Rule r = Rule rt \<and> Service r = Service rt \<and> Priority r = Priority rt \<and>
    Middlewares r = (case model_of (Models h) ep of None \<Rightarrow> [] | Some m \<Rightarrow> modelMiddlewares m) @ Middlewares rt"
proof -
  let ?ms = "Models h" and ?k = "target (Models h) n (length (EntryPoints rt)) ep"
  obtain rts names where fold: "fold (apply_router ?ms) (Routers h) ([], \<lambda>_. []) = (rts, names)"
    by (cases "fold (apply_router ?ms) (Routers h) ([], \<lambda>_. [])")
  obtain h' where h': "HTTP (applyModel cfg) = Some h'" "Routers h' = map (\<lambda>(n, rt). (n, default_observability (relink rts names rt))) rts"
    using applyModel_routers [OF assms(1,2) fold] by blast
  obtain us vs where rs: "Routers h = us @ (n, rt) # vs" using assms(4) by (meson split_list)
  have "n \<notin> fst ` set vs" using assms(3) rs by simp
  have "?k \<notin> targets ?ms n' rt'" if v: "(n', rt') \<in> set vs" for n' rt'
  proof -
    have "n' \<noteq> n" using v \<open>n \<notin> fst ` set vs\<close> by force
    moreover have "(n', rt') \<in> set (Routers h)" using v rs by simp
    ultimately show ?thesis using assms(7) by blast
  qed
  then have "\<forall>(n', rt') \<in> set vs. ?k \<notin> targets ?ms n' rt'" by blast
  from routers_frame [OF this] have "map_of rts ?k = Some (split_for ?ms (default_syntax ?ms rt) (EntryPoints rt) ep)"
    using fold split_router [OF assms(5,6)] by (simp add: rs) (metis fst_conv)
  then have "map_of (Routers h') ?k = Some (default_observability (split_for ?ms (default_syntax ?ms rt) (EntryPoints rt) ep))"
    using assms(5) unfolding h'(2)
    by (subst map_of_map) (simp add: relink_def split_for_def model_copy_def Let_def split: option.split)
  then show ?thesis
    using h'(1) assms(5,6)
    by (intro exI [of _ h'] exI [of _ ?k]) (auto simp: split_for_def model_copy_def Let_def split: option.split)
qed

theorem models_complete_witness:
  "\<exists>h' k r. HTTP (applyModel demo_modelled) = Some h' \<and> map_of (Routers h') k = Some r \<and> ''plain'' \<in> set (EntryPoints r) \<and> Middlewares r = [''own'']"
proof -
  have "HTTP demo_modelled = Some \<lparr>Routers = [(''a@file'', demo_plain_router\<lparr>EntryPoints := [''web'', ''plain''], Middlewares := [''own'']\<rparr>),
     (''b@file'', demo_plain_router\<lparr>ParentRefs := Some [''a@file'']\<rparr>)], Services = [], MiddlewareMap = [],
     Models = [(''web@internal'', demo_model)], ServersTransports = []\<rparr>"
    by (simp add: demo_modelled_def demo_http_config_def)
  from models_complete [OF this, of "''a@file''" "demo_plain_router\<lparr>EntryPoints := [''web'', ''plain''], Middlewares := [''own'']\<rparr>" "''plain''"]
  show ?thesis
    by (fastforce simp: demo_plain_router_def model_of_def targets_def target_def)
qed

end
