(* ===== verification/Rules.thy ===== *)
theory Rules
  imports Prelude
begin

section \<open>Routing rules (\<open>pkg/rules\<close>)\<close>

text \<open>
  The rule language of the HTTP and TCP routers: a rule such as
  \<open>Host(`a`) && !PathPrefix(`/b`)\<close> is parsed by the third-party predicate parser, which
  calls the operators and matcher functions of \<open>pkg/rules\<close>; these build a \<open>Tree\<close> in which
  negation has been pushed to the leaves. The tree, its builders, the inversion, the
  extraction of matcher values and the argument check are modelled as they are; the
  predicate parser is an argument, with its documented behaviour as a hypothesis.
\<close>

subsection \<open>Data\<close>

definition and_op :: string where
  "and_op = ''and''"

definition or_op :: string where
  "or_op = ''or''"

text \<open>The pointers \<open>RuleLeft\<close> and \<open>RuleRight\<close> may be nil.\<close>

datatype tree =
  Tree (Matcher: string) (NotFlag: bool) (Value: "string list")
    (RuleLeft: "tree option") (RuleRight: "tree option")

type_synonym TreeBuilder = "unit \<Rightarrow> tree outcome"

text \<open>What the predicate parser is given: the operators and the functions by name.\<close>

record predicate_def =
  AND :: "TreeBuilder \<Rightarrow> TreeBuilder \<Rightarrow> TreeBuilder"
  OR :: "TreeBuilder \<Rightarrow> TreeBuilder \<Rightarrow> TreeBuilder"
  NOT :: "TreeBuilder \<Rightarrow> TreeBuilder"
  Functions :: "string \<rightharpoonup> (string list \<Rightarrow> TreeBuilder)"

subsection \<open>Operations\<close>

definition andFunc :: "TreeBuilder \<Rightarrow> TreeBuilder \<Rightarrow> TreeBuilder" where
  "andFunc left right = (\<lambda>_.
     bind_outcome (left ()) (\<lambda>l.
     bind_outcome (right ()) (\<lambda>r.
       Ok (Tree and_op False [] (Some l) (Some r)))))"

definition orFunc :: "TreeBuilder \<Rightarrow> TreeBuilder \<Rightarrow> TreeBuilder" where
  "orFunc left right = (\<lambda>_.
     bind_outcome (left ()) (\<lambda>l.
     bind_outcome (right ()) (\<lambda>r.
       Ok (Tree or_op False [] (Some l) (Some r)))))"

text \<open>Inverting a nil subtree dereferences it: a panic.\<close>

fun invert :: "tree \<Rightarrow> tree outcome" where
  "invert (Tree m n v l r) =
     (if m = or_op then
        (case l of None \<Rightarrow> Panic
         | Some l' \<Rightarrow> bind_outcome (invert l') (\<lambda>il.
           (case r of None \<Rightarrow> Panic
            | Some r' \<Rightarrow> bind_outcome (invert r') (\<lambda>ir.
                Ok (Tree and_op n v (Some il) (Some ir))))))
      else if m = and_op then
        (case l of None \<Rightarrow> Panic
         | Some l' \<Rightarrow> bind_outcome (invert l') (\<lambda>il.
           (case r of None \<Rightarrow> Panic
            | Some r' \<Rightarrow> bind_outcome (invert r') (\<lambda>ir.
                Ok (Tree or_op n v (Some il) (Some ir))))))
      else Ok (Tree m (\<not> n) v l r))"

definition notFunc :: "TreeBuilder \<Rightarrow> TreeBuilder" where
  "notFunc elem = (\<lambda>_. bind_outcome (elem ()) invert)"

text \<open>The closure \<open>NewParser\<close> stores for a matcher: it captures only the matcher's name.\<close>

definition matcher_func :: "string \<Rightarrow> string list \<Rightarrow> TreeBuilder" where
  "matcher_func matcherName value = (\<lambda>_. Ok (Tree matcherName False value None None))"

text \<open>
  The names under which the matchers are registered, in the order of the loop: each
  matcher under its own name, in lower case, in upper case and in title case, a later
  registration replacing an earlier one. Title casing is a third-party function.
\<close>

fun parserFuncs :: "(string \<Rightarrow> string) \<Rightarrow> string list \<Rightarrow> (string \<rightharpoonup> string) \<Rightarrow> (string \<rightharpoonup> string)" where
  "parserFuncs title [] m = m"
| "parserFuncs title (matcherName # ns) m =
     parserFuncs title ns
       (m(matcherName \<mapsto> matcherName,
          ToLower matcherName \<mapsto> matcherName,
          ToUpper matcherName \<mapsto> matcherName,
          title (ToLower matcherName) \<mapsto> matcherName))"

definition NewParser :: "(string \<Rightarrow> string) \<Rightarrow> string list \<Rightarrow> predicate_def" where
  "NewParser title matchers =
     \<lparr>AND = andFunc, OR = orFunc, NOT = notFunc,
      Functions = (\<lambda>f. map_option matcher_func (parserFuncs title matchers Map.empty f))\<rparr>"

definition lower :: "string list \<Rightarrow> string list" where
  "lower slice = map ToLower slice"

fun ParseMatchers :: "tree \<Rightarrow> string list \<Rightarrow> string list outcome" where
  "ParseMatchers (Tree m n v l r) matchers =
     (if m = and_op \<or> m = or_op then
        (case l of None \<Rightarrow> Panic
         | Some l' \<Rightarrow> bind_outcome (ParseMatchers l' matchers) (\<lambda>xs.
           (case r of None \<Rightarrow> Panic
            | Some r' \<Rightarrow> bind_outcome (ParseMatchers r' matchers) (\<lambda>ys. Ok (xs @ ys)))))
      else if m \<in> set matchers then Ok (lower v)
      else Ok [])"

definition CheckRule :: "tree \<Rightarrow> string option" where
  "CheckRule rule =
     (if Value rule = [] then Some ''no args for matcher''
      else if \<exists>v \<in> set (Value rule). v = [] then Some ''empty args for matcher''
      else None)"

subsection \<open>The predicate parser's contract\<close>

text \<open>
  The predicate parser reads a Go boolean expression over function calls and evaluates it
  bottom-up: a call through the function of that name (an unknown name is an error),
  \<open>&&\<close>, \<open>||\<close> and \<open>!\<close> through the operators it was given. \<open>ast\<close> stands for its
  grammar. The contract is a hypothesis of the theorems that go through the parser.
\<close>

datatype expr = Call string "string list" | Conj expr expr | Disj expr expr | Neg expr

fun interp :: "predicate_def \<Rightarrow> expr \<Rightarrow> TreeBuilder outcome" where
  "interp d (Call f args) =
     (case Functions d f of None \<Rightarrow> Err ''unsupported function''
      | Some fn \<Rightarrow> Ok (fn args))"
| "interp d (Conj a b) =
     bind_outcome (interp d a) (\<lambda>x. bind_outcome (interp d b) (\<lambda>y. Ok (AND d x y)))"
| "interp d (Disj a b) =
     bind_outcome (interp d a) (\<lambda>x. bind_outcome (interp d b) (\<lambda>y. Ok (OR d x y)))"
| "interp d (Neg a) = bind_outcome (interp d a) (\<lambda>x. Ok (NOT d x))"

type_synonym predicate_parser = "predicate_def \<Rightarrow> string \<Rightarrow> TreeBuilder option outcome"

text \<open>
  The parser returns a value of any type; \<^const>\<open>None\<close> inside \<^const>\<open>Ok\<close> is a value that is not a
  \<open>TreeBuilder\<close>, as for a rule that is a lone literal.
\<close>

definition predicate_contract :: "predicate_parser \<Rightarrow> (string \<Rightarrow> expr option) \<Rightarrow> bool" where
  "predicate_contract Parse ast \<longleftrightarrow>
     (\<forall>d rule. case ast rule of
        None \<Rightarrow> (\<exists>e. Parse d rule = Err e) \<or> Parse d rule = Ok None
      | Some ex \<Rightarrow> Parse d rule = bind_outcome (interp d ex) (\<lambda>b. Ok (Some b)))"

subsection \<open>Meaning of rules\<close>

text \<open>
  \<open>eval_expr\<close> is the specification: the boolean value of the expression the user wrote,
  given the meaning \<open>I\<close> of the matchers. \<open>eval_tree\<close> is the boolean value of the tree.
\<close>

fun eval_expr :: "(string \<rightharpoonup> string) \<Rightarrow> (string \<Rightarrow> string list \<Rightarrow> bool) \<Rightarrow> expr \<Rightarrow> bool" where
  "eval_expr names I (Call f args) = (case names f of None \<Rightarrow> False | Some m \<Rightarrow> I m args)"
| "eval_expr names I (Conj a b) \<longleftrightarrow> eval_expr names I a \<and> eval_expr names I b"
| "eval_expr names I (Disj a b) \<longleftrightarrow> eval_expr names I a \<or> eval_expr names I b"
| "eval_expr names I (Neg a) \<longleftrightarrow> \<not> eval_expr names I a"

fun eval_tree :: "(string \<Rightarrow> string list \<Rightarrow> bool) \<Rightarrow> tree \<Rightarrow> bool" where
  "eval_tree I (Tree m n v l r) =
     (if m = and_op then
        (case l of None \<Rightarrow> False | Some l' \<Rightarrow>
          (case r of None \<Rightarrow> False | Some r' \<Rightarrow> eval_tree I l' \<and> eval_tree I r'))
      else if m = or_op then
        (case l of None \<Rightarrow> False | Some l' \<Rightarrow>
          (case r of None \<Rightarrow> False | Some r' \<Rightarrow> eval_tree I l' \<or> eval_tree I r'))
      else I m v \<noteq> n)"

text \<open>The matchers at the leaves.\<close>

fun matcher_names :: "tree \<Rightarrow> string set" where
  "matcher_names (Tree m n v l r) =
     (if m = and_op \<or> m = or_op then
        (case l of None \<Rightarrow> {} | Some l' \<Rightarrow> matcher_names l') \<union>
        (case r of None \<Rightarrow> {} | Some r' \<Rightarrow> matcher_names r')
      else {m})"

text \<open>Well-formed trees: both children at an operator, none at a leaf.\<close>

inductive wf_tree :: "tree \<Rightarrow> bool" where
  leaf: "m \<noteq> and_op \<Longrightarrow> m \<noteq> or_op \<Longrightarrow> wf_tree (Tree m n v None None)"
| conj: "wf_tree l \<Longrightarrow> wf_tree r \<Longrightarrow> wf_tree (Tree and_op n v (Some l) (Some r))"
| disj: "wf_tree l \<Longrightarrow> wf_tree r \<Longrightarrow> wf_tree (Tree or_op n v (Some l) (Some r))"

inductive_simps wf_tree_simps: "wf_tree (Tree m n v l r)"

lemma ops_distinct [simp]: "and_op \<noteq> or_op" "or_op \<noteq> and_op"
  by (simp_all add: and_op_def or_op_def)

lemma wf_builders [inv_intros]:
  "left () = Ok l \<Longrightarrow> right () = Ok r \<Longrightarrow> wf_tree l \<Longrightarrow> wf_tree r \<Longrightarrow>
     \<exists>t. andFunc left right () = Ok t \<and> wf_tree t"
  "left () = Ok l \<Longrightarrow> right () = Ok r \<Longrightarrow> wf_tree l \<Longrightarrow> wf_tree r \<Longrightarrow>
     \<exists>t. orFunc left right () = Ok t \<and> wf_tree t"
  by (auto simp: andFunc_def orFunc_def intro: wf_tree.intros)

text \<open>On a well-formed tree inversion never panics, keeps well-formedness and negates.\<close>

lemma invert_wf:
  "wf_tree t \<Longrightarrow> \<exists>t'. invert t = Ok t' \<and> wf_tree t' \<and> matcher_names t' = matcher_names t
     \<and> (\<forall>I. eval_tree I t' = (\<not> eval_tree I t))"
proof (induction rule: wf_tree.induct)
  case (leaf m n v)
  then show ?case by (auto intro: wf_tree.leaf)
next
  case (conj l r n v)
  then show ?case by (fastforce intro: wf_tree.disj)
next
  case (disj l r n v)
  then show ?case by (fastforce intro: wf_tree.conj)
qed

lemma invert_involution:
  "wf_tree t \<Longrightarrow> bind_outcome (invert t) invert = Ok t"
  by (induction rule: wf_tree.induct) auto

text \<open>\<open>ParseMatchers\<close> never panics on a well-formed tree and does not see negation.\<close>

lemma ParseMatchers_wf: "wf_tree t \<Longrightarrow> \<exists>xs. ParseMatchers t ms = Ok xs"
  by (induction rule: wf_tree.induct) auto

lemma ParseMatchers_invert:
  "wf_tree t \<Longrightarrow> invert t = Ok t' \<Longrightarrow> ParseMatchers t' ms = ParseMatchers t ms"
  by (induction arbitrary: t' rule: wf_tree.induct) auto

lemma parserFuncs_range:
  "parserFuncs title ms m f = Some n \<Longrightarrow> n \<in> set ms \<or> m f = Some n"
  by (induction ms arbitrary: m) (fastforce split: if_splits)+

lemma parserFuncs_mono: "m f \<noteq> None \<Longrightarrow> parserFuncs title ms m f \<noteq> None"
  by (induction ms arbitrary: m) auto

lemma parserFuncs_dom: "n \<in> set ms \<Longrightarrow> parserFuncs title ms m n \<noteq> None"
proof (induction ms arbitrary: m)
  case (Cons a ms)
  show ?case
  proof (cases "n = a")
    case True
    then show ?thesis
      unfolding parserFuncs.simps by (intro parserFuncs_mono) simp
  next
    case False
    with Cons show ?thesis by simp
  qed
qed simp

text \<open>
  What the parser builds for an expression over registered matchers is a well-formed tree
  with the meaning of the expression: negation has been pushed to the leaves by De Morgan.
\<close>

lemma interp_builds:
  assumes "and_op \<notin> set ms" and "or_op \<notin> set ms"
    and "interp (NewParser title ms) ex = Ok b"
  shows "\<exists>t. b () = Ok t \<and> wf_tree t \<and> matcher_names t \<subseteq> set ms \<and>
    (\<forall>I. eval_tree I t = eval_expr (parserFuncs title ms Map.empty) I ex)"
  using assms(3)
proof (induction ex arbitrary: b)
  case (Call f args)
  then obtain m where m: "parserFuncs title ms Map.empty f = Some m" "b = matcher_func m args"
    by (auto simp: NewParser_def split: option.splits)
  with parserFuncs_range [OF m(1)] assms(1,2) have "m \<noteq> and_op" "m \<noteq> or_op" "m \<in> set ms" by auto
  with m show ?case by (auto simp: matcher_func_def intro: wf_tree.leaf)
next
  case (Conj e1 e2)
  then obtain b1 b2 where b1: "interp (NewParser title ms) e1 = Ok b1"
    and b2: "interp (NewParser title ms) e2 = Ok b2" and b: "b = andFunc b1 b2"
    by (auto simp: NewParser_def)
  from Conj.IH(1) [OF b1] Conj.IH(2) [OF b2] b show ?case
    by (auto simp: andFunc_def intro: wf_tree.conj)
next
  case (Disj e1 e2)
  then obtain b1 b2 where b1: "interp (NewParser title ms) e1 = Ok b1"
    and b2: "interp (NewParser title ms) e2 = Ok b2" and b: "b = orFunc b1 b2"
    by (auto simp: NewParser_def)
  from Disj.IH(1) [OF b1] Disj.IH(2) [OF b2] b show ?case
    by (auto simp: orFunc_def intro: wf_tree.disj)
next
  case (Neg e)
  then obtain b1 where b1: "interp (NewParser title ms) e = Ok b1" and b: "b = notFunc b1"
    by (auto simp: NewParser_def)
  from Neg.IH [OF b1] b show ?case
    using invert_wf by (fastforce simp: notFunc_def)
qed

text \<open>What the contract gives for one rule.\<close>

lemma predicate_contract_cases:
  assumes "predicate_contract Parse ast"
  shows "(ast rule = None \<and> ((\<exists>e. Parse d rule = Err e) \<or> Parse d rule = Ok None)) \<or>
    (\<exists>ex. ast rule = Some ex \<and> Parse d rule = bind_outcome (interp d ex) (\<lambda>b. Ok (Some b)))"
proof -
  have "case ast rule of None \<Rightarrow> (\<exists>e. Parse d rule = Err e) \<or> Parse d rule = Ok None
    | Some ex \<Rightarrow> Parse d rule = bind_outcome (interp d ex) (\<lambda>b. Ok (Some b))"
    using assms unfolding predicate_contract_def by blast
  then show ?thesis by (cases "ast rule") simp_all
qed

lemma Parse_call:
  assumes "predicate_contract Parse ast" "Parse d rule = Ok (Some b)"
  shows "\<exists>ex. ast rule = Some ex \<and> interp d ex = Ok b"
proof -
  obtain ex where "ast rule = Some ex" "Parse d rule = bind_outcome (interp d ex) (\<lambda>b. Ok (Some b))"
    using predicate_contract_cases [OF assms(1), of rule d] assms(2) by fastforce
  moreover from this(2) have "interp d ex = Ok b"
    using assms(2) by (cases "interp d ex") simp_all
  ultimately show ?thesis by blast
qed

lemma Parse_no_panic:
  assumes "predicate_contract Parse ast"
  shows "Parse (NewParser title ms) rule \<noteq> Panic"
proof -
  have "interp (NewParser title ms) ex \<noteq> Panic" for ex
    by (induction ex) (auto simp: bind_outcome_Panic_iff split: option.splits)
  then have "bind_outcome (interp (NewParser title ms) ex) (\<lambda>b. Ok (Some b)) \<noteq> Panic" for ex
    by (simp add: bind_outcome_Panic_iff)
  then show ?thesis
    using predicate_contract_cases [OF assms, of rule "NewParser title ms"] by fastforce
qed

end
