(* ===== verification/HttpTypes.thy ===== *)
theory HttpTypes
  imports Prelude
begin

section \<open>Requests and responses\<close>

text \<open>
  What the modelled handlers read of a request and write to a response. A request carries
  the values the sources obtain from \<open>net/http\<close> and \<open>net/url\<close> (\<open>URL.EscapedPath()\<close>,
  \<open>URL.Query()\<close>, the canonical header map, the cookies) and the three context values that
  earlier handlers store for the routers.

  The response writer is the one of \<open>net/http\<close>'s server: headers are mutable until the
  status line is written; the first \<open>WriteHeader\<close> (or \<open>Write\<close>, or \<open>Flush\<close>) commits the
  status and the headers of that moment, later ones do not change them.
\<close>

record request =
  Method :: string
  EscapedPath :: string
  URLQuery :: "string \<rightharpoonup> string list"
  Header :: "string \<Rightarrow> string list"
  RemoteAddr :: string
  Cookies :: "string \<rightharpoonup> string"
  ctxRoutingPath :: "string option"
  ctxCanonicalHost :: "string option"
  ctxFlattenHost :: "string option"

definition Header_Get :: "request \<Rightarrow> string \<Rightarrow> string" where
  "Header_Get req key = (case Header req key of [] \<Rightarrow> [] | v # _ \<Rightarrow> v)"

subsection \<open>The server's response writer\<close>

record response =
  rwHeader :: "(string \<times> string) list"
  rwCommitted :: "(int \<times> (string \<times> string) list) option"
  rwBody :: string

definition new_response :: response where
  "new_response = \<lparr>rwHeader = [], rwCommitted = None, rwBody = []\<rparr>"

definition StatusOK :: int where
  "StatusOK = 200"

text \<open>Informational statuses other than 101 are sent at once and commit nothing.\<close>

definition informational :: "int \<Rightarrow> bool" where
  "informational code \<longleftrightarrow> 100 \<le> code \<and> code \<le> 199 \<and> code \<noteq> 101"

definition rw_WriteHeader :: "int \<Rightarrow> response \<Rightarrow> response" where
  "rw_WriteHeader code w =
     (if informational code then w
      else case rwCommitted w of
        None \<Rightarrow> w\<lparr>rwCommitted := Some (code, rwHeader w)\<rparr>
      | Some _ \<Rightarrow> w)"

definition rw_Write :: "string \<Rightarrow> response \<Rightarrow> response" where
  "rw_Write b w =
     (let w' = (if rwCommitted w = None then rw_WriteHeader StatusOK w else w)
      in w'\<lparr>rwBody := rwBody w' @ b\<rparr>)"

definition rw_Flush :: "response \<Rightarrow> response" where
  "rw_Flush w = (if rwCommitted w = None then rw_WriteHeader StatusOK w else w)"

definition rw_AddHeader :: "string \<Rightarrow> string \<Rightarrow> response \<Rightarrow> response" where
  "rw_AddHeader k v w = w\<lparr>rwHeader := rwHeader w @ [(k, v)]\<rparr>"

definition rw_DelHeader :: "string \<Rightarrow> response \<Rightarrow> response" where
  "rw_DelHeader k w = w\<lparr>rwHeader := filter (\<lambda>(k', _). k' \<noteq> k) (rwHeader w)\<rparr>"

definition rw_SetHeader :: "string \<Rightarrow> string \<Rightarrow> response \<Rightarrow> response" where
  "rw_SetHeader k v w = rw_AddHeader k v (rw_DelHeader k w)"

text \<open>\<open>http.Error\<close>: the headers of a plain text answer, the status, the message and a newline.\<close>

definition http_Error :: "string \<Rightarrow> int \<Rightarrow> response \<Rightarrow> response" where
  "http_Error msg code w =
     rw_Write (msg @ [CHR 0x0A])
       (rw_WriteHeader code
         (rw_SetHeader ''X-Content-Type-Options'' ''nosniff''
           (rw_SetHeader ''Content-Type'' ''text/plain; charset=utf-8''
             (rw_DelHeader ''Content-Length'' w))))"

definition committed :: "response \<Rightarrow> bool" where
  "committed w \<longleftrightarrow> rwCommitted w \<noteq> None"

lemma rw_WriteHeader_keeps [simp]:
  "committed w \<Longrightarrow> rwCommitted (rw_WriteHeader code w) = rwCommitted w"
  by (auto simp: rw_WriteHeader_def committed_def)

lemma rw_WriteHeader_body [simp]: "rwBody (rw_WriteHeader code w) = rwBody w"
  by (auto simp: rw_WriteHeader_def split: option.splits)

lemma rw_Write_commits [simp]: "committed (rw_Write b w)"
  by (auto simp: rw_Write_def committed_def rw_WriteHeader_def informational_def StatusOK_def Let_def
      split: option.splits)

lemma rw_Write_keeps [simp]: "committed w \<Longrightarrow> rwCommitted (rw_Write b w) = rwCommitted w"
  by (auto simp: rw_Write_def committed_def Let_def)

end
