(* ===== verification/IpCheck.thy ===== *)
theory IpCheck
  imports HttpTypes "HOL-Library.Word"
begin

section \<open>Client addresses (\<open>pkg/ip\<close>)\<close>

text \<open>
  The checker of trusted addresses and the strategies that choose the client address of a
  request. An address is the 16-byte form the sources compare (\<open>netip.Addr.As16\<close>,
  \<open>net.IP\<close>), a \<open>128 word\<close>, with IPv4 addresses in their IPv4-mapped form. The textual
  parsers of \<open>net\<close> and \<open>net/netip\<close> (\<open>ParseIP\<close>, \<open>ParseCIDR\<close>, \<open>ParseAddr\<close>) and the
  printer of addresses are fields of \<open>ipLib\<close>, an argument of the definitions.
\<close>

unbundle bit_operations_syntax

type_synonym ip = "128 word"

record ipnet =
  netIP :: ip
  netMask :: ip

text \<open>\<open>netip.Addr\<close>: the address, and whether it was written as an IPv4 address.\<close>

record addr =
  As16 :: ip
  addrIs4 :: bool

record ipLib =
  ParseIP :: "string \<Rightarrow> ip option"
  ParseCIDR :: "string \<Rightarrow> ipnet option"
  ParseAddr :: "string \<Rightarrow> addr option"
  AddrString :: "addr \<Rightarrow> string"

text \<open>\<open>net.IP.To4\<close>: the IPv4-mapped prefix \<open>::ffff:0:0/96\<close>.\<close>

definition is4 :: "ip \<Rightarrow> bool" where
  "is4 a \<longleftrightarrow> drop_bit 32 a = 0xFFFF"

text \<open>
  \<open>net.IPNet.Contains\<close>: an address of the other family is never contained; for IPv4 the
  last 32 bits are compared under the mask, otherwise all of them.
\<close>

definition IPNet_Contains :: "ipnet \<Rightarrow> ip \<Rightarrow> bool" where
  "IPNet_Contains n a \<longleftrightarrow>
     is4 (netIP n) = is4 a \<and>
     (if is4 a then netIP n AND netMask n AND 0xFFFFFFFF = a AND netMask n AND 0xFFFFFFFF
      else netIP n AND netMask n = a AND netMask n)"

subsection \<open>Checker\<close>

record checker =
  authorizedIPs :: "ip list"
  authorizedIPsNet :: "ipnet list"

fun addTrusted :: "ipLib \<Rightarrow> string list \<Rightarrow> checker \<Rightarrow> checker outcome" where
  "addTrusted L [] c = Ok c"
| "addTrusted L (ipMask # rest) c =
     (case ParseIP L ipMask of
        Some ipAddr \<Rightarrow> addTrusted L rest (c\<lparr>authorizedIPs := authorizedIPs c @ [ipAddr]\<rparr>)
      | None \<Rightarrow>
          (case ParseCIDR L ipMask of
             None \<Rightarrow> Err ''parsing CIDR trusted IPs''
           | Some n \<Rightarrow> addTrusted L rest (c\<lparr>authorizedIPsNet := authorizedIPsNet c @ [n]\<rparr>)))"

definition NewChecker :: "ipLib \<Rightarrow> string list \<Rightarrow> checker outcome" where
  "NewChecker L trustedIPs =
     (if trustedIPs = [] then Err ''no trusted IPs provided''
      else addTrusted L trustedIPs \<lparr>authorizedIPs = [], authorizedIPsNet = []\<rparr>)"

definition ContainsIP :: "checker \<Rightarrow> ip \<Rightarrow> bool" where
  "ContainsIP c a \<longleftrightarrow>
     list_ex (\<lambda>authorizedIP. authorizedIP = a) (authorizedIPs c) \<or>
     list_ex (\<lambda>authorizedNet. IPNet_Contains authorizedNet a) (authorizedIPsNet c)"

definition parseIP :: "ipLib \<Rightarrow> string \<Rightarrow> ip outcome" where
  "parseIP L a =
     (case ParseAddr L a of None \<Rightarrow> Err ''can't parse IP from address''
      | Some parsedAddr \<Rightarrow> Ok (As16 parsedAddr))"

definition Contains :: "ipLib \<Rightarrow> checker \<Rightarrow> string \<Rightarrow> bool outcome" where
  "Contains L c a =
     (if a = [] then Err ''empty IP address''
      else case parseIP L a of
        Ok ipAddr \<Rightarrow> Ok (ContainsIP c ipAddr)
      | _ \<Rightarrow> Err ''unable to parse address'')"

definition IsAuthorized :: "ipLib \<Rightarrow> checker \<Rightarrow> string \<Rightarrow> unit outcome" where
  "IsAuthorized L c a =
     (let host = (case SplitHostPort a of Some (h, _) \<Rightarrow> h | None \<Rightarrow> a)
      in case Contains L c host of
           Ok ok \<Rightarrow> if ok then Ok () else Err ''matched none of the trusted IPs''
         | Err e \<Rightarrow> Err e
         | Panic \<Rightarrow> Panic)"

subsection \<open>Strategies\<close>

definition xForwardedFor :: string where
  "xForwardedFor = ''X-Forwarded-For''"

text \<open>\<open>Addr.Prefix\<close> fails on a length outside the address's; otherwise it clears the host bits.\<close>

definition addr_Prefix :: "addr \<Rightarrow> int \<Rightarrow> addr option" where
  "addr_Prefix a b =
     (if b < 0 \<or> b > 128 then None
      else Some (a\<lparr>As16 := As16 a AND NOT (mask (128 - nat b))\<rparr>))"

definition getIPv6SubnetIP :: "ipLib \<Rightarrow> string \<Rightarrow> int \<Rightarrow> string" where
  "getIPv6SubnetIP L s ipv6Subnet =
     (case ParseAddr L s of
        None \<Rightarrow> s
      | Some a \<Rightarrow>
          if addrIs4 a then s
          else case addr_Prefix a ipv6Subnet of
            None \<Rightarrow> s
          | Some p \<Rightarrow> AddrString L p)"

definition RemoteAddrStrategy_GetIP :: "ipLib \<Rightarrow> int option \<Rightarrow> request \<Rightarrow> string" where
  "RemoteAddrStrategy_GetIP L IPv6Subnet req =
     (case SplitHostPort (RemoteAddr req) of
        None \<Rightarrow> RemoteAddr req
      | Some (h, _) \<Rightarrow>
          (case IPv6Subnet of None \<Rightarrow> h | Some n \<Rightarrow> getIPv6SubnetIP L h n))"

text \<open>
  \<open>Depth\<close> is a signed integer: zero or less passes the length test and indexes past the
  end of the slice.
\<close>

definition DepthStrategy_GetIP :: "ipLib \<Rightarrow> int \<Rightarrow> int option \<Rightarrow> request \<Rightarrow> string outcome" where
  "DepthStrategy_GetIP L Depth IPv6Subnet req =
     (let xffs = Split (Header_Get req xForwardedFor) (CHR '','') in
      if int (length xffs) < Depth then Ok []
      else if int (length xffs) - Depth \<ge> int (length xffs) then Panic
      else
        let a = TrimSpace (xffs ! nat (int (length xffs) - Depth)) in
        case IPv6Subnet of None \<Rightarrow> Ok a | Some n \<Rightarrow> Ok (getIPv6SubnetIP L a n))"

text \<open>The loop of \<open>PoolStrategy.GetIP\<close>, over the forwarded addresses from right to left.\<close>

fun pool_scan :: "ipLib \<Rightarrow> checker \<Rightarrow> string list \<Rightarrow> string" where
  "pool_scan L c [] = []"
| "pool_scan L c (x # xs) =
     (let xffTrimmed = TrimSpace x in
      if xffTrimmed = [] then pool_scan L c xs
      else if Contains L c xffTrimmed \<noteq> Ok True then xffTrimmed
      else pool_scan L c xs)"

definition PoolStrategy_GetIP :: "ipLib \<Rightarrow> checker option \<Rightarrow> request \<Rightarrow> string" where
  "PoolStrategy_GetIP L chk req =
     (case chk of
        None \<Rightarrow> []
      | Some c \<Rightarrow>
          pool_scan L c (rev (Split (Header_Get req xForwardedFor) (CHR '',''))))"

subsection \<open>Properties\<close>

text \<open>The specification of a trusted entry: an address, or else a network that contains it.\<close>

definition trusts :: "ipLib \<Rightarrow> string \<Rightarrow> ip \<Rightarrow> bool" where
  "trusts L s a \<longleftrightarrow>
     (case ParseIP L s of
        Some b \<Rightarrow> b = a
      | None \<Rightarrow> (case ParseCIDR L s of None \<Rightarrow> False | Some n \<Rightarrow> IPNet_Contains n a))"

lemma addTrusted_spec:
  "addTrusted L xs c0 = Ok c \<Longrightarrow>
     ContainsIP c a \<longleftrightarrow> ContainsIP c0 a \<or> (\<exists>s\<in>set xs. trusts L s a)"
proof (induction xs arbitrary: c0)
  case (Cons s xs)
  then show ?case
    by (cases "ParseIP L s"; cases "ParseCIDR L s")
      (auto simp: trusts_def ContainsIP_def)
qed simp

lemma addTrusted_error:
  "(\<exists>c. addTrusted L xs c0 = Ok c) \<longleftrightarrow>
     (\<forall>s\<in>set xs. ParseIP L s \<noteq> None \<or> ParseCIDR L s \<noteq> None)"
  by (induction xs arbitrary: c0) (auto split: option.splits)

lemma NewChecker_spec:
  assumes "NewChecker L xs = Ok c"
  shows "ContainsIP c a \<longleftrightarrow> (\<exists>s\<in>set xs. trusts L s a)"
  using assms addTrusted_spec [of L xs _ c a]
  by (auto simp: NewChecker_def ContainsIP_def split: if_splits)

lemma pool_scan_append:
  "pool_scan L c xs \<noteq> [] \<Longrightarrow> pool_scan L c (xs @ ys) = pool_scan L c xs"
  by (induction xs) (auto simp: Let_def split: if_splits)

lemma pool_scan_Some:
  "pool_scan L c xs = a \<Longrightarrow> a \<noteq> [] \<Longrightarrow>
     \<exists>us x vs. xs = us @ x # vs \<and> TrimSpace x = a \<and> Contains L c a \<noteq> Ok True \<and>
       (\<forall>u\<in>set us. TrimSpace u = [] \<or> Contains L c (TrimSpace u) = Ok True)"
proof (induction xs)
  case (Cons x xs)
  show ?case
  proof (cases "TrimSpace x = [] \<or> Contains L c (TrimSpace x) = Ok True")
    case True
    with Cons obtain us y vs where "xs = us @ y # vs" "TrimSpace y = a" "Contains L c a \<noteq> Ok True"
      "\<forall>u\<in>set us. TrimSpace u = [] \<or> Contains L c (TrimSpace u) = Ok True"
      by (auto simp: Let_def split: if_splits)
    with True have "x # xs = (x # us) @ y # vs \<and> TrimSpace y = a \<and> Contains L c a \<noteq> Ok True \<and>
      (\<forall>u\<in>set (x # us). TrimSpace u = [] \<or> Contains L c (TrimSpace u) = Ok True)"
      by auto
    then show ?thesis by blast
  next
    case False
    with Cons.prems have "x # xs = [] @ x # xs \<and> TrimSpace x = a \<and> Contains L c a \<noteq> Ok True"
      by (auto simp: Let_def)
    then show ?thesis by (metis empty_iff empty_set)
  qed
qed simp

lemma pool_scan_trusted:
  "pool_scan L c xs = [] \<longleftrightarrow>
     (\<forall>x\<in>set xs. TrimSpace x = [] \<or> Contains L c (TrimSpace x) = Ok True)"
  by (induction xs) (auto simp: Let_def)

lemma DepthStrategy_prefix:
  assumes "Header req' xForwardedFor = [p @ CHR '','' # h]"
    and "Header req xForwardedFor = [h]"
    and "0 < d" and "d \<le> int (length (Split h (CHR '','')))"
  shows "DepthStrategy_GetIP L d n req' = DepthStrategy_GetIP L d n req"
proof -
  let ?ps = "Split p (CHR '','')" and ?hs = "Split h (CHR '','')"
  have "nat (int (length (?ps @ ?hs)) - d) = length ?ps + nat (int (length ?hs) - d)"
    using assms(3,4) by (simp add: nat_diff_distrib)
  then have "(?ps @ ?hs) ! nat (int (length (?ps @ ?hs)) - d) = ?hs ! nat (int (length ?hs) - d)"
    by (simp only: nth_append_length_plus)
  with assms show ?thesis
    by (simp add: DepthStrategy_GetIP_def Header_Get_def Split_append_sep Let_def)
qed

text \<open>
  C40. Forwarded addresses cannot be spoofed from the left: whatever a client puts in front of
  the \<open>X-Forwarded-For\<close> value that the trusted proxies produced, the pool strategy
  still returns the same address (when it returns one at all), and so does the depth
  strategy for any depth the proxies' part covers.
\<close>

theorem forwarded_prefix_ignored:
  assumes "Header req' xForwardedFor = [p @ CHR '','' # h]"
    and "Header req xForwardedFor = [h]"
  shows "(PoolStrategy_GetIP L (Some c) req \<noteq> [] \<longrightarrow>
          PoolStrategy_GetIP L (Some c) req' = PoolStrategy_GetIP L (Some c) req) \<and>
         (0 < d \<and> d \<le> int (length (Split h (CHR '',''))) \<longrightarrow>
          DepthStrategy_GetIP L d n req' = DepthStrategy_GetIP L d n req)"
  using assms DepthStrategy_prefix [OF assms]
  by (auto simp: PoolStrategy_GetIP_def Header_Get_def Split_append_sep intro!: pool_scan_append)

text \<open>
  The address the pool strategy returns is the rightmost forwarded address outside the
  pool: every entry to its right is blank or trusted, and the empty answer means that
  every entry is.
\<close>

theorem pool_strategy_rightmost_untrusted:
  "if PoolStrategy_GetIP L (Some c) req = []
   then \<forall>x\<in>set (Split (Header_Get req xForwardedFor) (CHR '','')).
          TrimSpace x = [] \<or> Contains L c (TrimSpace x) = Ok True
   else \<exists>l x r. Split (Header_Get req xForwardedFor) (CHR '','') = l @ x # r \<and>
          TrimSpace x = PoolStrategy_GetIP L (Some c) req \<and>
          Contains L c (TrimSpace x) \<noteq> Ok True \<and>
          (\<forall>y\<in>set r. TrimSpace y = [] \<or> Contains L c (TrimSpace y) = Ok True)"
proof (cases "PoolStrategy_GetIP L (Some c) req = []")
  case True
  then have "pool_scan L c (rev (Split (Header_Get req xForwardedFor) (CHR '',''))) = []"
    by (simp add: PoolStrategy_GetIP_def)
  with True show ?thesis by (simp add: pool_scan_trusted)
next
  case False
  let ?a = "PoolStrategy_GetIP L (Some c) req"
  obtain us x vs where
    "rev (Split (Header_Get req xForwardedFor) (CHR '','')) = us @ x # vs"
    and x: "TrimSpace x = ?a" "Contains L c ?a \<noteq> Ok True"
      "\<forall>u\<in>set us. TrimSpace u = [] \<or> Contains L c (TrimSpace u) = Ok True"
    using pool_scan_Some [OF _ False] by (fastforce simp: PoolStrategy_GetIP_def)
  then have split: "Split (Header_Get req xForwardedFor) (CHR '','') = rev vs @ x # rev us"
    by (simp add: rev_swap)
  have "Split (Header_Get req xForwardedFor) (CHR '','') = rev vs @ x # rev us \<and>
      TrimSpace x = ?a \<and> Contains L c (TrimSpace x) \<noteq> Ok True \<and>
      (\<forall>y\<in>set (rev us). TrimSpace y = [] \<or> Contains L c (TrimSpace y) = Ok True)"
    using split x by simp
  with False show ?thesis by (simp only: if_False) blast
qed

text \<open>The hypotheses can be met: a private-network proxy in front of a spoofing client.\<close>

definition demo_lib :: ipLib where
  "demo_lib = \<lparr>
     ParseIP = (\<lambda>s. None),
     ParseCIDR = (\<lambda>s. if s = ''10.0.0.0/8''
        then Some \<lparr>netIP = 0xFFFF0A000000, netMask = 0xFFFFFFFFFFFFFFFFFFFFFFFFFF000000\<rparr> else None),
     ParseAddr = (\<lambda>s. if s = ''10.1.2.3'' then Some \<lparr>As16 = 0xFFFF0A010203, addrIs4 = True\<rparr>
        else if s = ''8.8.8.8'' then Some \<lparr>As16 = 0xFFFF08080808, addrIs4 = True\<rparr> else None),
     AddrString = (\<lambda>_. [])\<rparr>"

definition demo_checker :: checker where
  "demo_checker = \<lparr>authorizedIPs = [],
     authorizedIPsNet = [\<lparr>netIP = 0xFFFF0A000000, netMask = 0xFFFFFFFFFFFFFFFFFFFFFFFFFF000000\<rparr>]\<rparr>"

definition demo_request :: "string \<Rightarrow> request" where
  "demo_request xff = \<lparr>Method = ''GET'', EscapedPath = ''/'', URLQuery = Map.empty,
     Header = (\<lambda>k. if k = ''X-Forwarded-For'' then [xff] else []), RemoteAddr = ''10.1.2.3:80'',
     Cookies = Map.empty, ctxRoutingPath = None, ctxCanonicalHost = None, ctxFlattenHost = None\<rparr>"

lemma demo_pool: "PoolStrategy_GetIP demo_lib (Some demo_checker) (demo_request ''8.8.8.8,10.1.2.3'') = ''8.8.8.8''"
  by code_simp

theorem forwarded_prefix_ignored_witness:
  "PoolStrategy_GetIP demo_lib (Some demo_checker) (demo_request ''1.1.1.1,8.8.8.8,10.1.2.3'') = ''8.8.8.8'' \<and>
   DepthStrategy_GetIP demo_lib 2 None (demo_request ''1.1.1.1,8.8.8.8,10.1.2.3'')
     = DepthStrategy_GetIP demo_lib 2 None (demo_request ''8.8.8.8,10.1.2.3'')"
proof -
  have h': "Header (demo_request ''1.1.1.1,8.8.8.8,10.1.2.3'') xForwardedFor
      = [''1.1.1.1'' @ CHR '','' # ''8.8.8.8,10.1.2.3'']"
    by (simp add: demo_request_def xForwardedFor_def)
  have h: "Header (demo_request ''8.8.8.8,10.1.2.3'') xForwardedFor = [''8.8.8.8,10.1.2.3'']"
    by (simp add: demo_request_def xForwardedFor_def)
  have n: "(2::int) \<le> int (length (Split ''8.8.8.8,10.1.2.3'' (CHR '','')))"
    by simp
  show ?thesis
    using forwarded_prefix_ignored [OF h' h, of demo_lib demo_checker 2 None] n demo_pool by simp
qed

theorem pool_strategy_rightmost_untrusted_witness:
  "\<exists>l x r. Split ''8.8.8.8,10.1.2.3'' (CHR '','') = l @ x # r \<and> TrimSpace x = ''8.8.8.8'' \<and>
     Contains demo_lib demo_checker (TrimSpace x) \<noteq> Ok True \<and>
     (\<forall>y\<in>set r. TrimSpace y = [] \<or> Contains demo_lib demo_checker (TrimSpace y) = Ok True)"
proof -
  have h: "Header_Get (demo_request ''8.8.8.8,10.1.2.3'') xForwardedFor = ''8.8.8.8,10.1.2.3''"
    by (simp add: demo_request_def xForwardedFor_def Header_Get_def)
  show ?thesis
    using pool_strategy_rightmost_untrusted
      [of demo_lib demo_checker "demo_request ''8.8.8.8,10.1.2.3''"]
    unfolding demo_pool h by simp
qed

end
