(* ===== verification/HttpMuxer.thy ===== *)
theory HttpMuxer
  imports Rules IpCheck UrlPath "HOL-Library.AList"
begin

section \<open>The HTTP router (\<open>pkg/muxer/http\<close>)\<close>

text \<open>
  The muxer turns the rule of each route into a tree of matchers and serves a request with
  the first route, in decreasing priority, whose tree matches. Modelled: the matchers of
  the v3 syntax, the matcher tree, its construction and evaluation, the parsers by syntax,
  \<open>AddRoute\<close>, \<open>ServeHTTP\<close> and the routing path. The functions of the v2 syntax wrap the
  third-party gorilla/mux router and are an argument, as are regular expressions and the
  address parsers.
\<close>

subsection \<open>Matcher trees\<close>

datatype matchersTree =
  MTree (matcher: "(request \<Rightarrow> bool) option") (operator: string)
    (left: "matchersTree option") (right: "matchersTree option")

definition empty_tree :: matchersTree where
  "empty_tree = MTree None [] None None"

type_synonym matcherBuilderFunc = "matchersTree \<Rightarrow> string list \<Rightarrow> matchersTree outcome"

text \<open>A map of builders, listed in the order in which the source iterates over it.\<close>

type_synonym matcherBuilderFuncs = "(string \<times> matcherBuilderFunc) list"

definition set_matcher :: "matchersTree \<Rightarrow> (request \<Rightarrow> bool) \<Rightarrow> matchersTree" where
  "set_matcher t f = MTree (Some f) (operator t) (left t) (right t)"

text \<open>A nil tree and an unknown operator match nothing.\<close>

fun match_tree :: "matchersTree \<Rightarrow> request \<Rightarrow> bool" where
  "match_tree (MTree m op l r) req =
     (case m of
        Some f \<Rightarrow> f req
      | None \<Rightarrow>
          if op = or_op then
            (case l of None \<Rightarrow> False | Some l' \<Rightarrow> match_tree l' req) \<or>
            (case r of None \<Rightarrow> False | Some r' \<Rightarrow> match_tree r' req)
          else if op = and_op then
            (case l of None \<Rightarrow> False | Some l' \<Rightarrow> match_tree l' req) \<and>
            (case r of None \<Rightarrow> False | Some r' \<Rightarrow> match_tree r' req)
          else False)"

text \<open>
  A matcher name without a builder is a call of a nil function. A builder that returned
  no error has set the matcher; negating one that has not is taken as the same panic.
\<close>

fun addRule :: "matchersTree \<Rightarrow> tree \<Rightarrow> matcherBuilderFuncs \<Rightarrow> matchersTree outcome" where
  "addRule m (Tree name n v l r) funcs =
     (if name = and_op \<or> name = or_op then
        (case l of None \<Rightarrow> Panic
         | Some l' \<Rightarrow> bind_outcome (addRule empty_tree l' funcs) (\<lambda>ml.
           (case r of None \<Rightarrow> Panic
            | Some r' \<Rightarrow> bind_outcome (addRule empty_tree r' funcs) (\<lambda>mr.
                Ok (MTree (matcher m) name (Some ml) (Some mr))))))
      else
        (case CheckRule (Tree name n v l r) of
           Some e \<Rightarrow> Err e
         | None \<Rightarrow>
             (case map_of funcs name of
                None \<Rightarrow> Panic
              | Some f \<Rightarrow> bind_outcome (f m v) (\<lambda>m'.
                  if n then
                    (case matcher m' of
                       None \<Rightarrow> Panic
                     | Some matcherFunc \<Rightarrow> Ok (set_matcher m' (\<lambda>req. \<not> matcherFunc req)))
                  else Ok m'))))"

subsection \<open>Matchers\<close>

record httpLib =
  ips :: ipLib
  RegexpCompile :: "string \<Rightarrow> (string \<Rightarrow> bool) option"

definition GetCanonizedHost :: "request \<Rightarrow> string" where
  "GetCanonizedHost req = (case ctxCanonicalHost req of Some h \<Rightarrow> h | None \<Rightarrow> [])"

definition GetCNAMEFlatten :: "request \<Rightarrow> string" where
  "GetCNAMEFlatten req = (case ctxFlattenHost req of Some h \<Rightarrow> h | None \<Rightarrow> [])"

definition getRoutingPath :: "request \<Rightarrow> string option" where
  "getRoutingPath req = ctxRoutingPath req"

definition IsASCII :: "string \<Rightarrow> bool" where
  "IsASCII s \<longleftrightarrow> list_all is_ascii_char s"

definition expectNParameters :: "matcherBuilderFunc \<Rightarrow> nat list \<Rightarrow> matcherBuilderFunc" where
  "expectNParameters fn n = (\<lambda>t s.
     if length s \<notin> set n then Err ''unexpected number of parameters'' else fn t s)"

definition clientIP :: "httpLib \<Rightarrow> matcherBuilderFunc" where
  "clientIP L = (\<lambda>t ipStrings.
     case NewChecker (ips L) ipStrings of
       Ok chk \<Rightarrow> Ok (set_matcher t (\<lambda>req.
         case Contains (ips L) chk (RemoteAddrStrategy_GetIP (ips L) None req) of
           Ok ok \<Rightarrow> ok
         | _ \<Rightarrow> False))
     | Err e \<Rightarrow> Err ''initializing IP checker for ClientIP matcher''
     | Panic \<Rightarrow> Panic)"

definition method_matcher :: "matcherBuilderFunc" where
  "method_matcher = (\<lambda>t methods. case methods of [] \<Rightarrow> Panic
     | m # _ \<Rightarrow> Ok (set_matcher t (\<lambda>req. ToUpper m = Method req)))"

text \<open>The test on a canonical request host, after the value has been lowered.\<close>

definition host_matches :: "string \<Rightarrow> request \<Rightarrow> bool" where
  "host_matches h req =
     (let reqHost = GetCanonizedHost req; flatH = GetCNAMEFlatten req in
      if reqHost = [] then False
      else if reqHost = h then True
      else if flatH \<noteq> [] then EqualFold flatH h
      else if h \<noteq> [] \<and> last h = CHR ''.'' \<and> reqHost = butlast h then True
      else if last reqHost = CHR ''.'' \<and> butlast reqHost = h then True
      else False)"

definition host :: "matcherBuilderFunc" where
  "host = (\<lambda>t hosts. case hosts of [] \<Rightarrow> Panic
     | h # _ \<Rightarrow>
         if \<not> IsASCII h then Err ''invalid value for Host matcher''
         else Ok (set_matcher t (host_matches (ToLower h))))"

definition hostRegexp :: "httpLib \<Rightarrow> matcherBuilderFunc" where
  "hostRegexp L = (\<lambda>t hosts. case hosts of [] \<Rightarrow> Panic
     | h # _ \<Rightarrow>
         if \<not> IsASCII h then Err ''invalid value for HostRegexp matcher''
         else case RegexpCompile L h of
           None \<Rightarrow> Err ''compiling HostRegexp matcher''
         | Some re \<Rightarrow> Ok (set_matcher t (\<lambda>req. re (GetCanonizedHost req) \<or> re (GetCNAMEFlatten req))))"

definition path :: "matcherBuilderFunc" where
  "path = (\<lambda>t paths. case paths of [] \<Rightarrow> Panic
     | p # _ \<Rightarrow>
         if \<not> HasPrefix p ''/'' then Err ''path does not start with a slash''
         else Ok (set_matcher t (\<lambda>req. getRoutingPath req = Some p)))"

definition pathRegexp :: "httpLib \<Rightarrow> matcherBuilderFunc" where
  "pathRegexp L = (\<lambda>t paths. case paths of [] \<Rightarrow> Panic
     | p # _ \<Rightarrow>
         (case RegexpCompile L p of
            None \<Rightarrow> Err ''compiling PathPrefix matcher''
          | Some re \<Rightarrow> Ok (set_matcher t (\<lambda>req.
              case getRoutingPath req of None \<Rightarrow> False | Some rp \<Rightarrow> re rp))))"

definition pathPrefix :: "matcherBuilderFunc" where
  "pathPrefix = (\<lambda>t paths. case paths of [] \<Rightarrow> Panic
     | p # _ \<Rightarrow>
         if \<not> HasPrefix p ''/'' then Err ''path does not start with a slash''
         else Ok (set_matcher t (\<lambda>req.
           case getRoutingPath req of None \<Rightarrow> False | Some rp \<Rightarrow> HasPrefix rp p)))"

text \<open>
  \<open>http.CanonicalHeaderKey\<close>: a key with a byte that is not a token character is left alone;
  otherwise the first letter and each letter after a hyphen is upper case, the rest lower.
\<close>

definition validHeaderFieldByte :: "char \<Rightarrow> bool" where
  "validHeaderFieldByte c \<longleftrightarrow> unreserved c \<or> c \<in> set ''!#$%&*+^`|'' \<or> c = CHR 0x27"

fun canonical_key :: "bool \<Rightarrow> string \<Rightarrow> string" where
  "canonical_key up [] = []"
| "canonical_key up (c # cs) =
     (if up then upper_char c else lower_char c) # canonical_key (c = CHR ''-'') cs"

definition CanonicalHeaderKey :: "string \<Rightarrow> string" where
  "CanonicalHeaderKey s = (if list_all validHeaderFieldByte s then canonical_key True s else s)"

definition header :: "matcherBuilderFunc" where
  "header = (\<lambda>t headers. case headers of
       k # v # _ \<Rightarrow> Ok (set_matcher t (\<lambda>req. v \<in> set (Header req (CanonicalHeaderKey k))))
     | _ \<Rightarrow> Panic)"

definition headerRegexp :: "httpLib \<Rightarrow> matcherBuilderFunc" where
  "headerRegexp L = (\<lambda>t headers. case headers of
       k # v # _ \<Rightarrow>
         (case RegexpCompile L v of
            None \<Rightarrow> Err ''compiling HeaderRegexp matcher''
          | Some re \<Rightarrow> Ok (set_matcher t (\<lambda>req. list_ex re (Header req (CanonicalHeaderKey k)))))
     | _ \<Rightarrow> Panic)"

definition query :: "matcherBuilderFunc" where
  "query = (\<lambda>t queries. case queries of [] \<Rightarrow> Panic
     | key # rest \<Rightarrow>
         let val = (case rest of [v] \<Rightarrow> v | _ \<Rightarrow> []) in
         Ok (set_matcher t (\<lambda>req.
           case URLQuery req key of None \<Rightarrow> False | Some values \<Rightarrow> val \<in> set values)))"

definition queryRegexp :: "httpLib \<Rightarrow> matcherBuilderFunc" where
  "queryRegexp L = (\<lambda>t queries. case queries of
       [] \<Rightarrow> Panic
     | [_] \<Rightarrow> query t queries
     | key # v # _ \<Rightarrow>
         (case RegexpCompile L v of
            None \<Rightarrow> Err ''compiling QueryRegexp matcher''
          | Some re \<Rightarrow> Ok (set_matcher t (\<lambda>req.
              case URLQuery req key of None \<Rightarrow> False | Some values \<Rightarrow> list_ex re values))))"

definition httpFuncs :: "httpLib \<Rightarrow> matcherBuilderFuncs" where
  "httpFuncs L =
     [(''ClientIP'', expectNParameters (clientIP L) [1]),
      (''Method'', expectNParameters method_matcher [1]),
      (''Host'', expectNParameters host [1]),
      (''HostRegexp'', expectNParameters (hostRegexp L) [1]),
      (''Path'', expectNParameters path [1]),
      (''PathRegexp'', expectNParameters (pathRegexp L) [1]),
      (''PathPrefix'', expectNParameters pathPrefix [1]),
      (''Header'', expectNParameters header [2]),
      (''HeaderRegexp'', expectNParameters (headerRegexp L) [2]),
      (''Query'', expectNParameters query [1, 2]),
      (''QueryRegexp'', expectNParameters (queryRegexp L) [1, 2])]"

subsection \<open>Parsers by rule syntax\<close>

record parser =
  parser_def :: predicate_def
  matcherFuncs :: matcherBuilderFuncs

definition newParser :: "(string \<Rightarrow> string) \<Rightarrow> matcherBuilderFuncs \<Rightarrow> parser" where
  "newParser title funcs = \<lparr>parser_def = NewParser title (map fst funcs), matcherFuncs = funcs\<rparr>"

text \<open>
  An option writes into the maps of builders, which are package variables: what it adds is
  still there for later parsers, so \<open>NewSyntaxParser\<close> returns the maps as well. The maps by syntax are \<open>v2\<close> and \<open>v3\<close>; writing
  into any other one is an assignment to a nil map.
\<close>

type_synonym syntaxFuncs = "(string \<times> matcherBuilderFuncs) list"
type_synonym Options = "syntaxFuncs \<Rightarrow> syntaxFuncs outcome"

definition WithMatcher ::
  "string \<Rightarrow> string \<Rightarrow> (string list \<Rightarrow> (request \<Rightarrow> bool) outcome) \<Rightarrow> Options" where
  "WithMatcher syntx matcherName builderFunc = (\<lambda>sf.
     case map_of sf (ToLower syntx) of
       None \<Rightarrow> Panic
     | Some funcs \<Rightarrow>
         let f = (\<lambda>t s. case builderFunc s of
                    Ok m \<Rightarrow> Ok (set_matcher t m)
                  | Err e \<Rightarrow> Err ''building matcher''
                  | Panic \<Rightarrow> Panic)
         in Ok (AList.update (ToLower syntx) (AList.update matcherName f funcs) sf))"

fun apply_options :: "Options list \<Rightarrow> syntaxFuncs \<Rightarrow> syntaxFuncs outcome" where
  "apply_options [] sf = Ok sf"
| "apply_options (opt # opts) sf = bind_outcome (opt sf) (apply_options opts)"

type_synonym SyntaxParser = "(string \<times> parser) list"

definition NewSyntaxParser ::
  "(string \<Rightarrow> string) \<Rightarrow> matcherBuilderFuncs \<Rightarrow> matcherBuilderFuncs \<Rightarrow> Options list
   \<Rightarrow> (SyntaxParser \<times> syntaxFuncs) outcome" where
  "NewSyntaxParser title funcsV2 funcsV3 opts =
     bind_outcome (apply_options opts [(''v2'', funcsV2), (''v3'', funcsV3)]) (\<lambda>sf.
       Ok (map (\<lambda>(syntx, funcs). (syntx, newParser title funcs)) sf, sf))"

definition parser_parse :: "predicate_parser \<Rightarrow> parser \<Rightarrow> string \<Rightarrow> matchersTree outcome" where
  "parser_parse Parse p rule =
     bind_outcome (Parse (parser_def p) rule) (\<lambda>parsed.
       case parsed of
         None \<Rightarrow> Err ''obtaining build tree''
       | Some buildTree \<Rightarrow> bind_outcome (buildTree ()) (\<lambda>t. addRule empty_tree t (matcherFuncs p)))"

definition SyntaxParser_parse ::
  "predicate_parser \<Rightarrow> SyntaxParser \<Rightarrow> string \<Rightarrow> string \<Rightarrow> matchersTree outcome" where
  "SyntaxParser_parse Parse s syntx rule =
     (case map_of s syntx of
        Some p \<Rightarrow> parser_parse Parse p rule
      | None \<Rightarrow> (case map_of s ''v3'' of
                   Some p \<Rightarrow> parser_parse Parse p rule
                 | None \<Rightarrow> Panic))"

definition ParseDomains ::
  "(string \<Rightarrow> string) \<Rightarrow> predicate_parser \<Rightarrow> matcherBuilderFuncs \<Rightarrow> matcherBuilderFuncs \<Rightarrow> string
   \<Rightarrow> string list outcome" where
  "ParseDomains title Parse funcs funcsV2 rule =
     bind_outcome (Parse (NewParser title (map fst funcs @ map fst funcsV2)) rule) (\<lambda>parsed.
       case parsed of
         None \<Rightarrow> Err ''error while parsing rule''
       | Some buildTree \<Rightarrow> bind_outcome (buildTree ()) (\<lambda>t. ParseMatchers t [''Host'']))"

subsection \<open>The muxer\<close>

record 'h route =
  matchers :: matchersTree
  handler :: 'h
  priority :: int

text \<open>\<^const>\<open>None\<close> as default handler is the library's handler that answers 404.\<close>

record 'h muxer =
  routes :: "'h route list"
  mux_parser :: SyntaxParser
  defaultHandler :: "'h option"

definition NewMuxer :: "SyntaxParser \<Rightarrow> 'h muxer" where
  "NewMuxer p = \<lparr>routes = [], mux_parser = p, defaultHandler = None\<rparr>"

definition SetDefaultHandler :: "'h \<Rightarrow> 'h muxer \<Rightarrow> 'h muxer" where
  "SetDefaultHandler h m = m\<lparr>defaultHandler := Some h\<rparr>"

definition GetRulePriority :: "string \<Rightarrow> int" where
  "GetRulePriority rule = int (length rule)"

definition route_less :: "'h route \<Rightarrow> 'h route \<Rightarrow> bool" where
  "route_less r s \<longleftrightarrow> priority r > priority s"

definition AddRoute ::
  "('h route list \<Rightarrow> 'h route list) \<Rightarrow> predicate_parser \<Rightarrow> string \<Rightarrow> string \<Rightarrow> int \<Rightarrow> 'h
   \<Rightarrow> 'h muxer \<Rightarrow> 'h muxer outcome" where
  "AddRoute srt Parse rule syntx prio h m =
     (case SyntaxParser_parse Parse (mux_parser m) syntx rule of
        Ok mt \<Rightarrow> Ok (m\<lparr>routes := srt (routes m @ [\<lparr>matchers = mt, handler = h, priority = prio\<rparr>])\<rparr>)
      | Err e \<Rightarrow> Err (''error while parsing rule'' @ e)
      | Panic \<Rightarrow> Panic)"

definition withRoutingPath :: "request \<Rightarrow> request outcome" where
  "withRoutingPath req =
     bind_outcome (routing_path (EscapedPath req)) (\<lambda>rp. Ok (req\<lparr>ctxRoutingPath := Some rp\<rparr>))"

datatype 'h served = BadRequest | NotFound | Served 'h request

definition ServeHTTP :: "'h muxer \<Rightarrow> request \<Rightarrow> 'h served" where
  "ServeHTTP m req =
     (case withRoutingPath req of
        Ok req' \<Rightarrow>
          (case find (\<lambda>r. match_tree (matchers r) req') (routes m) of
             Some r \<Rightarrow> Served (handler r) req'
           | None \<Rightarrow> (case defaultHandler m of None \<Rightarrow> NotFound | Some h \<Rightarrow> Served h req'))
      | _ \<Rightarrow> BadRequest)"

subsection \<open>What the builders promise\<close>

text \<open>What a matcher call means on its own: the tree its builder makes, applied to the request.\<close>

definition matcher_meaning :: "matcherBuilderFuncs \<Rightarrow> request \<Rightarrow> string \<Rightarrow> string list \<Rightarrow> bool" where
  "matcher_meaning funcs req n v = (case map_of funcs n of None \<Rightarrow> False
     | Some f \<Rightarrow> (case f empty_tree v of Ok t \<Rightarrow> match_tree t req | _ \<Rightarrow> False))"

text \<open>
  The contract between \<open>addRule\<close> and a map of builders: no builder is named like an operator,
  none panics on a non-empty argument list, and one that succeeds does nothing but set the
  matcher of the node it is given, to a function of its arguments only.
\<close>

locale matcher_builders =
  fixes funcs :: matcherBuilderFuncs
  assumes names: "and_op \<notin> fst ` set funcs" "or_op \<notin> fst ` set funcs"
    and no_panic: "map_of funcs n = Some f \<Longrightarrow> v \<noteq> [] \<Longrightarrow> f t v \<noteq> Panic"
    and sets_matcher: "map_of funcs n = Some f \<Longrightarrow> f t v = Ok t' \<Longrightarrow> \<exists>g. \<forall>t. f t v = Ok (set_matcher t g)"
begin

lemma match_set_matcher: "match_tree (set_matcher t g) req = g req"
  by (simp add: set_matcher_def)

lemma addRule_eval:
  "wf_tree t \<Longrightarrow> addRule empty_tree t funcs = Ok mt \<Longrightarrow> match_tree mt req = eval_tree (matcher_meaning funcs req) t"
proof (induction arbitrary: mt rule: wf_tree.induct)
  case (leaf m n v)
  then obtain f mt0 where f: "map_of funcs m = Some f" "f empty_tree v = Ok mt0"
    and mt: "if n then \<exists>g. matcher mt0 = Some g \<and> mt = set_matcher mt0 (\<lambda>req. \<not> g req) else mt = mt0"
    by (auto split: option.splits if_splits)
  obtain g where "mt0 = set_matcher empty_tree g"
    using sets_matcher [OF f] f(2) by auto
  then show ?case
    using f mt leaf.hyps by (auto simp: matcher_meaning_def set_matcher_def split: if_splits)
next
  case (conj l r n v)
  then show ?case by (auto simp: empty_tree_def)
next
  case (disj l r n v)
  then show ?case by (auto simp: empty_tree_def)
qed

lemma addRule_no_panic:
  "wf_tree t \<Longrightarrow> (\<And>n. n \<in> matcher_names t \<Longrightarrow> map_of funcs n \<noteq> None) \<Longrightarrow> addRule m t funcs \<noteq> Panic"
proof (induction arbitrary: m rule: wf_tree.induct)
  case (leaf n neg v)
  then obtain f where f: "map_of funcs n = Some f" by auto
  have "f m v \<noteq> Panic" if "CheckRule (Tree n neg v None None) = None"
    using that no_panic [OF f] by (auto simp: CheckRule_def split: if_splits)
  moreover have "matcher m' \<noteq> None" if "f m v = Ok m'" for m'
    using sets_matcher [OF f that] that by (auto simp: set_matcher_def)
  ultimately show ?case
    using leaf.hyps f by (auto simp: bind_outcome_Panic_iff split: option.splits)
qed (auto simp: bind_outcome_Panic_iff)

end


lemma httpFuncs_names: "and_op \<notin> fst ` set (httpFuncs L)" "or_op \<notin> fst ` set (httpFuncs L)"
  by (simp_all add: httpFuncs_def and_op_def or_op_def)

definition builder_ok :: "matcherBuilderFunc \<Rightarrow> bool" where
  "builder_ok f \<longleftrightarrow> (\<forall>t v. f t v \<noteq> Panic \<and>
     (\<forall>t'. f t v = Ok t' \<longrightarrow> (\<exists>g. \<forall>t. f t v = Ok (set_matcher t g))))"

lemma addTrusted_no_panic: "addTrusted L xs c \<noteq> Panic"
  by (induction xs arbitrary: c) (auto split: option.splits)

lemma builder_ok_matchers:
  "builder_ok (expectNParameters (clientIP L) [1])"
  "builder_ok (expectNParameters method_matcher [1])"
  "builder_ok (expectNParameters host [1])"
  "builder_ok (expectNParameters (hostRegexp L) [1])"
  "builder_ok (expectNParameters path [1])"
  "builder_ok (expectNParameters (pathRegexp L) [1])"
  "builder_ok (expectNParameters pathPrefix [1])"
  "builder_ok (expectNParameters header [2])"
  "builder_ok (expectNParameters (headerRegexp L) [2])"
  "builder_ok (expectNParameters query [1, 2])"
  "builder_ok (expectNParameters (queryRegexp L) [1, 2])"
  by (auto simp: builder_ok_def expectNParameters_def clientIP_def NewChecker_def addTrusted_no_panic
      method_matcher_def host_def hostRegexp_def path_def pathRegexp_def pathPrefix_def header_def
      headerRegexp_def query_def queryRegexp_def Let_def
      split: list.splits option.splits outcome.splits if_splits)

lemma httpFuncs_ok:
  assumes "map_of (httpFuncs L) n = Some f"
  shows "builder_ok f"
proof -
  have "list_all (\<lambda>p. builder_ok (snd p)) (httpFuncs L)"
    by (simp add: httpFuncs_def builder_ok_matchers del: One_nat_def)
  then show ?thesis
    using map_of_SomeD [OF assms] by (auto simp: list_all_iff)
qed

interpretation v3: matcher_builders "httpFuncs L" for L
  using httpFuncs_names httpFuncs_ok unfolding builder_ok_def by unfold_locales blast+

subsection \<open>Rules mean what they say\<close>

text \<open>
  C2. The v3 rule language is boolean. Whatever rule is given, parsing it and
  building its matchers never panics; and when a matcher tree results, the predicate parser
  accepted the rule as an expression and the tree matches exactly the requests that satisfy
  the expression, each matcher call meaning what its builder makes of it. Negations of
  any nesting are covered: they have been pushed to the leaves.
\<close>

theorem rule_semantics:
  assumes "predicate_contract Parse ast"
  shows "parser_parse Parse (newParser title (httpFuncs L)) rule \<noteq> Panic \<and>
    (\<forall>mt. parser_parse Parse (newParser title (httpFuncs L)) rule = Ok mt \<longrightarrow>
      (\<exists>ex. ast rule = Some ex \<and> (\<forall>req. match_tree mt req =
        eval_expr (parserFuncs title (map fst (httpFuncs L)) Map.empty) (matcher_meaning (httpFuncs L) req) ex)))"
proof (cases "Parse (NewParser title (map fst (httpFuncs L))) rule")
  case (Ok b')
  show ?thesis
  proof (cases b')
    case (Some b)
    obtain ex where ex: "ast rule = Some ex" "interp (NewParser title (map fst (httpFuncs L))) ex = Ok b"
      using Parse_call [OF assms, of "NewParser title (map fst (httpFuncs L))" rule b] Ok Some by auto
    obtain t where t: "b () = Ok t" "wf_tree t" "matcher_names t \<subseteq> fst ` set (httpFuncs L)"
      "\<forall>I. eval_tree I t = eval_expr (parserFuncs title (map fst (httpFuncs L)) Map.empty) I ex"
      using interp_builds [OF _ _ ex(2)] httpFuncs_names by (metis list.set_map)
    have "addRule empty_tree t (httpFuncs L) \<noteq> Panic"
      using t(3) by (intro v3.addRule_no_panic [OF t(2)]) (auto simp: map_of_eq_None_iff)
    with Ok Some t ex v3.addRule_eval [OF t(2)] show ?thesis
      by (simp add: parser_parse_def newParser_def)
  qed (simp add: Ok parser_parse_def newParser_def)
qed (use Parse_no_panic [OF assms, of title "map fst (httpFuncs L)" rule]
    in \<open>simp_all add: parser_parse_def newParser_def\<close>)

text \<open>A predicate parser and a rule for the witnesses.\<close>

definition demo_ast :: "string \<Rightarrow> expr option" where
  "demo_ast rule =
     (if rule = ''!(METHOD(`get`) && Path(`/a`))'' then Some (Neg (Conj (Call ''METHOD'' [''get'']) (Call ''Path'' [''/a''])))
      else if rule = ''PathPrefix(`/`)'' then Some (Call ''PathPrefix'' [''/''])
      else if rule = ''Path(`/a`)'' then Some (Call ''Path'' [''/a''])
      else None)"

definition demo_Parse :: predicate_parser where
  "demo_Parse d rule = (case demo_ast rule of None \<Rightarrow> Err ''syntax error''
     | Some ex \<Rightarrow> bind_outcome (interp d ex) (\<lambda>b. Ok (Some b)))"

definition demo_title :: "string \<Rightarrow> string" where
  "demo_title s = canonical_key True s"

definition demo_http :: httpLib where
  "demo_http = \<lparr>ips = demo_lib, RegexpCompile = (\<lambda>p. Some (\<lambda>s. s = p))\<rparr>"

lemma demo_contract: "predicate_contract demo_Parse demo_ast"
  by (auto simp: predicate_contract_def demo_Parse_def split: option.split)

definition demo_get :: request where
  "demo_get = (demo_request [])\<lparr>Method := ''GET'', EscapedPath := ''/a''\<rparr>"

theorem rule_semantics_witness:
  "\<exists>mt. parser_parse demo_Parse (newParser demo_title (httpFuncs demo_http)) ''!(METHOD(`get`) && Path(`/a`))'' = Ok mt
    \<and> (\<forall>req. match_tree mt req = (\<not> (Method req = ''GET'' \<and> ctxRoutingPath req = Some ''/a'')))"
proof -
  let ?fs = "httpFuncs demo_http"
  let ?rule = "''!(METHOD(`get`) && Path(`/a`))''"
  have names: "parserFuncs demo_title (map fst ?fs) Map.empty ''METHOD'' = Some ''Method''"
    "parserFuncs demo_title (map fst ?fs) Map.empty ''Path'' = Some ''Path''"
    unfolding httpFuncs_def list.map fst_conv by code_simp+
  have "ToUpper ''get'' = ''GET''" by code_simp
  then have m: "matcher_meaning ?fs req ''Method'' [''get''] = (Method req = ''GET'')"
    "matcher_meaning ?fs req ''Path'' [''/a''] = (ctxRoutingPath req = Some ''/a'')" for req
    by (auto simp: matcher_meaning_def httpFuncs_def expectNParameters_def method_matcher_def path_def
        set_matcher_def HasPrefix_def getRoutingPath_def)
  have "\<exists>mt. parser_parse demo_Parse (newParser demo_title ?fs) ?rule = Ok mt"
    using names
    by (simp add: parser_parse_def newParser_def demo_Parse_def demo_ast_def NewParser_def notFunc_def
        andFunc_def matcher_func_def, simp add: httpFuncs_def CheckRule_def expectNParameters_def
        method_matcher_def path_def set_matcher_def HasPrefix_def and_op_def or_op_def)
  then obtain mt where mt: "parser_parse demo_Parse (newParser demo_title ?fs) ?rule = Ok mt" by blast
  have "demo_ast ?rule = Some (Neg (Conj (Call ''METHOD'' [''get'']) (Call ''Path'' [''/a''])))"
    by (simp add: demo_ast_def)
  with rule_semantics [OF demo_contract, of demo_title demo_http ?rule] mt names m show ?thesis by auto
qed

subsection \<open>Route selection\<close>

interpretation route_order: strict_weak_order route_less
  by unfold_locales (auto simp: route_less_def)

interpretation route_sort: sort_Sort route_less "insertionSort route_less"
  by (rule route_order.insertionSort_sort_Sort)

text \<open>
  The routes of an entry point, added one after the other; a rule that does not parse is
  reported and skipped, as the router factory does.
\<close>

type_synonym 'h route_spec = "string \<times> string \<times> int \<times> 'h"

fun add_routes ::
  "('h route list \<Rightarrow> 'h route list) \<Rightarrow> predicate_parser \<Rightarrow> 'h route_spec list \<Rightarrow> 'h muxer \<Rightarrow> 'h muxer" where
  "add_routes srt Parse [] m = m"
| "add_routes srt Parse ((rule, syntx, prio, h) # specs) m =
     (case AddRoute srt Parse rule syntx prio h m of
        Ok m' \<Rightarrow> add_routes srt Parse specs m'
      | _ \<Rightarrow> add_routes srt Parse specs m)"

text \<open>The specification: a route is eligible for a request if its rule parses and matches.\<close>

definition eligible :: "predicate_parser \<Rightarrow> SyntaxParser \<Rightarrow> request \<Rightarrow> 'h route_spec \<Rightarrow> bool" where
  "eligible Parse p req spec = (case spec of (rule, syntx, prio, h) \<Rightarrow>
     (case SyntaxParser_parse Parse p syntx rule of Ok mt \<Rightarrow> match_tree mt req | _ \<Rightarrow> False))"

definition spec_route :: "predicate_parser \<Rightarrow> SyntaxParser \<Rightarrow> 'h route_spec \<Rightarrow> 'h route option" where
  "spec_route Parse p spec = (case spec of (rule, syntx, prio, h) \<Rightarrow>
     (case SyntaxParser_parse Parse p syntx rule of
        Ok mt \<Rightarrow> Some \<lparr>matchers = mt, handler = h, priority = prio\<rparr> | _ \<Rightarrow> None))"

lemma add_routes_table:
  "routes (add_routes srt Parse specs m) = add_sorted srt (spec_route Parse (mux_parser m)) specs (routes m)"
  "defaultHandler (add_routes srt Parse specs m) = defaultHandler m"
  by (induction specs arbitrary: m)
    (auto simp: AddRoute_def spec_route_def split: outcome.splits prod.splits)

lemma eligible_route:
  "eligible Parse p req (rule, syntx, prio, h) \<longleftrightarrow>
     (\<exists>r. spec_route Parse p (rule, syntx, prio, h) = Some r \<and> match_tree (matchers r) req
        \<and> priority r = prio \<and> handler r = h)"
  by (auto simp: eligible_def spec_route_def split: outcome.splits)

lemma spec_route_fields:
  "spec_route Parse p (rule, syntx, prio, h) = Some r \<Longrightarrow> priority r = prio \<and> handler r = h"
  by (auto simp: spec_route_def split: outcome.splits)

text \<open>
  C1. Requests go to the eligible route of highest priority. For any list of routes added
  to a new muxer, with any rules, syntaxes and priorities and whatever order \<open>sort.Sort\<close>
  gives to equal elements: a request whose path decodes is served by a route that is
  eligible and such that no eligible route has a higher priority; it gets the 404 handler only when
  no route is eligible; and it is refused only when its path does not decode.
\<close>

theorem route_selection:
  assumes "sort_Sort route_less srt"
  shows "case ServeHTTP (add_routes srt Parse specs (NewMuxer p)) req of
      Served h req' \<Rightarrow> withRoutingPath req = Ok req' \<and>
        (\<exists>rule syntx prio. (rule, syntx, prio, h) \<in> set specs \<and> eligible Parse p req' (rule, syntx, prio, h) \<and>
          (\<forall>rule2 syntx2 prio2 h2. (rule2, syntx2, prio2, h2) \<in> set specs \<longrightarrow>
             eligible Parse p req' (rule2, syntx2, prio2, h2) \<longrightarrow> prio2 \<le> prio))
    | NotFound \<Rightarrow> \<exists>req'. withRoutingPath req = Ok req' \<and> (\<forall>s \<in> set specs. \<not> eligible Parse p req' s)
    | BadRequest \<Rightarrow> \<forall>req'. withRoutingPath req \<noteq> Ok req'"
proof (cases "withRoutingPath req")
  case (Ok req')
  let ?mk = "spec_route Parse p :: 'a route_spec \<Rightarrow> 'a route option"
  let ?P = "\<lambda>r. match_tree (matchers r) req'"
  have serve: "ServeHTTP (add_routes srt Parse specs (NewMuxer p)) req =
      (case find ?P (add_sorted srt ?mk specs []) of Some r \<Rightarrow> Served (handler r) req' | None \<Rightarrow> NotFound)"
    by (simp add: ServeHTTP_def Ok add_routes_table NewMuxer_def split: option.split)
  show ?thesis
  proof (cases "find ?P (add_sorted srt ?mk specs [])")
    case None
    then show ?thesis
      using sort_Sort.add_sorted_none [OF assms None] Ok by (auto simp: serve eligible_route)
  next
    case (Some r)
    note first = sort_Sort.add_sorted_first [OF assms Some]
    obtain rule syntx prio h where spec: "(rule, syntx, prio, h) \<in> set specs"
      "?mk (rule, syntx, prio, h) = Some r"
      using first(1) by auto
    have "eligible Parse p req' (rule, syntx, prio, h)"
      using spec(2) first(2) spec_route_fields [OF spec(2)] by (auto simp: eligible_route)
    moreover have "prio2 \<le> prio" if "(rule2, syntx2, prio2, h2) \<in> set specs"
      "eligible Parse p req' (rule2, syntx2, prio2, h2)" for rule2 syntx2 prio2 h2
      using that first(3) [OF that(1)] spec_route_fields [OF spec(2)]
      by (auto simp: eligible_route route_less_def not_less)
    ultimately show ?thesis
      using spec Some Ok spec_route_fields [OF spec(2)] by (auto simp: serve)
  qed
qed (simp_all add: ServeHTTP_def)

text \<open>Two routes: the later and shorter one has the higher priority and wins.\<close>

definition demo_specs :: "string route_spec list" where
  "demo_specs = [(''PathPrefix(`/`)'', ''v3'', 1, ''low''), (''Path(`/a`)'', ''v3'', 7, ''high'')]"

definition demo_syntax :: SyntaxParser where
  "demo_syntax = [(''v3'', newParser demo_title (httpFuncs demo_http))]"

theorem route_selection_witness:
  "\<exists>req'. ServeHTTP (add_routes (insertionSort route_less) demo_Parse demo_specs (NewMuxer demo_syntax)) demo_get
      = Served ''high'' req' \<and> eligible demo_Parse demo_syntax req' (''Path(`/a`)'', ''v3'', 7, ''high'')"
proof -
  let ?m = "add_routes (insertionSort route_less) demo_Parse demo_specs (NewMuxer demo_syntax)"
  have "case ServeHTTP ?m demo_get of Served h req' \<Rightarrow> h = ''high'' | _ \<Rightarrow> False"
    by code_simp
  then obtain req' where served: "ServeHTTP ?m demo_get = Served ''high'' req'"
    by (auto split: served.splits)
  from route_selection [OF route_sort.sort_Sort_axioms, where Parse = demo_Parse and specs = demo_specs
      and p = demo_syntax and req = demo_get]
  obtain rule syntx prio where "(rule, syntx, prio, ''high'') \<in> set demo_specs"
    "eligible demo_Parse demo_syntax req' (rule, syntx, prio, ''high'')"
    by (auto simp: served)
  then show ?thesis
    using served by (auto simp: demo_specs_def)
qed

end
