(* ===== verification/Hashes.thy ===== *)
theory Hashes
  imports Prelude "HOL-Library.Word"
begin

unbundle bit_operations_syntax

section \<open>Hash functions\<close>

text \<open>
  The library hashes the balancers use: FNV-1 and FNV-1a on 64 bits (\<open>hash/fnv\<close>), SHA-256
  (\<open>crypto/sha256\<close>), and their textual forms. Bytes are characters.
\<close>

subsection \<open>FNV\<close>

definition fnv_offset :: "64 word" where
  "fnv_offset = 14695981039346656037"

definition fnv_prime :: "64 word" where
  "fnv_prime = 1099511628211"

definition fnv64 :: "string \<Rightarrow> 64 word" where
  "fnv64 s = fold (\<lambda>c h. (h * fnv_prime) XOR word_of_nat (code_of c)) s fnv_offset"

definition fnv64a :: "string \<Rightarrow> 64 word" where
  "fnv64a s = fold (\<lambda>c h. (h XOR word_of_nat (code_of c)) * fnv_prime) s fnv_offset"

subsection \<open>Hexadecimal text\<close>

definition hex_digit :: "nat \<Rightarrow> char" where
  "hex_digit n = ''0123456789abcdef'' ! n"

text \<open>\<open>strconv.FormatUint\<close> in base 16: no leading zero.\<close>

fun FormatUint16 :: "nat \<Rightarrow> string" where
  "FormatUint16 n = (if n < 16 then [hex_digit n] else FormatUint16 (n div 16) @ [hex_digit (n mod 16)])"

declare FormatUint16.simps [simp del]

text \<open>\<open>hex.EncodeToString\<close>: two digits for each byte.\<close>

definition EncodeToString :: "nat list \<Rightarrow> string" where
  "EncodeToString bs = concat (map (\<lambda>b. [hex_digit (b div 16), hex_digit (b mod 16)]) bs)"

subsection \<open>SHA-256\<close>

text \<open>
  The constants of the standard: the first 32 bits of the fractional parts of the cube roots of
  the first 64 primes, and of the square roots of the first 8.
\<close>

fun root_bits :: "nat \<Rightarrow> nat \<Rightarrow> nat \<Rightarrow> nat \<Rightarrow> nat" where
  "root_bits k n 0 r = r"
| "root_bits k n (Suc i) r = root_bits k n i (if (r + 2 ^ i) ^ k \<le> n then r + 2 ^ i else r)"

definition root_fraction :: "nat \<Rightarrow> nat \<Rightarrow> 32 word" where
  "root_fraction k p = word_of_nat (root_bits k (p * 2 ^ (32 * k)) 40 0)"

definition first_primes :: "nat \<Rightarrow> nat list" where
  "first_primes n = take n (filter (\<lambda>p. \<forall>d \<in> set [2..<p]. p mod d \<noteq> 0) [2..<312])"

definition sha256_K :: "32 word list" where
  "sha256_K = map (root_fraction 3) (first_primes 64)"

definition sha256_H :: "32 word list" where
  "sha256_H = map (root_fraction 2) [2, 3, 5, 7, 11, 13, 17, 19]"

definition rotr :: "nat \<Rightarrow> 32 word \<Rightarrow> 32 word" where
  "rotr n x = (drop_bit n x) OR (push_bit (32 - n) x)"

definition sha256_pad :: "nat list \<Rightarrow> nat list" where
  "sha256_pad m =
     (let l = 8 * length m in
      m @ [128] @ replicate ((119 - length m mod 64) mod 64) 0 @
      map (\<lambda>i. (l div 256 ^ (7 - i)) mod 256) [0..<8])"

fun be_words :: "nat list \<Rightarrow> 32 word list" where
  "be_words (a # b # c # d # rest) =
     word_of_nat (((a * 256 + b) * 256 + c) * 256 + d) # be_words rest"
| "be_words _ = []"

fun sha256_extend :: "nat \<Rightarrow> 32 word list \<Rightarrow> 32 word list" where
  "sha256_extend 0 w = w"
| "sha256_extend (Suc n) w =
     (let t = length w;
          x = w ! (t - 15);
          y = w ! (t - 2);
          s0 = rotr 7 x XOR rotr 18 x XOR drop_bit 3 x;
          s1 = rotr 17 y XOR rotr 19 y XOR drop_bit 10 y
      in sha256_extend n (w @ [w ! (t - 16) + s0 + w ! (t - 7) + s1]))"

fun sha256_round :: "32 word \<times> 32 word \<Rightarrow> 32 word list \<Rightarrow> 32 word list" where
  "sha256_round (k, w) [a, b, c, d, e, f, g, h] =
     (let s1 = rotr 6 e XOR rotr 11 e XOR rotr 25 e;
          ch = (e AND f) XOR (NOT e AND g);
          t1 = h + s1 + ch + k + w;
          s0 = rotr 2 a XOR rotr 13 a XOR rotr 22 a;
          maj = (a AND b) XOR (a AND c) XOR (b AND c)
      in [t1 + s0 + maj, a, b, c, d + t1, e, f, g])"
| "sha256_round _ hs = hs"

definition sha256_block :: "32 word list \<Rightarrow> 32 word list \<Rightarrow> 32 word list" where
  "sha256_block hs blk =
     map2 (+) hs (fold sha256_round (zip sha256_K (sha256_extend 48 blk)) hs)"

fun sha256_blocks :: "nat \<Rightarrow> 32 word list \<Rightarrow> 32 word list \<Rightarrow> 32 word list" where
  "sha256_blocks 0 hs ws = hs"
| "sha256_blocks (Suc n) hs ws = sha256_blocks n (sha256_block hs (take 16 ws)) (drop 16 ws)"

definition be_bytes :: "32 word \<Rightarrow> nat list" where
  "be_bytes w = map (\<lambda>i. unat w div 256 ^ (3 - i) mod 256) [0..<4]"

definition sha256 :: "string \<Rightarrow> nat list" where
  "sha256 s =
     (let ws = be_words (sha256_pad (map code_of s)) in
      concat (map be_bytes (sha256_blocks (length ws div 16) sha256_H ws)))"

subsection \<open>Shape of the results\<close>

lemma length_EncodeToString: "length (EncodeToString bs) = 2 * length bs"
  by (induction bs) (simp_all add: EncodeToString_def)

lemma length_sha256_round: "length (sha256_round kw hs) = length hs"
  by (cases "(kw, hs)" rule: sha256_round.cases) (simp_all add: Let_def)

lemma length_sha256_rounds: "length (fold sha256_round kws hs) = length hs"
  by (induction kws arbitrary: hs) (simp_all add: length_sha256_round)

lemma length_sha256_blocks: "length (sha256_blocks n hs ws) = length hs"
  by (induction n arbitrary: hs ws) (simp_all add: sha256_block_def length_sha256_rounds)

lemma length_sha256: "length (sha256 s) = 32"
proof -
  have "length (concat (map be_bytes ws)) = 4 * length ws" for ws
    by (induction ws) (simp_all add: be_bytes_def)
  then show ?thesis
    by (simp add: sha256_def Let_def length_sha256_blocks) (simp add: sha256_H_def)
qed

end
