(* ===== verification/RouterBuild.thy ===== *)
theory RouterBuild
  imports RouterTree Aggregator HttpMuxer Hashes
begin

section \<open>Handlers of routers (\<open>pkg/server/router/router.go\<close>)\<close>

text \<open>
  From the tree of routers to the handler of an entry point: a router becomes its service, or a muxer over its children, behind the
  middlewares of the router; the root routers of an entry point become the routes of its muxer. A handler is the function from the request
  to the answer, of a type that is a parameter. What the manager calls through its interfaces is a record of functions: services,
  middlewares, TLS options, and the wrappers for logs, metrics and traces. Chains of middlewares are those of the third-party package \<open>alice\<close>,
  applied by its function \<open>Then\<close>. The handlers already built are kept by the name of the router.

  The recursion over the tree is bounded by a number; that it suffices when larger than the depth of the tree is shown below.
\<close>

type_synonym 'r http_handler = "request \<Rightarrow> 'r"
type_synonym 'r wrapper = "'r http_handler \<Rightarrow> 'r http_handler outcome"

record 'r env =
  BuildHTTP :: "provider_context \<Rightarrow> string \<Rightarrow> 'r http_handler outcome"
  BuildMiddlewareChain :: "provider_context \<Rightarrow> string list \<Rightarrow> 'r wrapper list"
  TLSGet :: "string \<Rightarrow> string \<Rightarrow> string option"
  Then :: "'r wrapper list \<Rightarrow> 'r wrapper"
  WrapRouterHandler :: "string \<Rightarrow> string \<Rightarrow> string \<Rightarrow> 'r wrapper"
  RouterMetricsHandler :: "string \<Rightarrow> string \<Rightarrow> 'r wrapper"
  RouterNameField :: "string \<Rightarrow> 'r wrapper"
  BuildEPChain :: "provider_context \<Rightarrow> string \<Rightarrow> bool \<Rightarrow> RouterObservabilityConfig \<Rightarrow> 'r wrapper list"
  RecoveryNew :: "'r wrapper"
  answer404 :: 'r
  answer400 :: 'r
  sort_routes :: "'r http_handler route list \<Rightarrow> 'r http_handler route list"
  predicateParse :: predicate_parser
  syntaxes :: SyntaxParser

record 'r manager =
  rconf :: routers
  routerHandlers :: "string \<rightharpoonup> 'r http_handler"

definition maxUserPriority :: int where
  "maxUserPriority = (2 ^ 63 - 1) - 1000"

subsection \<open>Wrappers\<close>

text \<open>\<open>DenyRouterRecursion\<close>: a request that comes from the router itself is rejected.\<close>

definition xIngressRouter :: string where
  "xIngressRouter = ''X-Ingress-Router''"

definition makeHash :: "string \<Rightarrow> string" where
  "makeHash routerName = FormatUint16 (unat (fnv64 routerName))"

definition DenyRouterRecursion :: "'r \<Rightarrow> string \<Rightarrow> 'r wrapper" where
  "DenyRouterRecursion bad routerName next_handler =
     (if routerName = [] then Err ''routerName cannot be empty''
      else Ok (\<lambda>req. if Header_Get req xIngressRouter = makeHash routerName then bad
                     else next_handler (req\<lparr>Header := (Header req)(xIngressRouter := [makeHash routerName])\<rparr>)))"

definition deny_wrapper :: "'r \<Rightarrow> string set \<Rightarrow> 'r wrapper" where
  "deny_wrapper bad encodedCharacters h =
     Ok (\<lambda>req. if denyEncodedPathCharacters encodedCharacters (EscapedPath req) then h req else bad)"

definition router_chain :: "'r env \<Rightarrow> provider_context \<Rightarrow> string \<Rightarrow> RouterInfo \<Rightarrow> string \<Rightarrow> 'r wrapper list" where
  "router_chain E ctx routerName router serviceName =
     (if DefaultRule router then [DenyRouterRecursion (answer400 E) routerName] else []) @
     [WrapRouterHandler E routerName (Rule router) serviceName, RouterMetricsHandler E routerName serviceName, RouterNameField E routerName] @
     (case DeniedEncodedPathCharacters router of
        Some d \<Rightarrow> if length (elems (ParentRefs router)) = 0 then [deny_wrapper (answer400 E) (deniedMap d)] else []
      | None \<Rightarrow> []) @
     BuildMiddlewareChain E ctx (Middlewares router)"

definition mux_handler :: "'r env \<Rightarrow> 'r http_handler muxer \<Rightarrow> 'r http_handler" where
  "mux_handler E m = (\<lambda>req. case ServeHTTP m req of
     BadRequest \<Rightarrow> answer400 E | NotFound \<Rightarrow> answer404 E | Served h req' \<Rightarrow> h req')"

subsection \<open>Building\<close>

definition check_tls :: "'r env \<Rightarrow> provider_context \<Rightarrow> RouterInfo \<Rightarrow> string option" where
  "check_tls E ctx routerConfig =
     (case TLS routerConfig of
        None \<Rightarrow> None
      | Some t \<Rightarrow>
          let tlsOptionsName = (if length (Options t) > 0 \<and> Options t \<noteq> DefaultTLSConfigName
                                then GetQualifiedName ctx (Options t) else DefaultTLSConfigName)
          in map_option (\<lambda>e. ''building router handler: '' @ e) (TLSGet E DefaultTLSStoreName tlsOptionsName))"

definition set_priority :: "RouterInfo \<Rightarrow> RouterInfo" where
  "set_priority r = (if Priority r = 0 then r\<lparr>Priority := GetRulePriority (Rule r)\<rparr> else r)"

definition qualify_middlewares :: "provider_context \<Rightarrow> RouterInfo \<Rightarrow> RouterInfo" where
  "qualify_middlewares ctx r = r\<lparr>Middlewares := map (GetQualifiedName ctx) (Middlewares r)\<rparr>"

definition update_router :: "string \<Rightarrow> (RouterInfo \<Rightarrow> RouterInfo) \<Rightarrow> 'r manager \<Rightarrow> 'r manager" where
  "update_router n f m = m\<lparr>rconf := modify n f (rconf m)\<rparr>"

text \<open>The end of \<open>buildHTTPHandler\<close> and \<open>buildRouterHandler\<close>: the chain around the next handler, which is then remembered.\<close>

definition finish :: "'r env \<Rightarrow> provider_context \<Rightarrow> string \<Rightarrow> RouterInfo \<Rightarrow> string \<Rightarrow> 'r http_handler outcome \<Rightarrow> 'r manager
    \<Rightarrow> 'r http_handler outcome \<times> 'r manager" where
  "finish E ctx routerName router serviceName nextHandler m =
     (case bind_outcome nextHandler (Then E (router_chain E ctx routerName router serviceName)) of
        Ok h \<Rightarrow> (Ok h, m\<lparr>routerHandlers := (routerHandlers m)(routerName \<mapsto> h)\<rparr>)
      | res \<Rightarrow> (res, m))"

text \<open>The muxer of the children, with the number of those that could be added.\<close>

definition child_muxer :: "'r env \<Rightarrow> 'r http_handler muxer \<times> nat \<Rightarrow> 'r http_handler outcome" where
  "child_muxer E mn =
     (if snd mn = 0 then Err ''building child routers muxer: no child routers could be added to muxer''
      else Ok (mux_handler E (fst mn)))"

fun buildRouterHandler :: "'r env \<Rightarrow> nat \<Rightarrow> provider_context \<Rightarrow> string \<Rightarrow> 'r manager \<Rightarrow> ('r http_handler outcome \<times> 'r manager) option"
and buildChildRoutersMuxer :: "'r env \<Rightarrow> nat \<Rightarrow> provider_context \<Rightarrow> string list \<Rightarrow> 'r http_handler muxer \<times> nat \<Rightarrow> 'r manager
    \<Rightarrow> (('r http_handler muxer \<times> nat) outcome \<times> 'r manager) option" where
  "buildRouterHandler E 0 ctx routerName m = None"
| "buildRouterHandler E (Suc fuel) ctx routerName m =
     (case routerHandlers m routerName of
        Some h \<Rightarrow> Some (Ok h, m)
      | None \<Rightarrow>
          case rconf m routerName of
            None \<Rightarrow> Some (Panic, m)
          | Some routerConfig \<Rightarrow>
              case check_tls E ctx routerConfig of
                Some e \<Rightarrow> Some (Err e, m)
              | None \<Rightarrow>
                  let router = qualify_middlewares ctx routerConfig;
                      m1 = update_router routerName (qualify_middlewares ctx) m
                  in if length (ChildRefs router) > 0 then
                       (case buildChildRoutersMuxer E fuel ctx (ChildRefs router)
                               (SetDefaultHandler (\<lambda>_. answer404 E) (NewMuxer (syntaxes E)), 0) m1 of
                          None \<Rightarrow> None
                        | Some (res, m2) \<Rightarrow>
                            Some (finish E ctx routerName router (routerName @ ''-muxer'') (bind_outcome res (child_muxer E)) m2))
                     else if Service router \<noteq> [] then
                       (let qualifiedService = GetQualifiedName ctx (Service router)
                        in Some (finish E ctx routerName router qualifiedService (BuildHTTP E ctx qualifiedService) m1))
                     else Some (Err ''router must have either a service or child routers'', m1))"
| "buildChildRoutersMuxer E fuel ctx [] mn m = Some (Ok mn, m)"
| "buildChildRoutersMuxer E fuel ctx (childName # rest) mn m =
     (case rconf m childName of
        None \<Rightarrow> Some (Err (''building child routers muxer: child router '' @ quoted childName @ '' does not exist''), m)
      | Some childRouter \<Rightarrow>
          if length (Errs childRouter) > 0 then buildChildRoutersMuxer E fuel ctx rest mn m
          else let child = set_priority childRouter;
                   m1 = update_router childName set_priority m
               in case buildRouterHandler E fuel (AddInContext ctx childName) childName m1 of
                    None \<Rightarrow> None
                  | Some (Panic, m2) \<Rightarrow> Some (Panic, m2)
                  | Some (Err e, m2) \<Rightarrow>
                      buildChildRoutersMuxer E fuel ctx rest mn (update_router childName (AddError e True) m2)
                  | Some (Ok h, m2) \<Rightarrow>
                      case AddRoute (sort_routes E) (predicateParse E) (Rule child) (RuleSyntax child) (Priority child) h (fst mn) of
                        Panic \<Rightarrow> Some (Panic, m2)
                      | Err e \<Rightarrow> buildChildRoutersMuxer E fuel ctx rest mn (update_router childName (AddError e True) m2)
                      | Ok mux \<Rightarrow> buildChildRoutersMuxer E fuel ctx rest (mux, snd mn + 1) m2)"

definition exceeds_priority :: "string \<Rightarrow> RouterInfo \<Rightarrow> bool" where
  "exceeds_priority routerName routerConfig \<longleftrightarrow> Priority routerConfig > maxUserPriority \<and> \<not> HasSuffix routerName ''@internal''"

definition add_root :: "'r env \<Rightarrow> provider_context \<Rightarrow> string \<Rightarrow> RouterInfo \<Rightarrow> RouterObservabilityConfig \<Rightarrow> 'r http_handler \<Rightarrow> 'r http_handler muxer
    \<Rightarrow> 'r http_handler muxer outcome" where
  "add_root E ctxRouter entryPointName routerConfig config rh mux =
     bind_outcome (Then E (BuildEPChain E ctxRouter entryPointName (HasSuffix (Service routerConfig) ''@internal'') config) rh)
       (\<lambda>h. AddRoute (sort_routes E) (predicateParse E) (Rule routerConfig) (RuleSyntax routerConfig) (Priority routerConfig) h mux)"

text \<open>The loop over the routers of an entry point; the settings for observability pass from one turn to the next.\<close>

fun add_routers :: "'r env \<Rightarrow> nat \<Rightarrow> provider_context \<Rightarrow> string \<Rightarrow> string list \<Rightarrow> RouterObservabilityConfig \<Rightarrow> 'r http_handler muxer \<Rightarrow> 'r manager
    \<Rightarrow> ('r http_handler muxer outcome \<times> 'r manager) option" where
  "add_routers E fuel ctx entryPointName [] config mux m = Some (Ok mux, m)"
| "add_routers E fuel ctx entryPointName (routerName # rest) config mux m =
     (let ctxRouter = AddInContext ctx routerName;
          m1 = update_router routerName set_priority m
      in case rconf m1 routerName of
           None \<Rightarrow> Some (Panic, m1)
         | Some routerConfig \<Rightarrow>
             if exceeds_priority routerName routerConfig then
               add_routers E fuel ctx entryPointName rest config mux
                 (update_router routerName (AddError ''the router priority exceeds the max user-defined priority'' True) m1)
             else if length (elems (ParentRefs routerConfig)) > 0 then
               add_routers E fuel ctx entryPointName rest config mux m1
             else case buildRouterHandler E fuel ctxRouter routerName m1 of
               None \<Rightarrow> None
             | Some (Panic, m2) \<Rightarrow> Some (Panic, m2)
             | Some (Err e, m2) \<Rightarrow>
                 add_routers E fuel ctx entryPointName rest config mux (update_router routerName (AddError e True) m2)
             | Some (Ok rh, m2) \<Rightarrow>
                 let config' = (case Observability routerConfig of Some obs \<Rightarrow> obs | None \<Rightarrow> config)
                 in case add_root E ctxRouter entryPointName routerConfig config' rh mux of
                      Panic \<Rightarrow> Some (Panic, m2)
                    | Err e \<Rightarrow> add_routers E fuel ctx entryPointName rest config' mux (update_router routerName (AddError e True) m2)
                    | Ok mux' \<Rightarrow> add_routers E fuel ctx entryPointName rest config' mux' m2)"

definition buildEntryPointHandler :: "'r env \<Rightarrow> nat \<Rightarrow> provider_context \<Rightarrow> string \<Rightarrow> string list \<Rightarrow> RouterObservabilityConfig \<Rightarrow> 'r manager
    \<Rightarrow> ('r http_handler outcome \<times> 'r manager) option" where
  "buildEntryPointHandler E fuel ctx entryPointName configs config m =
     (case Then E (BuildEPChain E ctx entryPointName False config) (\<lambda>_. answer404 E) of
        Ok dh \<Rightarrow>
          (case add_routers E fuel ctx entryPointName configs config (SetDefaultHandler dh (NewMuxer (syntaxes E))) m of
             None \<Rightarrow> None
           | Some (res, m') \<Rightarrow> Some (bind_outcome res (\<lambda>mux. Then E [RecoveryNew E] (mux_handler E mux)), m'))
      | Err e \<Rightarrow> Some (Err e, m)
      | Panic \<Rightarrow> Some (Panic, m))"

subsection \<open>All entry points\<close>

definition unique :: "string list \<Rightarrow> string list" where
  "unique src = sort (remdups src)"

text \<open>The routers by entry point: their names, in the order in which they were put into the map.\<close>

type_synonym routers_by_ep = "string \<Rightarrow> string list"

definition use_entry_point :: "string list \<Rightarrow> string \<Rightarrow> string \<Rightarrow> routers \<times> routers_by_ep \<times> nat \<Rightarrow> routers \<times> routers_by_ep \<times> nat" where
  "use_entry_point entryPoints rtName entryPointName s =
     (let (c, epr, entryPointsCount) = s in
      if entryPointName \<notin> set entryPoints
      then (modify rtName (AddError (''entryPoint '' @ quoted entryPointName @ [CHR '' ''] @ ''doesn'' @ [CHR 0x27] @ ''t exist'') False) c, epr, entryPointsCount)
      else (modify rtName (\<lambda>rt. rt\<lparr>Using := Using rt @ [entryPointName]\<rparr>) c,
            if rtName \<in> set (epr entryPointName) then epr else epr(entryPointName := epr entryPointName @ [rtName]),
            entryPointsCount + 1))"

definition register_router :: "string list \<Rightarrow> bool \<Rightarrow> string \<Rightarrow> routers \<times> routers_by_ep \<Rightarrow> routers \<times> routers_by_ep" where
  "register_router entryPoints tls rtName s =
     (let (c, epr) = s in
      case c rtName of
        None \<Rightarrow> (c, epr)
      | Some rt \<Rightarrow>
          if (tls \<and> TLS rt = None) \<or> (\<not> tls \<and> TLS rt \<noteq> None) then (c, epr)
          else let (c1, epr1, entryPointsCount) = fold (use_entry_point entryPoints rtName) (EntryPoints rt) (c, epr, 0);
                   c2 = (if entryPointsCount = 0 \<and> ParentRefs rt = None
                         then modify rtName (AddError ''no valid entryPoint for this router'' True) c1 else c1)
               in (modify rtName (\<lambda>rt. rt\<lparr>Using := unique (Using rt)\<rparr>) c2, epr1))"

definition GetRoutersByEntryPoints :: "string list \<Rightarrow> bool \<Rightarrow> string list \<Rightarrow> routers \<Rightarrow> routers \<times> routers_by_ep" where
  "GetRoutersByEntryPoints entryPoints tls order c = fold (register_router entryPoints tls) order (c, \<lambda>_. [])"

definition entry_point_observability :: "(string, Model) gomap \<Rightarrow> string \<Rightarrow> RouterObservabilityConfig" where
  "entry_point_observability ms entryPointName =
     (case model_of ms entryPointName of
        Some model \<Rightarrow> modelObservability model
      | None \<Rightarrow> \<lparr>AccessLogs = None, Metrics = None, Tracing = None, TraceVerbosity = MinimalVerbosity\<rparr>)"

fun build_entry_points :: "'r env \<Rightarrow> nat \<Rightarrow> (string, Model) gomap \<Rightarrow> routers_by_ep \<Rightarrow> string list \<Rightarrow> (string \<rightharpoonup> 'r http_handler) \<Rightarrow> 'r manager
    \<Rightarrow> ((string \<rightharpoonup> 'r http_handler) outcome \<times> 'r manager) option" where
  "build_entry_points E fuel ms epr [] hs m = Some (Ok hs, m)"
| "build_entry_points E fuel ms epr (entryPointName # rest) hs m =
     (case buildEntryPointHandler E fuel None entryPointName (epr entryPointName) (entry_point_observability ms entryPointName) m of
        None \<Rightarrow> None
      | Some (Panic, m') \<Rightarrow> Some (Panic, m')
      | Some (Err e, m') \<Rightarrow> build_entry_points E fuel ms epr rest hs m'
      | Some (Ok h, m') \<Rightarrow> build_entry_points E fuel ms epr rest (hs(entryPointName \<mapsto> h)) m')"

definition default_entry_point :: "'r env \<Rightarrow> (string, Model) gomap \<Rightarrow> string \<Rightarrow> (string \<rightharpoonup> 'r http_handler) \<Rightarrow> (string \<rightharpoonup> 'r http_handler)" where
  "default_entry_point E ms entryPointName hs =
     (if hs entryPointName \<noteq> None then hs
      else case Then E (BuildEPChain E None entryPointName False (entry_point_observability ms entryPointName)) (\<lambda>_. answer404 E) of
             Ok h \<Rightarrow> hs(entryPointName \<mapsto> h) | _ \<Rightarrow> hs)"

text \<open>\<open>order\<close> is that of the routers of the configuration, \<open>order2\<close> that of the entry points that have routers.\<close>

definition BuildHandlers :: "'r env \<Rightarrow> nat \<Rightarrow> (string, Model) gomap \<Rightarrow> string list \<Rightarrow> bool \<Rightarrow> string list \<Rightarrow> string list \<Rightarrow> 'r manager
    \<Rightarrow> ((string \<rightharpoonup> 'r http_handler) outcome \<times> 'r manager) option" where
  "BuildHandlers E fuel ms entryPoints tls order order2 m =
     (let (c, epr) = GetRoutersByEntryPoints entryPoints tls order (rconf m)
      in map_option (\<lambda>(res, m'). (bind_outcome res (\<lambda>hs. Ok (fold (default_entry_point E ms) entryPoints hs)), m'))
           (build_entry_points E fuel ms epr (filter (\<lambda>ep. epr ep \<noteq> []) order2) Map.empty (m\<lparr>rconf := c\<rparr>)))"

subsection \<open>What building leaves alone\<close>

definition ctx_of :: "string \<Rightarrow> provider_context" where
  "ctx_of n = AddInContext None n"

lemma AddInContext_ctx_of: "CHR ''@'' \<in> set n \<Longrightarrow> AddInContext ctx n = ctx_of n"
  using Split_single_iff [of n "CHR ''@''"] by (simp add: ctx_of_def AddInContext_def Let_def)

definition kept :: "string \<Rightarrow> RouterInfo \<Rightarrow> RouterInfo \<Rightarrow> bool" where
  "kept n r0 r \<longleftrightarrow> Rule r = Rule r0 \<and> RuleSyntax r = RuleSyntax r0 \<and> Service r = Service r0 \<and> DefaultRule r = DefaultRule r0 \<and>
     DeniedEncodedPathCharacters r = DeniedEncodedPathCharacters r0 \<and> ParentRefs r = ParentRefs r0 \<and> ChildRefs r = ChildRefs r0 \<and>
     map (GetQualifiedName (ctx_of n)) (Middlewares r) = map (GetQualifiedName (ctx_of n)) (Middlewares r0) \<and> set (Errs r0) \<subseteq> set (Errs r)"

definition tracks :: "routers \<Rightarrow> 'r manager \<Rightarrow> bool" where
  "tracks c m \<longleftrightarrow> (\<forall>n. case c n of None \<Rightarrow> rconf m n = None | Some r0 \<Rightarrow> \<exists>r. rconf m n = Some r \<and> kept n r0 r)"

lemma kept_refl: "kept n r r"
  by (simp add: kept_def)

lemma kept_changes: "kept n r0 r \<Longrightarrow> kept n r0 (AddError e k r)" "kept n r0 r \<Longrightarrow> kept n r0 (set_priority r)"
  "kept n r0 r \<Longrightarrow> kept n r0 (qualify_middlewares (ctx_of n) r)"
  by (auto simp: kept_def Errs_AddError set_priority_def qualify_middlewares_def)

lemma tracks_update:
  assumes "tracks c m" "\<And>r0 r. kept n r0 r \<Longrightarrow> kept n r0 (f r)"
  shows "tracks c (update_router n f m)"
  unfolding tracks_def
proof
  fix k
  have "case c k of None \<Rightarrow> rconf m k = None | Some r0 \<Rightarrow> \<exists>r. rconf m k = Some r \<and> kept k r0 r"
    using assms(1) by (simp add: tracks_def)
  then show "case c k of None \<Rightarrow> rconf (update_router n f m) k = None | Some r0 \<Rightarrow> \<exists>r. rconf (update_router n f m) k = Some r \<and> kept k r0 r"
    using assms(2) by (cases "c k") (auto simp: update_router_def modify_apply)
qed

lemma tracks_handlers [simp]: "tracks c (m\<lparr>routerHandlers := hs\<rparr>) = tracks c m"
  by (simp add: tracks_def cong: option.case_cong)

lemma tracks_Some: "tracks c m \<Longrightarrow> rconf m n = Some r \<Longrightarrow> \<exists>r0. c n = Some r0 \<and> kept n r0 r"
  unfolding tracks_def by (drule spec [of _ n]) (auto split: option.splits)

lemma router_chain_kept:
  "kept n r0 r \<Longrightarrow> router_chain E (ctx_of n) n (qualify_middlewares (ctx_of n) r) svc = router_chain E (ctx_of n) n (qualify_middlewares (ctx_of n) r0) svc"
  by (simp add: kept_def router_chain_def qualify_middlewares_def split: option.split)

subsection \<open>Which answers a router gives\<close>

text \<open>
  The middlewares of a router are its guard: they answer themselves, or hand over the request that they make of the one they got, and
  \<open>guard n q q'\<close> says which one that may be. The answer of router \<open>n\<close> to a request is one that middlewares and muxers give themselves, or that
  of its service to the request that has passed the guard, or that of a child without errors whose rule matches the request that has passed.
\<close>

definition rule_matches :: "'r env \<Rightarrow> RouterInfo \<Rightarrow> request \<Rightarrow> bool" where
  "rule_matches E r q \<longleftrightarrow> (\<exists>mt. SyntaxParser_parse (predicateParse E) (syntaxes E) (RuleSyntax r) (Rule r) = Ok mt \<and> match_tree mt q)"

inductive routed :: "'r env \<Rightarrow> routers \<Rightarrow> 'r set \<Rightarrow> (string \<Rightarrow> request \<Rightarrow> request \<Rightarrow> bool) \<Rightarrow> string \<Rightarrow> request \<Rightarrow> 'r \<Rightarrow> bool" for E c own guard where
  self: "a \<in> own \<Longrightarrow> routed E c own guard n q a"
| service: "c n = Some r \<Longrightarrow> Service r \<noteq> [] \<Longrightarrow> BuildHTTP E (ctx_of n) (GetQualifiedName (ctx_of n) (Service r)) = Ok s \<Longrightarrow> guard n q q' \<Longrightarrow>
     routed E c own guard n q (s q')"
| child: "c n = Some r \<Longrightarrow> guard n q q1 \<Longrightarrow> withRoutingPath q1 = Ok q2 \<Longrightarrow> ch \<in> set (ChildRefs r) \<Longrightarrow> c ch = Some rc \<Longrightarrow> Errs rc = [] \<Longrightarrow>
     rule_matches E rc q2 \<Longrightarrow> routed E c own guard ch q2 a \<Longrightarrow> routed E c own guard n q a"

definition relays :: "'r env \<Rightarrow> 'r set \<Rightarrow> (request \<Rightarrow> request \<Rightarrow> bool) \<Rightarrow> 'r wrapper list \<Rightarrow> bool" where
  "relays E own passed ws \<longleftrightarrow> (\<forall>h h'. Then E ws h = Ok h' \<longrightarrow> (\<forall>q. h' q \<in> own \<or> (\<exists>q'. passed q q' \<and> h' q = h q')))"

definition guarded :: "'r env \<Rightarrow> routers \<Rightarrow> 'r set \<Rightarrow> (string \<Rightarrow> request \<Rightarrow> request \<Rightarrow> bool) \<Rightarrow> bool" where
  "guarded E c own guard \<longleftrightarrow> answer404 E \<in> own \<and> answer400 E \<in> own \<and>
     (\<forall>n r svc. c n = Some r \<longrightarrow> relays E own (guard n) (router_chain E (ctx_of n) n (qualify_middlewares (ctx_of n) r) svc))"

text \<open>The routes of a muxer lead to the given routers.\<close>

definition routes_to :: "'r env \<Rightarrow> (string \<Rightarrow> RouterInfo \<Rightarrow> bool) \<Rightarrow> (string \<Rightarrow> request \<Rightarrow> 'r \<Rightarrow> bool) \<Rightarrow> routers \<Rightarrow> 'r http_handler muxer \<Rightarrow> bool" where
  "routes_to E ok ans c mux \<longleftrightarrow> mux_parser mux = syntaxes E \<and> (\<forall>rt \<in> set (routes mux). \<exists>ch rc. c ch = Some rc \<and> ok ch rc \<and>
     SyntaxParser_parse (predicateParse E) (syntaxes E) (RuleSyntax rc) (Rule rc) = Ok (matchers rt) \<and> (\<forall>q. ans ch q (handler rt q)))"

lemma routes_to_AddRoute:
  assumes "routes_to E ok ans c mux" "sort_Sort route_less (sort_routes E)" "c ch = Some rc" "ok ch rc" "\<forall>q. ans ch q (h q)"
    and "AddRoute (sort_routes E) (predicateParse E) (Rule rc) (RuleSyntax rc) prio h mux = Ok mux'"
  shows "routes_to E ok ans c mux' \<and> defaultHandler mux' = defaultHandler mux"
proof -
  obtain mt where mt: "SyntaxParser_parse (predicateParse E) (syntaxes E) (RuleSyntax rc) (Rule rc) = Ok mt"
    "mux' = mux\<lparr>routes := sort_routes E (routes mux @ [\<lparr>matchers = mt, handler = h, priority = prio\<rparr>])\<rparr>"
    using assms(1,6) by (auto simp: AddRoute_def routes_to_def split: outcome.splits)
  have "set (routes mux') = insert \<lparr>matchers = mt, handler = h, priority = prio\<rparr> (set (routes mux))"
    using sort_Sort.set_srt [OF assms(2)] by (simp add: mt(2))
  then show ?thesis
    using assms(1,3-5) mt by (auto simp: routes_to_def)
qed

lemma mux_handler_cases:
  assumes "routes_to E ok ans c mux"
  obtains "mux_handler E mux q = answer400 E"
  | d q' where "withRoutingPath q = Ok q'" "defaultHandler mux = Some d" "mux_handler E mux q = d q'"
  | "mux_handler E mux q = answer404 E"
  | q' ch rc where "withRoutingPath q = Ok q'" "c ch = Some rc" "ok ch rc" "rule_matches E rc q'" "ans ch q' (mux_handler E mux q)"
proof (cases "withRoutingPath q")
  case (Ok q')
  show ?thesis
  proof (cases "find (\<lambda>r. match_tree (matchers r) q') (routes mux)")
    case None
    then show ?thesis using Ok that(2,3) by (cases "defaultHandler mux") (simp_all add: mux_handler_def ServeHTTP_def)
  next
    case (Some rt)
    then have rt: "rt \<in> set (routes mux)" "match_tree (matchers rt) q'"
      by (auto elim!: find_SomeE)
    then obtain ch rc where ch: "c ch = Some rc" "ok ch rc" "\<forall>q. ans ch q (handler rt q)"
      "SyntaxParser_parse (predicateParse E) (syntaxes E) (RuleSyntax rc) (Rule rc) = Ok (matchers rt)"
      using assms unfolding routes_to_def by blast
    have "mux_handler E mux q = handler rt q'"
      using Ok Some by (simp add: mux_handler_def ServeHTTP_def)
    moreover have "rule_matches E rc q'"
      using ch(4) rt(2) by (auto simp: rule_matches_def)
    ultimately show ?thesis using that(4) [OF Ok ch(1,2)] ch(3) by simp
  qed
qed (use that(1) in \<open>simp_all add: mux_handler_def ServeHTTP_def\<close>)

text \<open>A muxer over children of \<open>n\<close>, and the chain of \<open>n\<close> around it or around the service.\<close>

lemma routed_muxer:
  assumes "c n = Some r" "guard n q0 q" "answer404 E \<in> own" "answer400 E \<in> own" "defaultHandler mux = Some (\<lambda>_. answer404 E)"
    and "routes_to E (\<lambda>ch rc. ch \<in> set (ChildRefs r) \<and> Errs rc = []) (routed E c own guard) c mux"
  shows "routed E c own guard n q0 (mux_handler E mux q)"
proof (rule mux_handler_cases [OF assms(6), of q])
  fix d q' assume "defaultHandler mux = Some d" "mux_handler E mux q = d q'"
  then show ?thesis using assms(3,5) by (auto intro: routed.self)
next
  fix q' ch rc assume "withRoutingPath q = Ok q'" "c ch = Some rc" "ch \<in> set (ChildRefs r) \<and> Errs rc = []" "rule_matches E rc q'"
    "routed E c own guard ch q' (mux_handler E mux q)"
  then show ?thesis using assms(1,2) by (blast intro: routed.child)
qed (use assms(3,4) in \<open>auto intro: routed.self\<close>)

lemma guarded_chain:
  assumes "guarded E c own guard" "c n = Some r0" "kept n r0 r"
    and "Then E (router_chain E (ctx_of n) n (qualify_middlewares (ctx_of n) r) svc) h = Ok h'"
    and "\<And>q q'. guard n q q' \<Longrightarrow> routed E c own guard n q (h q')"
  shows "routed E c own guard n q (h' q)"
proof -
  have "relays E own (guard n) (router_chain E (ctx_of n) n (qualify_middlewares (ctx_of n) r) svc)"
    unfolding router_chain_kept [OF assms(3)] using assms(1,2) by (simp add: guarded_def)
  then have "h' q \<in> own \<or> (\<exists>q'. guard n q q' \<and> h' q = h q')"
    using assms(4) by (simp add: relays_def)
  then show ?thesis using assms(5) by (auto intro: routed.self)
qed

subsection \<open>Building a router\<close>

definition build_inv :: "'r env \<Rightarrow> routers \<Rightarrow> 'r set \<Rightarrow> (string \<Rightarrow> request \<Rightarrow> request \<Rightarrow> bool) \<Rightarrow> 'r manager \<Rightarrow> bool" where
  "build_inv E c own guard m \<longleftrightarrow> tracks c m \<and> (\<forall>n h q. routerHandlers m n = Some h \<longrightarrow> routed E c own guard n q (h q))"

lemma build_inv_update:
  "build_inv E c own guard m \<Longrightarrow> (\<And>r0 r. kept n r0 r \<Longrightarrow> kept n r0 (f r)) \<Longrightarrow> build_inv E c own guard (update_router n f m)"
  by (auto simp: build_inv_def tracks_update) (simp add: update_router_def)

lemma build_inv_finish:
  assumes "guarded E c own guard" "c n = Some r0" "kept n r0 r" "build_inv E c own guard m"
    and "\<forall>h q q'. next_h = Ok h \<longrightarrow> guard n q q' \<longrightarrow> routed E c own guard n q (h q')"
    and "finish E (ctx_of n) n (qualify_middlewares (ctx_of n) r) svc next_h m = (res, m')"
  shows "build_inv E c own guard m' \<and> (\<forall>h q. res = Ok h \<longrightarrow> routed E c own guard n q (h q))"
proof (cases "bind_outcome next_h (Then E (router_chain E (ctx_of n) n (qualify_middlewares (ctx_of n) r) svc))")
  case (Ok h')
  then obtain h where h: "next_h = Ok h" "Then E (router_chain E (ctx_of n) n (qualify_middlewares (ctx_of n) r) svc) h = Ok h'" by auto
  have "routed E c own guard n q (h' q)" for q
    by (rule guarded_chain [OF assms(1,2,3) h(2)]) (use assms(5) h(1) in blast)
  moreover have "res = Ok h'" "m' = m\<lparr>routerHandlers := (routerHandlers m)(n \<mapsto> h')\<rparr>"
    using assms(6) Ok by (simp_all add: finish_def)
  ultimately show ?thesis using assms(4) by (auto simp: build_inv_def)
qed (use assms(4,6) in \<open>auto simp: finish_def\<close>)

text \<open>What building a router gives: it returns, keeps the invariant, and a handler answers as it should.\<close>

definition builds :: "'r env \<Rightarrow> routers \<Rightarrow> 'r set \<Rightarrow> (string \<Rightarrow> request \<Rightarrow> request \<Rightarrow> bool) \<Rightarrow> nat \<Rightarrow> string \<Rightarrow> 'r manager \<Rightarrow> bool" where
  "builds E c own guard fuel n m \<longleftrightarrow> (\<exists>res m'. buildRouterHandler E fuel (ctx_of n) n m = Some (res, m') \<and> build_inv E c own guard m' \<and>
     (\<forall>h q. res = Ok h \<longrightarrow> routed E c own guard n q (h q)))"

lemma builds_children:
  assumes IH: "\<forall>ch \<in> set cs. \<forall>m. build_inv E c own guard m \<longrightarrow> builds E c own guard fuel ch m"
    and names: "\<forall>n \<in> dom c. CHR ''@'' \<in> set n" and srt: "sort_Sort route_less (sort_routes E)"
    and "set cs \<subseteq> set kids" "build_inv E c own guard m" "routes_to E (\<lambda>ch rc. ch \<in> set kids \<and> Errs rc = []) (routed E c own guard) c (fst mn)"
  shows "\<exists>res m'. buildChildRoutersMuxer E fuel ctx cs mn m = Some (res, m') \<and> build_inv E c own guard m' \<and>
    (\<forall>mn'. res = Ok mn' \<longrightarrow> routes_to E (\<lambda>ch rc. ch \<in> set kids \<and> Errs rc = []) (routed E c own guard) c (fst mn') \<and>
       defaultHandler (fst mn') = defaultHandler (fst mn))"
  using assms
proof (induction cs arbitrary: mn m)
  case Nil
  then show ?case by auto
next
  case (Cons ch cs)
  have "\<forall>ch \<in> set cs. \<forall>m. build_inv E c own guard m \<longrightarrow> builds E c own guard fuel ch m" using Cons.prems(1) by simp
  note rest = Cons.IH [OF this names srt]
  have sub: "ch \<in> set kids" "set cs \<subseteq> set kids" using Cons.prems(4) by simp_all
  show ?case
  proof (cases "rconf m ch")
    case None
    then show ?thesis using Cons.prems(5) by simp
  next
    case (Some r)
    obtain rc where rc: "c ch = Some rc" "kept ch rc r"
      using tracks_Some [OF _ Some, of c] Cons.prems(5) unfolding build_inv_def by blast
    show ?thesis
    proof (cases "Errs r = []")
      case False
      then show ?thesis using Some rest [OF sub(2) Cons.prems(5,6)] by simp
    next
      case True
      let ?m1 = "update_router ch set_priority m"
      have inv1: "build_inv E c own guard ?m1"
        using Cons.prems(5) kept_changes(2) by (intro build_inv_update)
      obtain res m2 where b: "buildRouterHandler E fuel (ctx_of ch) ch ?m1 = Some (res, m2)" "build_inv E c own guard m2"
        "\<forall>h q. res = Ok h \<longrightarrow> routed E c own guard ch q (h q)"
        using Cons.prems(1) inv1 by (auto simp: builds_def)
      have ctx: "AddInContext ctx ch = ctx_of ch"
        using names rc(1) by (intro AddInContext_ctx_of) auto
      have inv3: "build_inv E c own guard (update_router ch (AddError e True) m2)" for e
        using b(2) kept_changes(1) by (intro build_inv_update)
      let ?r = "set_priority r"
      have rule: "Rule ?r = Rule rc" "RuleSyntax ?r = RuleSyntax rc" "Errs rc = []"
        using rc(2) True by (auto simp: kept_def set_priority_def)
      show ?thesis
      proof (cases res)
        case (Ok h)
        show ?thesis
        proof (cases "AddRoute (sort_routes E) (predicateParse E) (Rule rc) (RuleSyntax rc) (Priority ?r) h (fst mn)")
          case (Ok mux)
          have "routes_to E (\<lambda>ch rc. ch \<in> set kids \<and> Errs rc = []) (routed E c own guard) c mux \<and> defaultHandler mux = defaultHandler (fst mn)"
            using routes_to_AddRoute [OF Cons.prems(6) srt rc(1) _ _ Ok] sub(1) rule(3) b(3) \<open>res = Ok h\<close> by simp
          then show ?thesis
            using rest [OF sub(2) b(2), of "(mux, snd mn + 1)"] Some True b(1) \<open>res = Ok h\<close> Ok rule by (simp add: ctx Let_def)
        qed (use rest [OF sub(2) inv3 Cons.prems(6)] Some True b(1,2) Ok rule in \<open>simp_all add: ctx Let_def\<close>)
      qed (use rest [OF sub(2) inv3 Cons.prems(6)] Some True b(1,2) in \<open>simp_all add: ctx Let_def\<close>)
    qed
  qed
qed

definition ranked :: "routers \<Rightarrow> (string \<Rightarrow> nat) \<Rightarrow> bool" where
  "ranked c rank \<longleftrightarrow> (\<forall>p n. reaches c p \<longrightarrow> n \<in> set (child_refs c p) \<longrightarrow> rank n < rank p)"

lemma builds_router:
  assumes "guarded E c own guard" "\<forall>n \<in> dom c. CHR ''@'' \<in> set n" "sort_Sort route_less (sort_routes E)" "ranked c rank"
  shows "reaches c n \<Longrightarrow> rank n < fuel \<Longrightarrow> build_inv E c own guard m \<Longrightarrow> builds E c own guard fuel n m"
proof (induction fuel arbitrary: n m)
  case (Suc fuel)
  show ?case
  proof (cases "routerHandlers m n")
    case (Some h)
    then show ?thesis using Suc.prems(3) by (auto simp: builds_def build_inv_def)
  next
    case none: None
    show ?thesis
    proof (cases "rconf m n")
      case None
      then show ?thesis using none Suc.prems(3) by (simp add: builds_def)
    next
      case (Some r)
      obtain r0 where r0: "c n = Some r0" "kept n r0 r"
        using tracks_Some [OF _ Some, of c] Suc.prems(3) unfolding build_inv_def by blast
      let ?r = "qualify_middlewares (ctx_of n) r" and ?m1 = "update_router n (qualify_middlewares (ctx_of n)) m"
      let ?mux0 = "SetDefaultHandler (\<lambda>_. answer404 E) (NewMuxer (syntaxes E))"
      have inv1: "build_inv E c own guard ?m1"
        using Suc.prems(3) kept_changes(3) by (intro build_inv_update)
      have kids: "ChildRefs ?r = ChildRefs r0" "Service ?r = Service r0"
        using r0(2) by (simp_all add: kept_def qualify_middlewares_def)
      consider e where "check_tls E (ctx_of n) r = Some e" | "check_tls E (ctx_of n) r = None" "ChildRefs r0 \<noteq> []"
        | "check_tls E (ctx_of n) r = None" "ChildRefs r0 = []" "Service r0 \<noteq> []"
        | "check_tls E (ctx_of n) r = None" "ChildRefs r0 = []" "Service r0 = []" by fastforce
      then show ?thesis
      proof cases
        case 1
        then show ?thesis using none Some Suc.prems(3) by (simp add: builds_def)
      next
        case 2
        have "builds E c own guard fuel ch m'" if "ch \<in> set (ChildRefs r0)" "build_inv E c own guard m'" for ch m'
        proof -
          have "ch \<in> set (child_refs c n)" using that(1) r0(1) by (simp add: child_refs_def)
          then have "reaches c ch" "rank ch < rank n"
            using Suc.prems(1) assms(4) by (auto intro: reaches.child simp: ranked_def)
          then show ?thesis using Suc.IH that(2) Suc.prems(2) by simp
        qed
        then have "\<forall>ch \<in> set (ChildRefs r0). \<forall>m. build_inv E c own guard m \<longrightarrow> builds E c own guard fuel ch m" by blast
        moreover have "routes_to E (\<lambda>ch rc. ch \<in> set (ChildRefs r0) \<and> Errs rc = []) (routed E c own guard) c (fst (?mux0, 0 :: nat))"
          by (simp add: routes_to_def SetDefaultHandler_def NewMuxer_def)
        ultimately obtain res m2 where b: "buildChildRoutersMuxer E fuel (ctx_of n) (ChildRefs r0) (?mux0, 0) ?m1 = Some (res, m2)" "build_inv E c own guard m2"
          "\<forall>mn'. res = Ok mn' \<longrightarrow> routes_to E (\<lambda>ch rc. ch \<in> set (ChildRefs r0) \<and> Errs rc = []) (routed E c own guard) c (fst mn') \<and>
             defaultHandler (fst mn') = defaultHandler (fst (?mux0, 0 :: nat))"
          using builds_children [OF _ assms(2,3) order.refl inv1, of "ChildRefs r0" fuel "(?mux0, 0)" "ctx_of n"] by blast
        have "routed E c own guard n q (h q')" if h: "bind_outcome res (child_muxer E) = Ok h" "guard n q q'" for h q q'
        proof -
          obtain mn where mn: "res = Ok mn" "h = mux_handler E (fst mn)"
            using h(1) by (auto simp: child_muxer_def split: if_splits)
          then show ?thesis
            using b(3) routed_muxer [of c n r0 guard q q' E own "fst mn"] r0(1) h(2) assms(1) by (simp add: guarded_def SetDefaultHandler_def)
        qed
        then have "\<forall>h q q'. bind_outcome res (child_muxer E) = Ok h \<longrightarrow> guard n q q' \<longrightarrow> routed E c own guard n q (h q')" by blast
        note fin = build_inv_finish [OF assms(1) r0 b(2) this, of "n @ ''-muxer''"]
        then show ?thesis
          using none Some 2 b(1) kids by (cases "finish E (ctx_of n) n ?r (n @ ''-muxer'') (bind_outcome res (child_muxer E)) m2") (simp add: builds_def Let_def)
      next
        case 3
        let ?svc = "GetQualifiedName (ctx_of n) (Service r0)"
        have "routed E c own guard n q (h q')" if "BuildHTTP E (ctx_of n) ?svc = Ok h" "guard n q q'" for h q q'
          using that r0(1) 3(3) by (intro routed.service)
        then have "\<forall>h q q'. BuildHTTP E (ctx_of n) ?svc = Ok h \<longrightarrow> guard n q q' \<longrightarrow> routed E c own guard n q (h q')" by blast
        note fin = build_inv_finish [OF assms(1) r0 inv1 this, of ?svc]
        then show ?thesis
          using none Some 3 kids by (cases "finish E (ctx_of n) n ?r ?svc (BuildHTTP E (ctx_of n) ?svc) ?m1") (simp add: builds_def Let_def)
      next
        case 4
        then show ?thesis using none Some inv1 kids by (simp add: builds_def Let_def)
      qed
    qed
  qed
qed simp

subsection \<open>Building an entry point\<close>

text \<open>The answer to a request that an entry point hands to router \<open>n\<close> behind its wrappers.\<close>

definition entered :: "'r set \<Rightarrow> (request \<Rightarrow> request \<Rightarrow> bool) \<Rightarrow> (string \<Rightarrow> request \<Rightarrow> 'r \<Rightarrow> bool) \<Rightarrow> string \<Rightarrow> request \<Rightarrow> 'r \<Rightarrow> bool" where
  "entered own obs ans n q a \<longleftrightarrow> a \<in> own \<or> (\<exists>q'. obs q q' \<and> ans n q' a)"

abbreviation root_in :: "string list \<Rightarrow> string \<Rightarrow> RouterInfo \<Rightarrow> bool" where
  "root_in ns n r \<equiv> n \<in> set ns \<and> elems (ParentRefs r) = []"

lemma add_root_routes:
  assumes "routes_to E ok (entered own obs (routed E c own guard)) c mux" "sort_Sort route_less (sort_routes E)" "c n = Some r0" "ok n r0"
    and "Rule r = Rule r0" "RuleSyntax r = RuleSyntax r0" "\<forall>ctx ep b cfg. relays E own obs (BuildEPChain E ctx ep b cfg)"
    and "\<forall>q. routed E c own guard n q (h q)" "add_root E ctx ep r cfg h mux = Ok mux'"
  shows "routes_to E ok (entered own obs (routed E c own guard)) c mux' \<and> defaultHandler mux' = defaultHandler mux"
proof -
  obtain h' where h': "Then E (BuildEPChain E ctx ep (HasSuffix (Service r) ''@internal'') cfg) h = Ok h'"
    "AddRoute (sort_routes E) (predicateParse E) (Rule r0) (RuleSyntax r0) (Priority r) h' mux = Ok mux'"
    using assms(5,6,9) by (auto simp: add_root_def)
  have "entered own obs (routed E c own guard) n q (h' q)" for q
    using assms(7,8) h'(1) unfolding relays_def entered_def by metis
  then show ?thesis
    using routes_to_AddRoute [OF assms(1-4) _ h'(2)] by blast
qed

lemma adds_routers:
  assumes "guarded E c own guard" "\<forall>n \<in> dom c. CHR ''@'' \<in> set n" "sort_Sort route_less (sort_routes E)" "ranked c rank"
    and "\<forall>ctx ep b cfg. relays E own obs (BuildEPChain E ctx ep b cfg)"
    and "\<forall>n \<in> set ns. rank n < fuel" "set ns \<subseteq> set all" "build_inv E c own guard m"
    and "routes_to E (root_in all) (entered own obs (routed E c own guard)) c mux"
  shows "\<exists>res m'. add_routers E fuel ctx ep ns cfg mux m = Some (res, m') \<and> build_inv E c own guard m' \<and>
    (\<forall>mux'. res = Ok mux' \<longrightarrow> routes_to E (root_in all) (entered own obs (routed E c own guard)) c mux' \<and> defaultHandler mux' = defaultHandler mux)"
  using assms(6-9)
proof (induction ns arbitrary: cfg mux m)
  case (Cons n ns)
  let ?m1 = "update_router n set_priority m"
  have inv1: "build_inv E c own guard ?m1"
    using Cons.prems(3) kept_changes(2) by (intro build_inv_update)
  have sub: "\<forall>n \<in> set ns. rank n < fuel" "set ns \<subseteq> set all" "n \<in> set all" "rank n < fuel" using Cons.prems(1,2) by simp_all
  show ?case
  proof (cases "rconf ?m1 n")
    case None
    then show ?thesis using inv1 by simp
  next
    case (Some r)
    obtain r0 where r0: "c n = Some r0" "kept n r0 r"
      using tracks_Some [OF _ Some, of c] inv1 unfolding build_inv_def by blast
    have ctx: "AddInContext ctx n = ctx_of n"
      using assms(2) r0(1) by (intro AddInContext_ctx_of) auto
    have inv3: "build_inv E c own guard (update_router n (AddError e True) m')" if "build_inv E c own guard m'" for e m'
      using that kept_changes(1) by (intro build_inv_update)
    consider "exceeds_priority n r" | "\<not> exceeds_priority n r" "elems (ParentRefs r) \<noteq> []" | "\<not> exceeds_priority n r" "elems (ParentRefs r) = []" by blast
    then show ?thesis
    proof cases
      case 1
      then show ?thesis using Some Cons.IH [OF sub(1,2) inv3 [OF inv1] Cons.prems(4)] by (simp add: Let_def)
    next
      case 2
      then show ?thesis using Some Cons.IH [OF sub(1,2) inv1 Cons.prems(4)] by (simp add: Let_def)
    next
      case 3
      have root: "elems (ParentRefs r0) = []" "Rule r = Rule r0" "RuleSyntax r = RuleSyntax r0" using 3(2) r0(2) by (simp_all add: kept_def)
      then have "reaches c n" using r0(1) by (intro reaches.root) (simp add: is_root_def)
      then obtain res m2 where b: "buildRouterHandler E fuel (ctx_of n) n ?m1 = Some (res, m2)" "build_inv E c own guard m2"
        "\<forall>h q. res = Ok h \<longrightarrow> routed E c own guard n q (h q)"
        using builds_router [OF assms(1-4) _ sub(4) inv1] by (auto simp: builds_def)
      show ?thesis
      proof (cases res)
        case (Ok h)
        let ?cfg = "case Observability r of Some obs \<Rightarrow> obs | None \<Rightarrow> cfg"
        show ?thesis
        proof (cases "add_root E (ctx_of n) ep r ?cfg h mux")
          case (Ok mux')
          have "routes_to E (root_in all) (entered own obs (routed E c own guard)) c mux' \<and> defaultHandler mux' = defaultHandler mux"
            using add_root_routes [OF Cons.prems(4) assms(3) r0(1) _ root(2,3) assms(5) _ Ok] sub(3) root(1) b(3) \<open>res = Ok h\<close> by simp
          then show ?thesis
            using Cons.IH [OF sub(1,2) b(2), of mux' ?cfg] Some 3 b(1) \<open>res = Ok h\<close> Ok by (simp add: ctx Let_def)
        qed (use Cons.IH [OF sub(1,2) inv3 [OF b(2)] Cons.prems(4)] Some 3 b(1,2) Ok in \<open>simp_all add: ctx Let_def\<close>)
      qed (use Cons.IH [OF sub(1,2) inv3 [OF b(2)] Cons.prems(4)] Some 3 b(1,2) in \<open>simp_all add: ctx Let_def\<close>)
    qed
  qed
qed simp

lemma entry_point_answers:
  assumes "routes_to E (root_in ns) (entered own obs ans) c mux" "defaultHandler mux = Some dh" "\<And>q. dh q \<in> own"
    and "relays E own (=) [RecoveryNew E]" "Then E [RecoveryNew E] (mux_handler E mux) = Ok h" "answer404 E \<in> own" "answer400 E \<in> own"
  shows "h q \<in> own \<or> (\<exists>n r q1 q2. n \<in> set ns \<and> c n = Some r \<and> elems (ParentRefs r) = [] \<and> withRoutingPath q = Ok q1 \<and> rule_matches E r q1 \<and>
    obs q1 q2 \<and> ans n q2 (h q))"
proof -
  have "h q \<in> own \<or> h q = mux_handler E mux q"
    using assms(4,5) unfolding relays_def by blast
  moreover have "mux_handler E mux q \<in> own \<or> (\<exists>n r q1 q2. n \<in> set ns \<and> c n = Some r \<and> elems (ParentRefs r) = [] \<and> withRoutingPath q = Ok q1 \<and>
      rule_matches E r q1 \<and> obs q1 q2 \<and> ans n q2 (mux_handler E mux q))"
    by (rule mux_handler_cases [OF assms(1), of q]) (use assms(2,3,6,7) in \<open>auto simp: entered_def\<close>)
  ultimately show ?thesis by auto
qed

text \<open>
  C11. A request reaches a service only through its routers. For any tree of routers accepted by \<open>ParseRouterTree\<close>, building the handler of an entry
  point returns. Each answer of the handler is one that middlewares and muxers give themselves, or stems from a chain of routers: a root router of the entry
  point whose rule matches the request, then children without errors, each with a rule that matches the request as the middlewares
  of all routers before have let it pass, down to the service of the last one, behind its own middlewares. So no request gets around the
  middlewares of a parent, and no router with an error is used as a child.
\<close>

theorem nested_routing:
  assumes "initial c0 order1" "ParseRouterTree order1 order2 c0 = Some c" "\<forall>n \<in> dom c0. CHR ''@'' \<in> set n"
    and "sort_Sort route_less (sort_routes E)" "guarded E c own guard"
    and "\<forall>ctx ep b cfg. relays E own obs (BuildEPChain E ctx ep b cfg)" "relays E own (=) [RecoveryNew E]"
  shows "\<exists>fuel0. \<forall>fuel \<ge> fuel0. \<exists>res m'.
    buildEntryPointHandler E fuel ctx ep ns cfg \<lparr>rconf = c, routerHandlers = Map.empty\<rparr> = Some (res, m') \<and>
    (\<forall>h q. res = Ok h \<longrightarrow> h q \<in> own \<or>
       (\<exists>n r q1 q2. n \<in> set ns \<and> c n = Some r \<and> elems (ParentRefs r) = [] \<and> withRoutingPath q = Ok q1 \<and> rule_matches E r q1 \<and> obs q1 q2 \<and>
          routed E c own guard n q2 (h q)))"
proof -
  obtain rank :: "string \<Rightarrow> nat" where "ranked c rank"
    using ParseRouterTree_ranked [OF assms(1,2)] unfolding ranked_def by blast
  have dom: "\<forall>n \<in> dom c. CHR ''@'' \<in> set n"
    using ParseRouterTree_dom [OF assms(1,2)] assms(3) by simp
  let ?m = "\<lparr>rconf = c, routerHandlers = Map.empty\<rparr>"
  have inv: "build_inv E c own guard ?m"
    by (auto simp: build_inv_def tracks_def kept_refl split: option.split)
  let ?ans = "entered own obs (routed E c own guard)"
  have "\<exists>res m'. buildEntryPointHandler E fuel ctx ep ns cfg ?m = Some (res, m') \<and>
      (\<forall>h q. res = Ok h \<longrightarrow> h q \<in> own \<or>
         (\<exists>n r q1 q2. n \<in> set ns \<and> c n = Some r \<and> elems (ParentRefs r) = [] \<and> withRoutingPath q = Ok q1 \<and> rule_matches E r q1 \<and> obs q1 q2 \<and>
            routed E c own guard n q2 (h q)))" if fuel: "Suc (Max (insert 0 (rank ` set ns))) \<le> fuel" for fuel
  proof (cases "Then E (BuildEPChain E ctx ep False cfg) (\<lambda>_. answer404 E)")
    case (Ok dh)
    let ?mux = "SetDefaultHandler dh (NewMuxer (syntaxes E))"
    have "rank n \<le> Max (insert 0 (rank ` set ns))" if "n \<in> set ns" for n
      using that by simp
    then have "\<forall>n \<in> set ns. rank n < fuel"
      using fuel by (meson Suc_le_lessD le_less_trans)
    moreover have "routes_to E (root_in ns) ?ans c ?mux"
      by (simp add: routes_to_def SetDefaultHandler_def NewMuxer_def)
    ultimately obtain res m' where add: "add_routers E fuel ctx ep ns cfg ?mux ?m = Some (res, m')"
      "\<forall>mux'. res = Ok mux' \<longrightarrow> routes_to E (root_in ns) ?ans c mux' \<and> defaultHandler mux' = defaultHandler ?mux"
      using adds_routers [OF assms(5) dom assms(4) \<open>ranked c rank\<close> assms(6) _ order.refl inv] by blast
    have dh: "dh q \<in> own" for q
      using assms(5,6) Ok unfolding relays_def guarded_def by metis
    let ?res = "bind_outcome res (\<lambda>mux. Then E [RecoveryNew E] (mux_handler E mux))"
    have "buildEntryPointHandler E fuel ctx ep ns cfg ?m = Some (?res, m')"
      using add(1) Ok by (simp add: buildEntryPointHandler_def)
    moreover have "h q \<in> own \<or>
         (\<exists>n r q1 q2. n \<in> set ns \<and> c n = Some r \<and> elems (ParentRefs r) = [] \<and> withRoutingPath q = Ok q1 \<and> rule_matches E r q1 \<and> obs q1 q2 \<and>
            routed E c own guard n q2 (h q))" if h: "?res = Ok h" for h q
    proof -
      obtain mux where mux: "res = Ok mux" "Then E [RecoveryNew E] (mux_handler E mux) = Ok h" using h by auto
      show ?thesis
        by (rule entry_point_answers [OF _ _ _ assms(7) mux(2), of ns obs "routed E c own guard" c dh])
          (use add(2) mux(1) dh assms(5) in \<open>auto simp: SetDefaultHandler_def guarded_def\<close>)
    qed
    ultimately show ?thesis by blast
  qed (simp_all add: buildEntryPointHandler_def)
  then show ?thesis by blast
qed

text \<open>
  A parent that lets only \<open>GET\<close> requests pass, and a child with a service: whoever gets the answer of the service has sent such a request.
\<close>

definition demo_env :: "string env" where
  "demo_env = \<lparr>BuildHTTP = (\<lambda>_ _. Ok (\<lambda>_. ''secret'')),
     BuildMiddlewareChain = (\<lambda>_ ns. [\<lambda>h. Ok (\<lambda>q. if ns = [] \<or> Method q = ''GET'' then h q else ''401'')]),
     TLSGet = (\<lambda>_ _. None), Then = (\<lambda>ws h. foldr (\<lambda>w acc. bind_outcome acc w) ws (Ok h)),
     WrapRouterHandler = (\<lambda>_ _ _. Ok), RouterMetricsHandler = (\<lambda>_ _. Ok), RouterNameField = (\<lambda>_. Ok), BuildEPChain = (\<lambda>_ _ _ _. []),
     RecoveryNew = Ok, answer404 = ''404'', answer400 = ''400'', sort_routes = insertionSort route_less,
     predicateParse = demo_Parse, syntaxes = demo_syntax\<rparr>"

definition demo_tree :: routers where
  "demo_tree = [''a@f'' \<mapsto> demo_router\<lparr>Rule := ''Path(`/a`)'', Middlewares := [''auth'']\<rparr>,
     ''b@f'' \<mapsto> demo_router\<lparr>Rule := ''Path(`/a`)'', ParentRefs := Some [''a@f''], Service := ''s''\<rparr>]"

lemma demo_tree_parsed:
  obtains c ra rb where "ParseRouterTree [''a@f'', ''b@f''] [''a@f'', ''b@f''] demo_tree = Some c"
    "c ''a@f'' = Some ra" "c ''b@f'' = Some rb" "dom c = {''a@f'', ''b@f''}" "Service ra = []" "Middlewares ra = [''auth'']"
    "DefaultRule ra = False" "DefaultRule rb = False" "DeniedEncodedPathCharacters ra = None" "DeniedEncodedPathCharacters rb = None"
proof -
  have init: "initial demo_tree [''a@f'', ''b@f'']"
    by (auto simp: initial_def demo_tree_def demo_router_def ran_def)
  have ev: "map_option (\<lambda>c. (map_option (\<lambda>r. (Service r, Middlewares r, DefaultRule r, DeniedEncodedPathCharacters r)) (c ''a@f''),
      map_option (\<lambda>r. (DefaultRule r, DeniedEncodedPathCharacters r)) (c ''b@f'')))
      (ParseRouterTree [''a@f'', ''b@f''] [''a@f'', ''b@f''] demo_tree) = Some (Some ([], [''auth''], False, None), Some (False, None))"
    by code_simp
  then obtain c where c: "ParseRouterTree [''a@f'', ''b@f''] [''a@f'', ''b@f''] demo_tree = Some c"
    by (cases "ParseRouterTree [''a@f'', ''b@f''] [''a@f'', ''b@f''] demo_tree") simp_all
  then have ev2: "map_option (\<lambda>r. (Service r, Middlewares r, DefaultRule r, DeniedEncodedPathCharacters r)) (c ''a@f'') = Some ([], [''auth''], False, None)"
    "map_option (\<lambda>r. (DefaultRule r, DeniedEncodedPathCharacters r)) (c ''b@f'') = Some (False, None)"
    using ev by simp_all
  have "dom demo_tree = {''a@f'', ''b@f''}"
    by (simp add: demo_tree_def insert_commute)
  then have dom: "dom c = {''a@f'', ''b@f''}"
    using ParseRouterTree_dom [OF init c] by simp
  obtain ra where "c ''a@f'' = Some ra" "Service ra = []" "Middlewares ra = [''auth'']" "DefaultRule ra = False" "DeniedEncodedPathCharacters ra = None"
    using ev2(1) by (cases "c ''a@f''") simp_all
  moreover obtain rb where "c ''b@f'' = Some rb" "DefaultRule rb = False" "DeniedEncodedPathCharacters rb = None"
    using ev2(2) by (cases "c ''b@f''") simp_all
  ultimately show ?thesis using that c dom by blast
qed

definition demo_obs :: RouterObservabilityConfig where
  "demo_obs = \<lparr>AccessLogs = None, Metrics = None, Tracing = None, TraceVerbosity = MinimalVerbosity\<rparr>"

definition demo_guard :: "string \<Rightarrow> request \<Rightarrow> request \<Rightarrow> bool" where
  "demo_guard n q q' \<longleftrightarrow> q' = q \<and> (n = ''a@f'' \<longrightarrow> Method q = ''GET'')"

lemma demo_chain:
  assumes "DefaultRule r = False" "DeniedEncodedPathCharacters r = None" "n = ''a@f'' \<longrightarrow> Middlewares r \<noteq> []"
  shows "relays demo_env {''404'', ''400'', ''401''} (demo_guard n) (router_chain demo_env ctx n (qualify_middlewares ctx r) svc)"
proof -
  have "Then demo_env (router_chain demo_env ctx n (qualify_middlewares ctx r) svc) h =
      Ok (\<lambda>q. if Middlewares r = [] \<or> Method q = ''GET'' then h q else ''401'')" for h
    using assms(1,2) by (simp add: demo_env_def router_chain_def qualify_middlewares_def)
  then show ?thesis
    using assms(3) by (auto simp: relays_def demo_guard_def)
qed

theorem nested_routing_witness:
  "\<exists>c fuel res m'. ParseRouterTree [''a@f'', ''b@f''] [''a@f'', ''b@f''] demo_tree = Some c \<and>
     buildEntryPointHandler demo_env fuel None ''web'' [''a@f''] demo_obs \<lparr>rconf = c, routerHandlers = Map.empty\<rparr> = Some (res, m') \<and>
     (\<forall>h q. res = Ok h \<longrightarrow> h q = ''secret'' \<longrightarrow> Method q = ''GET'')"
proof -
  obtain c ra rb where c: "ParseRouterTree [''a@f'', ''b@f''] [''a@f'', ''b@f''] demo_tree = Some c"
    "c ''a@f'' = Some ra" "c ''b@f'' = Some rb" "dom c = {''a@f'', ''b@f''}" "Service ra = []" "Middlewares ra = [''auth'']"
    "DefaultRule ra = False" "DefaultRule rb = False" "DeniedEncodedPathCharacters ra = None" "DeniedEncodedPathCharacters rb = None"
    by (rule demo_tree_parsed)
  let ?own = "{''404'', ''400'', ''401''}"
  have init: "initial demo_tree [''a@f'', ''b@f'']" "\<forall>n \<in> dom demo_tree. CHR ''@'' \<in> set n"
    by (auto simp: initial_def demo_tree_def demo_router_def ran_def)
  have "relays demo_env ?own (demo_guard n) (router_chain demo_env (ctx_of n) n (qualify_middlewares (ctx_of n) r) svc)" if n: "c n = Some r" for n r svc
  proof (rule demo_chain)
    have "n = ''a@f'' \<or> n = ''b@f''"
      using domI [of c n r] n unfolding c(4) by simp
    then have "n = ''a@f'' \<and> r = ra \<or> n = ''b@f'' \<and> r = rb"
      using n c(2,3) by (elim disjE) simp_all
    then show "DefaultRule r = False" "DeniedEncodedPathCharacters r = None" "n = ''a@f'' \<longrightarrow> Middlewares r \<noteq> []"
      using c(6-10) by auto
  qed
  then have guarded: "guarded demo_env c ?own demo_guard"
    by (simp add: guarded_def) (simp add: demo_env_def)
  have srt: "sort_Sort route_less (sort_routes demo_env)"
    by (simp add: demo_env_def route_sort.sort_Sort_axioms)
  have rel: "\<forall>ctx ep b cfg. relays demo_env ?own (=) (BuildEPChain demo_env ctx ep b cfg)" "relays demo_env ?own (=) [RecoveryNew demo_env]"
    by (simp_all add: relays_def demo_env_def)
  have get: "Method q = ''GET''" if "routed demo_env c ?own demo_guard ''a@f'' q ''secret''" for q
    using that by (cases rule: routed.cases) (use c(2,5) in \<open>auto simp: demo_guard_def\<close>)
  obtain fuel res m' where b: "buildEntryPointHandler demo_env fuel None ''web'' [''a@f''] demo_obs \<lparr>rconf = c, routerHandlers = Map.empty\<rparr> = Some (res, m')"
    "\<forall>h q. res = Ok h \<longrightarrow> h q \<in> ?own \<or> (\<exists>n r q1 q2. n \<in> set [''a@f''] \<and> c n = Some r \<and> elems (ParentRefs r) = [] \<and>
       withRoutingPath q = Ok q1 \<and> rule_matches demo_env r q1 \<and> q1 = q2 \<and> routed demo_env c ?own demo_guard n q2 (h q))"
    using nested_routing [OF init(1) c(1) init(2) srt guarded rel, of None "''web''" "[''a@f'']" demo_obs] by blast
  have "Method q = ''GET''" if h: "res = Ok h" "h q = ''secret''" for h q
  proof -
    have "h q \<notin> ?own" using h(2) by simp
    then obtain q1 where "withRoutingPath q = Ok q1" "routed demo_env c ?own demo_guard ''a@f'' q1 (h q)"
      using b(2) [rule_format, OF h(1), of q] by auto
    then show ?thesis using get [of q1] h(2) by (auto simp: withRoutingPath_def)
  qed
  then show ?thesis using c(1) b(1) by blast
qed

end
