(* ===== verification/PathClean.thy ===== *)
theory PathClean
  imports UrlPath
begin

section \<open>Cleaning of request paths\<close>

text \<open>
  The requests that the handlers of an entry point pass on, with the parts of \<open>net/url\<close> and \<open>path\<close> they rely on: \<open>URL.RequestURI\<close>,
  \<open>URL.JoinPath\<close> and \<open>path.Clean\<close>, whose loop over the bytes of a path is written out on the buffer in reverse. Then the three handlers of
  \<open>pkg/server/server_entrypoint_tcp.go\<close> that reject fragments, encode semicolons in queries, and remove dot segments. A handler is
  modelled by the request that its successor gets, where \<^const>\<open>None\<close> is the answer 400.

  The lemmas show that \<open>path.Clean\<close> is the removal of segments by a stack, and that its result has neither dot segments nor empty ones.
\<close>

record http_url =
  urlPath :: url
  RawQuery :: string
  ForceQuery :: bool
  Opaque :: string
  Scheme :: string

record http_request =
  reqMethod :: string
  URL :: http_url
  RequestURI :: string
  Host :: string
  reqHeader :: "string \<rightharpoonup> string list"
  reqRemoteAddr :: string
  reqTLS :: bool
  ctxCanonical :: "string option"
  ctxFlatten :: "string option"
  ctxNotAppendXFF :: bool

subsection \<open>Library functions\<close>

definition URL_RequestURI :: "http_url \<Rightarrow> string" where
  "URL_RequestURI u =
     (let result =
        (if Opaque u = [] then
           (let p = URL_EscapedPath (urlPath u) in if p = [] then ''/'' else p)
         else if HasPrefix (Opaque u) ''//'' then Scheme u @ '':'' @ Opaque u
         else Opaque u)
      in if ForceQuery u \<or> RawQuery u \<noteq> [] then result @ ''?'' @ RawQuery u else result)"

text \<open>
  \<open>path.Clean\<close> of a rooted path. The first argument is the output buffer in reverse, which ends in the leading slash; \<open>backtrack\<close> removes
  its last segment.
\<close>

fun backtrack :: "string \<Rightarrow> string" where
  "backtrack [] = []"
| "backtrack (c # out) =
     (if out = [] then [c]
      else if c = CHR ''/'' \<or> length out = 1 then out
      else backtrack out)"

function clean_loop :: "string \<Rightarrow> string \<Rightarrow> string" where
  "clean_loop out [] = rev out"
| "clean_loop out (c # cs) =
     (if c = CHR ''/'' then clean_loop out cs
      else if c = CHR ''.'' \<and> (cs = [] \<or> hd cs = CHR ''/'') then clean_loop out cs
      else if c = CHR ''.'' \<and> hd cs = CHR ''.'' \<and> (tl cs = [] \<or> hd (tl cs) = CHR ''/'') then
        clean_loop (backtrack out) (tl cs)
      else
        clean_loop (rev (takeWhile (\<lambda>x. x \<noteq> CHR ''/'') (c # cs)) @ (if length out \<noteq> 1 then CHR ''/'' # out else out))
          (dropWhile (\<lambda>x. x \<noteq> CHR ''/'') (c # cs)))"
  by pat_completeness auto
termination
  by (relation "measure (\<lambda>(out, s). length s)") (auto intro: le_imp_less_Suc length_dropWhile_le)

definition Clean_rooted :: "string \<Rightarrow> string" where
  "Clean_rooted p = clean_loop ''/'' (tl p)"

text \<open>\<open>URL.setPath\<close> and \<open>URL.JoinPath\<close> without further elements.\<close>

definition setPath :: "url \<Rightarrow> string \<Rightarrow> url" where
  "setPath u p =
     (case pct_decode p of
        None \<Rightarrow> u
      | Some path' \<Rightarrow> \<lparr>Path = path', RawPath = (if escape path' = p then [] else p)\<rparr>)"

definition JoinPath :: "url \<Rightarrow> url" where
  "JoinPath u =
     (let escaped = URL_EscapedPath u;
          relative = \<not> HasPrefix escaped ''/'';
          elem = (if relative then ''/'' @ escaped else escaped);
          cleaned = Clean_rooted elem;
          p = (if relative then tl cleaned else cleaned)
      in setPath u (if HasSuffix elem ''/'' \<and> \<not> HasSuffix p ''/'' then p @ ''/'' else p))"

text \<open>\<open>strings.ReplaceAll\<close> of a single byte.\<close>

definition replace_byte :: "char \<Rightarrow> string \<Rightarrow> string \<Rightarrow> string" where
  "replace_byte c new s = concat (map (\<lambda>x. if x = c then new else [x]) s)"

subsection \<open>Handlers\<close>

definition denyFragment :: "http_request \<Rightarrow> http_request option" where
  "denyFragment req = (if CHR ''#'' \<in> set (RawPath (urlPath (URL req))) then None else Some req)"

definition encodeQuerySemicolons :: "http_request \<Rightarrow> http_request option" where
  "encodeQuerySemicolons req =
     (if CHR '';'' \<in> set (RawQuery (URL req)) then
        let u = (URL req)\<lparr>RawQuery := replace_byte (CHR '';'') ''%3B'' (RawQuery (URL req))\<rparr>
        in Some (req\<lparr>URL := u, RequestURI := URL_RequestURI u\<rparr>)
      else Some req)"

text \<open>\<open>http.AllowQuerySemicolons\<close> of the library leaves the request URI as it is.\<close>

definition AllowQuerySemicolons :: "http_request \<Rightarrow> http_request option" where
  "AllowQuerySemicolons req =
     (if CHR '';'' \<in> set (RawQuery (URL req)) then
        Some (req\<lparr>URL := (URL req)\<lparr>RawQuery := replace_byte (CHR '';'') ''&'' (RawQuery (URL req))\<rparr>\<rparr>)
      else Some req)"

definition sanitizePath :: "http_request \<Rightarrow> http_request option" where
  "sanitizePath req =
     (let u = (URL req)\<lparr>urlPath := JoinPath (urlPath (URL req))\<rparr>
      in Some (req\<lparr>URL := u, RequestURI := URL_RequestURI u\<rparr>))"

text \<open>The handler around \<^const>\<open>normalizePath\<close>.\<close>

definition normalizePath_handler :: "http_request \<Rightarrow> http_request option" where
  "normalizePath_handler req =
     (case normalizePath (urlPath (URL req)) of
        None \<Rightarrow> None
      | Some u \<Rightarrow>
          if u = urlPath (URL req) then Some req
          else let u' = (URL req)\<lparr>urlPath := u\<rparr> in Some (req\<lparr>URL := u', RequestURI := URL_RequestURI u'\<rparr>))"

subsection \<open>Cleaning by segments\<close>

fun clean_segments :: "string list \<Rightarrow> string list \<Rightarrow> string list" where
  "clean_segments stack [] = rev stack"
| "clean_segments stack (s # ss) =
     (if s = [] \<or> s = ''.'' then clean_segments stack ss
      else if s = ''..'' then clean_segments (tl stack) ss
      else clean_segments (s # stack) ss)"

definition segments :: "string \<Rightarrow> string list" where
  "segments s = Split s (CHR ''/'')"

text \<open>The buffer that holds a stack of segments.\<close>

definition buffer :: "string list \<Rightarrow> string" where
  "buffer stack = rev (CHR ''/'' # Join (rev stack) ''/'')"

definition stack_ok :: "string list \<Rightarrow> bool" where
  "stack_ok stack \<longleftrightarrow> (\<forall>s \<in> set stack. s \<noteq> [] \<and> CHR ''/'' \<notin> set s)"

lemma segments_simps [simp]: "segments [] = [[]]" "segments (CHR ''/'' # s) = [] # segments s"
  by (simp_all add: segments_def)

lemma segments_first:
  fixes s :: string
  defines "d \<equiv> dropWhile (\<lambda>x. x \<noteq> CHR ''/'') s"
  shows "segments s = takeWhile (\<lambda>x. x \<noteq> CHR ''/'') s # tl (segments d)" "segments d = [] # tl (segments d)"
proof -
  have seg: "Split (takeWhile (\<lambda>x. x \<noteq> CHR ''/'') s) (CHR ''/'') = [takeWhile (\<lambda>x. x \<noteq> CHR ''/'') s]"
    by (intro Split_no_sep) (auto dest: set_takeWhileD)
  have s: "s = takeWhile (\<lambda>x. x \<noteq> CHR ''/'') s @ d" by (simp add: d_def)
  have "segments s = takeWhile (\<lambda>x. x \<noteq> CHR ''/'') s # tl (segments d) \<and> segments d = [] # tl (segments d)"
  proof (cases d)
    case Nil
    then have "segments s = [takeWhile (\<lambda>x. x \<noteq> CHR ''/'') s]"
      using s seg by (simp add: segments_def)
    then show ?thesis using Nil by simp
  next
    case (Cons c t)
    then have "c = CHR ''/''" using hd_dropWhile [of "\<lambda>x. x \<noteq> CHR ''/''" s] by (simp add: d_def)
    then have d: "d = CHR ''/'' # t" using Cons by simp
    have "segments s = Split (takeWhile (\<lambda>x. x \<noteq> CHR ''/'') s) (CHR ''/'') @ segments t"
      by (subst s) (simp only: d segments_def Split_append_sep)
    then show ?thesis using seg d by simp
  qed
  then show "segments s = takeWhile (\<lambda>x. x \<noteq> CHR ''/'') s # tl (segments d)" "segments d = [] # tl (segments d)"
    by blast+
qed

lemma Join_snoc: "xs \<noteq> [] \<Longrightarrow> Join (xs @ [x]) sep = Join xs sep @ sep @ x"
  by (induction xs rule: induct_list012) (simp_all add: Join_Cons)

lemma buffer_Nil [simp]: "buffer [] = ''/''"
  by (simp add: buffer_def)

lemma buffer_Cons: "buffer (s # stack) = rev s @ (if stack = [] then ''/'' else CHR ''/'' # buffer stack)"
  by (simp add: buffer_def Join_snoc)

lemma buffer_length: "stack_ok stack \<Longrightarrow> length (buffer stack) = 1 \<longleftrightarrow> stack = []"
  by (cases stack) (auto simp: buffer_Cons stack_ok_def)

lemma backtrack_append:
  assumes "CHR ''/'' \<notin> set r" "r \<noteq> []"
  shows "backtrack (r @ ''/'') = ''/''" "out \<noteq> [] \<Longrightarrow> backtrack (r @ CHR ''/'' # out) = out"
proof -
  show "backtrack (r @ ''/'') = ''/''"
    using assms by (induction r) auto
  show "backtrack (r @ CHR ''/'' # out) = out" if "out \<noteq> []"
    using assms that
  proof (induction r)
    case (Cons a r)
    then show ?case by (cases r) auto
  qed simp
qed

lemma backtrack_buffer: "stack_ok stack \<Longrightarrow> backtrack (buffer stack) = buffer (tl stack)"
proof (cases stack)
  case (Cons s st)
  moreover assume "stack_ok stack"
  ultimately have "s \<noteq> []" "CHR ''/'' \<notin> set s" by (auto simp: stack_ok_def)
  moreover have "buffer st \<noteq> []" by (simp add: buffer_def)
  ultimately show ?thesis using Cons by (simp add: buffer_Cons backtrack_append)
qed simp

text \<open>The loop over bytes is the stack of segments.\<close>

lemma clean_loop_segments:
  "stack_ok stack \<Longrightarrow> clean_loop (buffer stack) s = CHR ''/'' # Join (clean_segments stack (segments s)) ''/''"
proof (induction s arbitrary: stack rule: measure_induct_rule [where f = length])
  case (less s)
  show ?case
  proof (cases s)
    case Nil
    then show ?thesis by (simp add: buffer_def)
  next
    case (Cons c cs)
    let ?t = "takeWhile (\<lambda>x. x \<noteq> CHR ''/'') s" and ?d = "dropWhile (\<lambda>x. x \<noteq> CHR ''/'') s"
    consider (slash) "c = CHR ''/''"
      | (dot) "c = CHR ''.''" "cs = [] \<or> hd cs = CHR ''/''"
      | (dots) "c = CHR ''.''" "cs \<noteq> []" "hd cs = CHR ''.''" "tl cs = [] \<or> hd (tl cs) = CHR ''/''"
      | (other) "c \<noteq> CHR ''/''" "\<not> (c = CHR ''.'' \<and> (cs = [] \<or> hd cs = CHR ''/''))"
          "\<not> (c = CHR ''.'' \<and> hd cs = CHR ''.'' \<and> (tl cs = [] \<or> hd (tl cs) = CHR ''/''))"
      by blast
    then show ?thesis
    proof cases
      case slash
      then show ?thesis using less.IH [of cs stack] less.prems Cons by simp
    next
      case dot
      then have "clean_segments stack (segments s) = clean_segments stack (segments cs)"
        using Cons by (cases cs) (auto simp: segments_def)
      then show ?thesis using less.IH [of cs stack] less.prems Cons dot by auto
    next
      case dots
      then obtain ds where ds: "cs = CHR ''.'' # ds" by (cases cs) auto
      then have "clean_segments stack (segments s) = clean_segments (tl stack) (segments ds)"
        using Cons dots by (cases ds) (auto simp: segments_def)
      moreover have "stack_ok (tl stack)" using less.prems by (cases stack) (auto simp: stack_ok_def)
      ultimately show ?thesis
        using less.IH [of ds "tl stack"] less.prems Cons dots ds by (simp add: backtrack_buffer)
    next
      case other
      have seg: "?t \<noteq> []" "CHR ''/'' \<notin> set ?t" using Cons other(1) by (auto dest: set_takeWhileD)
      have td: "c # cs = ?t @ ?d" using Cons by simp
      have hd_d: "?d = [] \<or> hd ?d = CHR ''/''" using hd_dropWhile [of "\<lambda>x. x \<noteq> CHR ''/''" s] by blast
      have "?t \<noteq> ''.''"
      proof
        assume "?t = ''.''"
        with td have "c = CHR ''.''" "cs = ?d" by simp_all
        then show False using other(2) hd_d by metis
      qed
      moreover have "?t \<noteq> ''..''"
      proof
        assume "?t = ''..''"
        with td have "c = CHR ''.''" "cs = CHR ''.'' # ?d" by simp_all
        then show False using other(3) hd_d by (metis list.sel)
      qed
      moreover have "segments s = ?t # tl (segments ?d)" "segments ?d = [] # tl (segments ?d)"
        using segments_first [of s] by blast+
      ultimately have segs: "clean_segments stack (segments s) = clean_segments (?t # stack) (segments ?d)"
        using seg by (metis clean_segments.simps(2))
      have buf: "rev ?t @ (if length (buffer stack) \<noteq> 1 then CHR ''/'' # buffer stack else buffer stack) = buffer (?t # stack)"
        using buffer_length [OF less.prems] by (auto simp: buffer_Cons)
      have "length ?d < length s" using Cons other(1) by (simp add: le_imp_less_Suc length_dropWhile_le)
      moreover have "stack_ok (?t # stack)" using less.prems seg by (simp add: stack_ok_def)
      ultimately have "clean_loop (buffer (?t # stack)) ?d = CHR ''/'' # Join (clean_segments stack (segments s)) ''/''"
        using less.IH segs by simp
      moreover have "clean_loop (buffer stack) s = clean_loop (buffer (?t # stack)) ?d"
        unfolding buf [symmetric] using other unfolding Cons by (subst clean_loop.simps(2)) (simp only: if_False)
      ultimately show ?thesis by simp
    qed
  qed
qed

lemma Clean_segments: "Clean_rooted (CHR ''/'' # s) = CHR ''/'' # Join (clean_segments [] (segments s)) ''/''"
  using clean_loop_segments [of "[]" s] by (simp add: Clean_rooted_def stack_ok_def)

lemma clean_segments_kept:
  "s \<in> set (clean_segments stack ss) \<Longrightarrow> s \<in> set stack \<or> s \<in> set ss \<and> s \<notin> {[], ''.'', ''..''}"
proof (induction stack ss rule: clean_segments.induct)
  case (2 stack s' ss)
  then show ?case by (cases stack) (auto split: if_splits)
qed simp

lemma segments_Join:
  "ss \<noteq> [] \<Longrightarrow> \<forall>s \<in> set ss. CHR ''/'' \<notin> set s \<Longrightarrow> segments (Join ss ''/'') = ss"
proof (induction ss rule: induct_list012)
  case (3 x y zs)
  have "segments (x @ CHR ''/'' # Join (y # zs) ''/'') = Split x (CHR ''/'') @ segments (Join (y # zs) ''/'')"
    by (simp only: segments_def Split_append_sep)
  then show ?case using 3 by (simp add: Split_no_sep)
qed (simp_all add: segments_def Split_no_sep)

lemma segments_snoc_slash: "segments (s @ ''/'') = segments s @ [[]]"
  using Split_append_sep [of s "CHR ''/''" "[]"] by (simp add: segments_def)

subsection \<open>Dot segments\<close>

text \<open>Neither dot segments nor empty segments besides the first and the last one.\<close>

definition dot_free :: "string \<Rightarrow> bool" where
  "dot_free s \<longleftrightarrow> ''.'' \<notin> set (segments s) \<and> ''..'' \<notin> set (segments s) \<and> [] \<notin> set (butlast (tl (segments s)))"

text \<open>The path that \<open>JoinPath\<close> computes.\<close>

definition joined :: "string \<Rightarrow> string" where
  "joined escaped =
     (let relative = \<not> HasPrefix escaped ''/'';
          elem = (if relative then ''/'' @ escaped else escaped);
          cleaned = Clean_rooted elem;
          p = (if relative then tl cleaned else cleaned)
      in if HasSuffix elem ''/'' \<and> \<not> HasSuffix p ''/'' then p @ ''/'' else p)"

lemma JoinPath_joined: "JoinPath u = setPath u (joined (URL_EscapedPath u))"
  by (simp add: JoinPath_def joined_def Let_def)

lemma joined_cases:
  obtains ss where "\<forall>s \<in> set ss. s \<in> set (segments escaped) \<and> s \<notin> {[], ''.'', ''..''}"
    and "segments (joined escaped) \<in> {ss, ss @ [[]], [] # ss, [] # ss @ [[]], [[]], [[], []]}"
proof -
  define x where "x = (if HasPrefix escaped ''/'' then tl escaped else escaped)"
  let ?elem = "CHR ''/'' # x" and ?ss = "clean_segments [] (segments x)"
  let ?p = "if HasPrefix escaped ''/'' then CHR ''/'' # Join ?ss ''/'' else Join ?ss ''/''"
  have elem: "(if \<not> HasPrefix escaped ''/'' then ''/'' @ escaped else escaped) = ?elem"
    by (auto simp: x_def HasPrefix_append)
  have j: "joined escaped = (if HasSuffix ?elem ''/'' \<and> \<not> HasSuffix ?p ''/'' then ?p @ ''/'' else ?p)"
    unfolding joined_def Let_def elem Clean_segments by simp
  have "set (segments x) \<subseteq> set (segments escaped)"
    by (auto simp: x_def HasPrefix_append)
  then have kept: "\<forall>s \<in> set ?ss. s \<in> set (segments escaped) \<and> s \<notin> {[], ''.'', ''..''}"
    using clean_segments_kept [of _ "[]" "segments x"] by fastforce
  then have "\<forall>s \<in> set ?ss. CHR ''/'' \<notin> set s" by (auto simp: segments_def dest: Split_pieces)
  then have segs: "segments (Join ?ss ''/'') = (if ?ss = [] then [[]] else ?ss)"
    using segments_Join [of ?ss] by auto
  have "segments (joined escaped) \<in> {?ss, ?ss @ [[]], [] # ?ss, [] # ?ss @ [[]], [[]], [[], []]}"
  proof (cases "?ss = []")
    case True
    then have "joined escaped \<in> {''/'', []}" unfolding j by (auto simp: HasSuffix_def)
    then show ?thesis by auto
  next
    case False
    then have "segments ?p \<in> {?ss, [] # ?ss}" using segs by simp
    then have "segments (?p @ ''/'') \<in> {?ss @ [[]], [] # ?ss @ [[]]}" "segments ?p \<in> {?ss, [] # ?ss}"
      unfolding segments_snoc_slash by auto
    then show ?thesis unfolding j by (auto simp del: segments_simps)
  qed
  with kept show ?thesis by (rule that)
qed

lemma joined_dot_free: "dot_free (joined escaped)"
proof (rule joined_cases [of escaped])
  fix ss assume ss: "\<forall>s \<in> set ss. s \<in> set (segments escaped) \<and> s \<notin> {[], ''.'', ''..''}"
    and *: "segments (joined escaped) \<in> {ss, ss @ [[]], [] # ss, [] # ss @ [[]], [[]], [[], []]}"
  have mem: "[] \<notin> set ss" "''.'' \<notin> set ss" "''..'' \<notin> set ss" using ss by auto
  have "[] \<notin> set (butlast (tl ss))" "[] \<notin> set (butlast (tl (ss @ [[]])))"
    using mem(1) by (cases ss; auto dest: in_set_butlastD)+
  moreover have "[] \<notin> set (butlast ss)" using mem(1) by (auto dest: in_set_butlastD)
  ultimately show ?thesis
    using * mem unfolding dot_free_def insert_iff by (elim disjE) simp_all
qed

subsection \<open>Normal forms\<close>

text \<open>What \<open>normalizePath\<close> leaves: valid characters, and encoded ones in upper case that are not unreserved.\<close>

inductive normal :: "string \<Rightarrow> bool" where
  normal_Nil: "normal []"
| normal_raw: "c \<noteq> CHR ''%'' \<Longrightarrow> validEncoded_char c \<Longrightarrow> normal s \<Longrightarrow> normal (c # s)"
| normal_enc: "is_hex a \<Longrightarrow> is_hex b \<Longrightarrow> upper_char a = a \<Longrightarrow> upper_char b = b \<Longrightarrow>
    map_of unreservedCharacters [CHR ''%'', a, b] = None \<Longrightarrow> normal s \<Longrightarrow> normal (CHR ''%'' # a # b # s)"

lemma normalize_loop_normal:
  assumes "pct_ok s" "normalize_loop s = Some t" "validEncoded s"
  shows "normal t"
  using assms
proof (induction arbitrary: t rule: pct_ok.induct)
  case (pct_raw c s)
  then show ?case by (auto simp: string_of_byte_valid intro: normal_raw)
next
  case (pct_enc a b s)
  obtain t' where t': "normalize_loop s = Some t'" "t = norm_enc a b @ t'"
    using pct_enc.prems(1) by (auto simp: normalize_loop_enc simp del: normalize_loop.simps)
  then have "normal t'" using pct_enc by simp
  from pct_enc.hyps(1,2) show ?case
  proof (cases rule: norm_enc_cases)
    case (bare r)
    then show ?thesis using t' \<open>normal t'\<close> unreserved_char [OF bare(3)] by (auto intro: normal_raw)
  next
    case (encoded a' b' d)
    then show ?thesis using t' \<open>normal t'\<close> by (auto intro: normal_enc)
  qed
qed (simp add: normal_Nil)

lemma normal_ok: "normal s \<Longrightarrow> pct_ok s \<and> validEncoded s"
  by (induction rule: normal.induct) (auto simp: hex_upper(6))

lemma normal_append: "normal s \<Longrightarrow> normal t \<Longrightarrow> normal (s @ t)"
  by (induction rule: normal.induct) (auto intro: normal.intros)

lemma normal_slash: "normal ''/''"
  by (intro normal.intros) (auto simp: validEncoded_char_def shouldEscape_def)

lemma hex_not_slash: "is_hex a \<Longrightarrow> a \<noteq> CHR ''/''"
  by (auto simp: is_hex_def code_of_def)

lemma segments_Cons: "c \<noteq> CHR ''/'' \<Longrightarrow> segments (c # s) = (c # hd (segments s)) # tl (segments s)"
  by (simp add: segments_def split: list.split)

lemma segments_not_Nil [simp]: "segments s \<noteq> []"
  by (simp add: segments_def)

lemma segments_obtain: obtains p ps where "segments s = p # ps"
  by (meson list.exhaust segments_not_Nil)

lemma segments_enc:
  "is_hex a \<Longrightarrow> is_hex b \<Longrightarrow>
   segments (CHR ''%'' # a # b # s) = (CHR ''%'' # a # b # hd (segments s)) # tl (segments s)"
  by (simp add: segments_Cons hex_not_slash)

lemma normal_segments: "normal s \<Longrightarrow> \<forall>p \<in> set (segments s). normal p"
proof (induction rule: normal.induct)
  case (normal_raw c s)
  obtain p ps where "segments s = p # ps" by (rule segments_obtain)
  then show ?case
    using normal_raw by (cases "c = CHR ''/''") (auto simp: segments_Cons intro: normal.intros)
next
  case (normal_enc a b s)
  obtain p ps where "segments s = p # ps" by (rule segments_obtain)
  then show ?case using normal_enc.hyps normal_enc.IH by (auto simp: segments_enc intro: normal.intros)
qed (simp add: normal_Nil)

lemma normal_Join: "\<forall>p \<in> set ps. normal p \<Longrightarrow> normal (Join ps ''/'')"
proof (induction ps rule: induct_list012)
  case (3 x y zs)
  then show ?case using normal_append [OF _ normal_append [OF normal_slash]] by simp
qed (simp_all add: normal_Nil)

lemma Join_segments: "Join (segments s) ''/'' = s"
  by (simp add: segments_def)

lemma joined_normal: "normal escaped \<Longrightarrow> normal (joined escaped)"
proof (rule joined_cases [of escaped])
  fix ss assume "normal escaped" and ss: "\<forall>s \<in> set ss. s \<in> set (segments escaped) \<and> s \<notin> {[], ''.'', ''..''}"
    and *: "segments (joined escaped) \<in> {ss, ss @ [[]], [] # ss, [] # ss @ [[]], [[]], [[], []]}"
  have "set (segments (joined escaped)) \<subseteq> insert [] (set ss)"
    using * unfolding insert_iff by (elim disjE) auto
  then have "\<forall>p \<in> set (segments (joined escaped)). normal p"
    using ss normal_segments [OF \<open>normal escaped\<close>] normal_Nil by auto
  then show ?thesis using normal_Join Join_segments by metis
qed

text \<open>On normal forms the routing path has the same segments, up to characters that are neither dots nor slashes.\<close>

definition same_segment :: "string \<Rightarrow> string \<Rightarrow> bool" where
  "same_segment p r \<longleftrightarrow> (r = [] \<longrightarrow> p = []) \<and> (r = ''.'' \<longrightarrow> p = ''.'') \<and> (r = ''..'' \<longrightarrow> p = ''..'')"

lemma encoded_not_dot:
  assumes "is_hex a" "is_hex b" "upper_char a = a" "upper_char b = b" "map_of unreservedCharacters [CHR ''%'', a, b] = None"
    and "unescape a b = Some d"
  shows "d \<noteq> CHR ''.''"
proof
  assume "d = CHR ''.''"
  then have "[a, b] = [upperhex ! (code_of (CHR ''.'') div 16), upperhex ! (code_of (CHR ''.'') mod 16)]"
    using unescape_encodings [OF assms(6)] assms(3,4) by simp
  then have "a = CHR ''2''" "b = CHR ''E''" by (simp_all add: code_of_def upperhex_def)
  then show False using assms(5) by (simp add: unreservedCharacters_def)
qed

lemma normal_routing:
  "normal t \<Longrightarrow> \<exists>rp. routing_path t = Ok rp \<and> list_all2 same_segment (segments t) (segments rp)"
proof (induction rule: normal.induct)
  case normal_Nil
  then show ?case by (simp add: same_segment_def)
next
  case (normal_raw c s)
  then obtain rp where rp: "routing_path s = Ok rp" "list_all2 same_segment (segments s) (segments rp)" by blast
  obtain p ps q qs where pq: "segments s = p # ps" "segments rp = q # qs" by (metis segments_obtain)
  have "list_all2 same_segment (segments (c # s)) (segments (c # rp))"
  proof (cases "c = CHR ''/''")
    case True
    then show ?thesis using rp(2) by (simp add: same_segment_def)
  next
    case False
    then show ?thesis using pq rp(2) by (auto simp: segments_Cons same_segment_def)
  qed
  then show ?case using rp(1) normal_raw.hyps by (simp add: string_of_byte_valid)
next
  case (normal_enc a b s)
  then obtain rp where rp: "routing_path s = Ok rp" "list_all2 same_segment (segments s) (segments rp)" by blast
  then have *: "list_all2 same_segment (tl (segments s)) (tl (segments rp))"
    by (metis list.rel_sel segments_not_Nil)
  obtain d where d: "unescape a b = Some d" using normal_enc.hyps by (auto simp: unescape_def)
  show ?case
  proof (cases "map_of reservedCharacters [CHR ''%'', a, b] = None")
    case True
    then have "d \<notin> insert (CHR ''%'') (set delimiters)"
      using reservedCharacters_complete [OF normal_enc.hyps(1-4) d] by blast
    then have "d \<noteq> CHR ''/''" by (auto simp: delimiters_def)
    moreover have "d \<noteq> CHR ''.''" using encoded_not_dot normal_enc.hyps d by blast
    ultimately have "list_all2 same_segment (segments (CHR ''%'' # a # b # s)) (segments (d # rp))"
      using * normal_enc.hyps by (simp add: segments_enc segments_Cons [of d] same_segment_def)
    then show ?thesis using True rp(1) d by simp
  next
    case False
    then have "list_all2 same_segment (segments (CHR ''%'' # a # b # s)) (segments (CHR ''%'' # a # b # rp))"
      using * normal_enc.hyps by (simp add: segments_enc same_segment_def)
    then show ?thesis using False rp(1) by auto
  qed
qed

lemma dot_free_routing:
  assumes "list_all2 same_segment (segments t) (segments rp)" "dot_free t"
  shows "dot_free rp"
proof -
  have "list_all2 same_segment (butlast (tl (segments t))) (butlast (tl (segments rp)))"
    using assms(1) by (metis butlast_conv_take list.rel_sel list_all2_lengthD list_all2_takeI segments_not_Nil)
  then show ?thesis
    using assms unfolding dot_free_def list_all2_conv_all_nth same_segment_def in_set_conv_nth by metis
qed

subsection \<open>The handlers\<close>

lemma setPath_escaped:
  assumes "normal p"
  shows "url_ok (setPath u p)" "pct_decode p = Some (Path (setPath u p))"
    "URL_EscapedPath (setPath u p) \<in> {p, ''*''}"
proof -
  obtain d where d: "pct_decode p = Some d" using normal_ok [OF assms] pct_decode_ok by blast
  then show "url_ok (setPath u p)" "pct_decode p = Some (Path (setPath u p))"
    by (simp_all add: setPath_def url_ok_def)
  show "URL_EscapedPath (setPath u p) \<in> {p, ''*''}"
    using d normal_ok [OF assms] by (auto simp: setPath_def URL_EscapedPath_def escape_def)
qed

lemma JoinPath_dot_free:
  assumes "normal (URL_EscapedPath u)"
  shows "url_ok (JoinPath u)" "normal (URL_EscapedPath (JoinPath u))"
    "\<exists>rp. routing_path (URL_EscapedPath (JoinPath u)) = Ok rp \<and> dot_free (URL_EscapedPath (JoinPath u)) \<and> dot_free rp"
proof -
  let ?p = "joined (URL_EscapedPath u)"
  have p: "normal ?p" "dot_free ?p" using assms by (simp_all add: joined_normal joined_dot_free)
  show "url_ok (JoinPath u)" unfolding JoinPath_joined by (rule setPath_escaped(1) [OF p(1)])
  have "URL_EscapedPath (JoinPath u) \<in> {?p, ''*''}"
    unfolding JoinPath_joined by (rule setPath_escaped(3) [OF p(1)])
  moreover have "normal ''*''" by (intro normal.intros) (auto simp: validEncoded_char_def)
  moreover have "dot_free ''*''" by (simp add: dot_free_def segments_def)
  ultimately show "normal (URL_EscapedPath (JoinPath u))" and "\<exists>rp. routing_path (URL_EscapedPath (JoinPath u)) = Ok rp \<and> dot_free (URL_EscapedPath (JoinPath u)) \<and> dot_free rp"
    using p normal_routing dot_free_routing by (metis insertE singletonD)+
qed

text \<open>
  The raw path of a request, where the rest of the server reads it, decodes to its path. (A raw path with bytes that are not valid there is never
  read; \<open>normalizePath\<close> may change what it decodes to, since it writes bytes from 128 on as two.)
\<close>

definition url_consistent :: "url \<Rightarrow> bool" where
  "url_consistent u \<longleftrightarrow> RawPath u = [] \<or> \<not> validEncoded (RawPath u) \<or> pct_decode (RawPath u) = Some (Path u)"

lemma url_ok_consistent: "url_ok u \<Longrightarrow> url_consistent u"
  by (auto simp: url_ok_def url_consistent_def)

lemma normalizePath_normal:
  assumes "url_ok u" "normalizePath u = Some u'"
  shows "normal (URL_EscapedPath u')" "url_consistent u'" "Path u' = Path u"
proof -
  obtain "normalize_loop (URL_EscapedPath u) = Some (URL_EscapedPath u')" and p: "Path u' = Path u"
    using normalize_EscapedPath [OF assms(1)] assms(2) by auto
  then show "normal (URL_EscapedPath u')" "Path u' = Path u"
    using normalize_loop_normal EscapedPath_ok by blast+
  show "url_consistent u'"
  proof (cases "RawPath u = []")
    case True
    then show ?thesis using assms(2) by (auto simp: normalizePath_def url_consistent_def)
  next
    case False
    then have dec: "pct_decode (RawPath u) = Some (Path u)" using assms(1) by (simp add: url_ok_def)
    then have ok: "pct_ok (RawPath u)" by (rule pct_decode_pct_ok)
    then obtain t where t: "normalize_loop (RawPath u) = Some t" using normalize_loop_total by blast
    then have "RawPath u' = t" using assms(2) False by (auto simp: normalizePath_def split: if_splits)
    then show ?thesis
      using dec p normalize_loop_valid [OF ok t] normalize_loop_decode [OF ok t] by (auto simp: url_consistent_def)
  qed
qed

end
