(* ===== verification/ForwardedHeaders.thy ===== *)
theory ForwardedHeaders
  imports PathClean IpCheck HttpMuxer
begin

section \<open>Forwarded headers (\<open>pkg/middlewares/forwardedheaders\<close>)\<close>

text \<open>
  The handler by which an entry point takes or discards what a client claims about the hops before it, and adds what it knows of the
  connection itself. A header is a map from canonical names to values. The search for a token in a list of header values is the
  function of the third-party package \<open>httpguts\<close>, an argument. The name of the host is an argument of the constructor.
\<close>

type_synonym header_map = "string \<rightharpoonup> string list"

definition hdr_Get :: "header_map \<Rightarrow> string \<Rightarrow> string" where
  "hdr_Get h key = (case h key of Some (v # _) \<Rightarrow> v | _ \<Rightarrow> [])"

definition hdr_Set :: "string \<Rightarrow> string \<Rightarrow> header_map \<Rightarrow> header_map" where
  "hdr_Set key value' h = h(key \<mapsto> [value'])"

definition hdr_Values :: "header_map \<Rightarrow> string \<Rightarrow> string list" where
  "hdr_Values h key = (case h key of Some vs \<Rightarrow> vs | None \<Rightarrow> [])"

definition hdr_Del :: "string \<Rightarrow> header_map \<Rightarrow> header_map" where
  "hdr_Del key h = h(key := None)"

definition xHeaders :: "string list" where
  "xHeaders =
     [''X-Forwarded-Proto'', ''X-Forwarded-For'', ''X-Forwarded-Host'', ''X-Forwarded-Port'', ''X-Forwarded-Server'',
      ''X-Forwarded-Uri'', ''X-Forwarded-Method'', ''X-Forwarded-Prefix'', ''X-Forwarded-Tls-Client-Cert'',
      ''X-Forwarded-Tls-Client-Cert-Info'', ''X-Real-Ip'']"

record XForwarded =
  insecure :: bool
  trustedIPs :: "string list"
  connectionHeaders :: "string list"
  notAppendXForwardedFor :: bool
  ipChecker :: "checker option"
  hostname :: string

definition NewXForwarded :: "ipLib \<Rightarrow> string option \<Rightarrow> bool \<Rightarrow> string list \<Rightarrow> string list \<Rightarrow> bool \<Rightarrow> XForwarded outcome" where
  "NewXForwarded L os_Hostname insecure' trustedIPs' connectionHeaders' notAppendXForwardedFor' =
     bind_outcome
       (if trustedIPs' \<noteq> [] then bind_outcome (NewChecker L trustedIPs') (\<lambda>c. Ok (Some c)) else Ok None)
       (\<lambda>chk. Ok \<lparr>insecure = insecure', trustedIPs = trustedIPs',
          connectionHeaders = map CanonicalHeaderKey connectionHeaders',
          notAppendXForwardedFor = notAppendXForwardedFor', ipChecker = chk,
          hostname = (case os_Hostname of Some n \<Rightarrow> n | None \<Rightarrow> ''localhost'')\<rparr>)"

text \<open>\<open>strings.Cut\<close> at the first percent sign.\<close>

definition removeIPv6Zone :: "string \<Rightarrow> string" where
  "removeIPv6Zone ip = takeWhile (\<lambda>c. c \<noteq> CHR ''%'') ip"

text \<open>The loop of \<open>containsHeader\<close> walks over the pieces between commas.\<close>

definition containsHeader :: "header_map \<Rightarrow> string \<Rightarrow> string \<Rightarrow> bool" where
  "containsHeader h name' value' =
     list_ex (\<lambda>piece. EqualFold value' (TrimSpace piece)) (Split (hdr_Get h name') (CHR '',''))"

definition isWebsocketRequest :: "http_request \<Rightarrow> bool" where
  "isWebsocketRequest req \<longleftrightarrow>
     containsHeader (reqHeader req) ''Connection'' ''upgrade'' \<and> containsHeader (reqHeader req) ''Upgrade'' ''websocket''"

definition forwardedPort :: "http_request \<Rightarrow> string" where
  "forwardedPort req =
     (let rest =
        (if hdr_Get (reqHeader req) ''X-Forwarded-Proto'' = ''https'' \<or> hdr_Get (reqHeader req) ''X-Forwarded-Proto'' = ''wss'' then ''443''
         else if reqTLS req then ''443''
         else ''80'')
      in case SplitHostPort (Host req) of
           Some (_, port) \<Rightarrow> if port \<noteq> [] then port else rest
         | None \<Rightarrow> rest)"

definition isTrustedIP :: "ipLib \<Rightarrow> XForwarded \<Rightarrow> string \<Rightarrow> bool" where
  "isTrustedIP L x a =
     (case ipChecker x of None \<Rightarrow> False | Some c \<Rightarrow> IsAuthorized L c a = Ok ())"

definition set_header :: "string \<Rightarrow> string \<Rightarrow> http_request \<Rightarrow> http_request" where
  "set_header key value' req = req\<lparr>reqHeader := hdr_Set key value' (reqHeader req)\<rparr>"

definition rewrite_real_ip :: "http_request \<Rightarrow> http_request" where
  "rewrite_real_ip req =
     (case SplitHostPort (reqRemoteAddr req) of
        Some (ip, _) \<Rightarrow>
          if hdr_Get (reqHeader req) ''X-Real-Ip'' = [] then set_header ''X-Real-Ip'' (removeIPv6Zone ip) req else req
      | None \<Rightarrow> req)"

definition rewrite_proto :: "http_request \<Rightarrow> http_request" where
  "rewrite_proto req =
     (if hdr_Get (reqHeader req) ''X-Forwarded-Proto'' = [] then
        set_header ''X-Forwarded-Proto''
          (if isWebsocketRequest req then (if reqTLS req then ''wss'' else ''ws'') else (if reqTLS req then ''https'' else ''http'')) req
      else req)"

definition rewrite_port :: "http_request \<Rightarrow> http_request" where
  "rewrite_port req =
     (if hdr_Get (reqHeader req) ''X-Forwarded-Port'' = [] then set_header ''X-Forwarded-Port'' (forwardedPort req) req else req)"

definition rewrite_host :: "http_request \<Rightarrow> http_request" where
  "rewrite_host req =
     (if hdr_Get (reqHeader req) ''X-Forwarded-Host'' = [] \<and> Host req \<noteq> [] then set_header ''X-Forwarded-Host'' (Host req) req else req)"

definition rewrite_for :: "http_request \<Rightarrow> http_request" where
  "rewrite_for req =
     (let xffs = hdr_Values (reqHeader req) ''X-Forwarded-For''
      in if length xffs > 0 then set_header ''X-Forwarded-For'' (Join xffs '', '') req else req)"

definition rewrite :: "XForwarded \<Rightarrow> http_request \<Rightarrow> http_request" where
  "rewrite x outreq =
     (let r = rewrite_for (rewrite_host (rewrite_port (rewrite_proto (rewrite_real_ip outreq))))
      in if hostname x \<noteq> [] then set_header ''X-Forwarded-Server'' (hostname x) r else r)"

text \<open>\<open>textproto.TrimString\<close>: spaces, tabs and line ends.\<close>

definition TrimString :: "string \<Rightarrow> string" where
  "TrimString s =
     (let blank = (\<lambda>c. c \<in> {CHR '' '', CHR 0x09, CHR 0x0A, CHR 0x0D})
      in rev (dropWhile blank (rev (dropWhile blank s))))"

text \<open>The body of the inner loop, for one option of the header \<open>Connection\<close>; the state is the header and the options to keep.\<close>

definition connection_option :: "XForwarded \<Rightarrow> string \<Rightarrow> header_map \<times> string list \<Rightarrow> header_map \<times> string list" where
  "connection_option x sf = (\<lambda>(h, hops).
     (let sf' = TrimString sf in
      if sf' = [] then (h, hops)
      else let key = CanonicalHeaderKey sf' in
        if key \<in> set xHeaders then (h, hops)
        else if key \<in> set (connectionHeaders x) then (h, hops @ [key])
        else (hdr_Del key h, hops)))"

definition removeConnectionHeaders :: "(string list \<Rightarrow> string \<Rightarrow> bool) \<Rightarrow> XForwarded \<Rightarrow> http_request \<Rightarrow> http_request" where
  "removeConnectionHeaders containsToken x req =
     (let values' = hdr_Values (reqHeader req) ''Connection'';
          reqUpType = (if containsToken values' ''Upgrade'' then hdr_Get (reqHeader req) ''Upgrade'' else []);
          (h, hops) = fold (connection_option x) (concat (map (\<lambda>f. Split f (CHR '','')) values')) (reqHeader req, []);
          (h', hops') = (if reqUpType \<noteq> [] then (hdr_Set ''Upgrade'' reqUpType h, hops @ [''Upgrade'']) else (h, hops))
      in req\<lparr>reqHeader :=
           (if length hops' > 0 then hdr_Set ''Connection'' (Join hops' '','') h' else hdr_Del ''Connection'' h')\<rparr>)"

definition XForwarded_ServeHTTP :: "ipLib \<Rightarrow> (string list \<Rightarrow> string \<Rightarrow> bool) \<Rightarrow> XForwarded \<Rightarrow> http_request \<Rightarrow> http_request" where
  "XForwarded_ServeHTTP L containsToken x r =
     (let r1 = (if \<not> insecure x \<and> \<not> isTrustedIP L x (reqRemoteAddr r)
                then r\<lparr>reqHeader := fold hdr_Del xHeaders (reqHeader r)\<rparr> else r);
          r2 = removeConnectionHeaders containsToken x (rewrite x r1)
      in if notAppendXForwardedFor x then r2\<lparr>ctxNotAppendXFF := True\<rparr> else r2)"

subsection \<open>Untrusted clients\<close>

lemma fold_hdr_Del: "fold hdr_Del ks h = (\<lambda>k. if k \<in> set ks then None else h k)"
  by (induction ks arbitrary: h) (auto simp: hdr_Del_def fun_eq_iff)

lemma connection_option_keeps: "k \<in> set xHeaders \<Longrightarrow> fst (connection_option x sf s) k = fst s k"
  by (cases s) (auto simp: connection_option_def hdr_Del_def Let_def)

lemma connection_options_keep: "k \<in> set xHeaders \<Longrightarrow> fst (fold (connection_option x) sfs s) k = fst s k"
  by (induction sfs arbitrary: s) (simp_all add: connection_option_keeps)

lemma xHeaders_names: "k \<in> set xHeaders \<Longrightarrow> k \<noteq> ''Connection'' \<and> k \<noteq> ''Upgrade''"
  by (auto simp: xHeaders_def)

text \<open>No option of the header \<open>Connection\<close> removes or changes a header that the proxy manages.\<close>

lemma removeConnectionHeaders_keeps:
  assumes "k \<in> set xHeaders"
  shows "reqHeader (removeConnectionHeaders tok x req) k = reqHeader req k"
proof -
  let ?sfs = "concat (map (\<lambda>f. Split f (CHR '','')) (hdr_Values (reqHeader req) ''Connection''))"
  obtain h hops where *: "fold (connection_option x) ?sfs (reqHeader req, []) = (h, hops)" by fastforce
  then have "h k = reqHeader req k" using connection_options_keep [OF assms, of x ?sfs "(reqHeader req, [])"] by simp
  then show ?thesis
    using * xHeaders_names [OF assms] by (simp add: removeConnectionHeaders_def Let_def hdr_Set_def hdr_Del_def)
qed

text \<open>What the next handler is told about the connection of an untrusted client.\<close>

definition connection_facts :: "XForwarded \<Rightarrow> http_request \<Rightarrow> header_map" where
  "connection_facts x r =
     (let proto = (if isWebsocketRequest r then (if reqTLS r then ''wss'' else ''ws'') else if reqTLS r then ''https'' else ''http'');
          port = (if reqTLS r then ''443'' else ''80'');
          fport = (case SplitHostPort (Host r) of Some (_, p) \<Rightarrow> if p \<noteq> [] then p else port | None \<Rightarrow> port)
      in (case SplitHostPort (reqRemoteAddr r) of Some (ip, _) \<Rightarrow> [''X-Real-Ip'' \<mapsto> [removeIPv6Zone ip]] | None \<Rightarrow> Map.empty)
         ++ [''X-Forwarded-Proto'' \<mapsto> [proto]]
         ++ [''X-Forwarded-Port'' \<mapsto> [fport]]
         ++ (if Host r \<noteq> [] then [''X-Forwarded-Host'' \<mapsto> [Host r]] else Map.empty)
         ++ (if hostname x \<noteq> [] then [''X-Forwarded-Server'' \<mapsto> [hostname x]] else Map.empty))"

lemma hdr_Get_Set [simp]: "hdr_Get (hdr_Set k v h) k' = (if k' = k then v else hdr_Get h k')"
  by (simp add: hdr_Get_def hdr_Set_def)

lemma hdr_Values_Set [simp]: "hdr_Values (hdr_Set k v h) k' = (if k' = k then [v] else hdr_Values h k')"
  by (simp add: hdr_Values_def hdr_Set_def)

lemma hdr_None: "h k = None \<Longrightarrow> hdr_Get h k = []" "h k = None \<Longrightarrow> hdr_Values h k = []"
  by (simp_all add: hdr_Get_def hdr_Values_def)

lemma set_header_simps [simp]:
  "reqHeader (set_header k v r) = hdr_Set k v (reqHeader r)" "Host (set_header k v r) = Host r" "reqTLS (set_header k v r) = reqTLS r"
  "reqRemoteAddr (set_header k v r) = reqRemoteAddr r" "URL (set_header k v r) = URL r" "RequestURI (set_header k v r) = RequestURI r"
  by (simp_all add: set_header_def)

lemma rewrite_untrusted:
  assumes "\<forall>k \<in> set xHeaders. reqHeader r k = None"
  shows "reqHeader (rewrite x r) = reqHeader r ++ connection_facts x r"
proof -
  have none: "hdr_Get (reqHeader r) k = []" "hdr_Values (reqHeader r) k = []" if "k \<in> set xHeaders" for k
    using assms that hdr_None by blast+
  define r1 where "r1 = rewrite_real_ip r"
  define r2 where "r2 = rewrite_proto r1"
  define r3 where "r3 = rewrite_port r2"
  define r4 where "r4 = rewrite_host r3"
  let ?A = "case SplitHostPort (reqRemoteAddr r) of Some (ip, _) \<Rightarrow> [''X-Real-Ip'' \<mapsto> [removeIPv6Zone ip]] | None \<Rightarrow> Map.empty"
  let ?proto = "if isWebsocketRequest r then (if reqTLS r then ''wss'' else ''ws'') else if reqTLS r then ''https'' else ''http''"
  let ?port = "if reqTLS r then ''443'' else ''80''"
  let ?fport = "case SplitHostPort (Host r) of Some (_, p) \<Rightarrow> if p \<noteq> [] then p else ?port | None \<Rightarrow> ?port"
  let ?D = "if Host r \<noteq> [] then [''X-Forwarded-Host'' \<mapsto> [Host r]] else Map.empty"
  have 1: "reqHeader r1 = reqHeader r ++ ?A" "Host r1 = Host r" "reqTLS r1 = reqTLS r"
    using none(1) [of "''X-Real-Ip''"]
    by (auto simp: r1_def rewrite_real_ip_def xHeaders_def hdr_Set_def split: option.split)
  have k1: "reqHeader r1 k = reqHeader r k" if "k \<noteq> ''X-Real-Ip''" for k
    using that unfolding 1 by (auto simp: map_add_def split: option.split)
  have w1: "isWebsocketRequest r1 = isWebsocketRequest r"
    by (simp add: isWebsocketRequest_def containsHeader_def hdr_Get_def k1)
  have 2: "reqHeader r2 = (reqHeader r1)(''X-Forwarded-Proto'' \<mapsto> [?proto])" "Host r2 = Host r" "reqTLS r2 = reqTLS r"
    using none(1) [of "''X-Forwarded-Proto''"] 1(2,3) w1
    by (simp_all add: r2_def rewrite_proto_def xHeaders_def hdr_Set_def hdr_Get_def k1)
  have g2: "hdr_Get (reqHeader r2) ''X-Forwarded-Port'' = []" "hdr_Get (reqHeader r2) ''X-Forwarded-Proto'' = ?proto"
    using none(1) [of "''X-Forwarded-Port''"] unfolding 2(1) by (simp_all add: xHeaders_def hdr_Get_def k1)
  have "forwardedPort r2 = ?fport"
    unfolding forwardedPort_def Let_def g2(2) 2(2,3) by simp
  then have 3: "reqHeader r3 = (reqHeader r2)(''X-Forwarded-Port'' \<mapsto> [?fport])" "Host r3 = Host r" "reqTLS r3 = reqTLS r"
    using g2(1) 2(2,3) by (simp_all add: r3_def rewrite_port_def hdr_Set_def)
  have "hdr_Get (reqHeader r3) ''X-Forwarded-Host'' = []"
    using none(1) [of "''X-Forwarded-Host''"] unfolding 3(1) 2(1) by (simp add: xHeaders_def hdr_Get_def k1)
  then have 4: "reqHeader r4 = reqHeader r3 ++ ?D"
    using 3(2) by (simp add: r4_def rewrite_host_def hdr_Set_def)
  have "hdr_Values (reqHeader r4) ''X-Forwarded-For'' = []"
    using none(2) [of "''X-Forwarded-For''"] unfolding 4 3(1) 2(1) by (simp add: xHeaders_def hdr_Values_def k1 map_add_def)
  then have 5: "rewrite_for r4 = r4" by (simp add: rewrite_for_def)
  have "reqHeader (rewrite x r) = reqHeader r4 ++ (if hostname x \<noteq> [] then [''X-Forwarded-Server'' \<mapsto> [hostname x]] else Map.empty)"
    unfolding rewrite_def Let_def r1_def [symmetric] r2_def [symmetric] r3_def [symmetric] r4_def [symmetric] 5 by (simp add: hdr_Set_def)
  then show ?thesis unfolding 4 3(1) 2(1) 1(1) connection_facts_def Let_def by (simp add: map_add_assoc)
qed

lemma connection_facts_cong:
  assumes "Host r = Host s" "reqTLS r = reqTLS s" "reqRemoteAddr r = reqRemoteAddr s"
    and "reqHeader r ''Connection'' = reqHeader s ''Connection''" "reqHeader r ''Upgrade'' = reqHeader s ''Upgrade''"
  shows "connection_facts x r = connection_facts x s"
  using assms by (simp add: connection_facts_def isWebsocketRequest_def containsHeader_def hdr_Get_def)

lemma untrusted_headers:
  assumes "\<not> insecure x" "\<not> isTrustedIP L x (reqRemoteAddr r)" and k: "k \<in> set xHeaders"
  shows "reqHeader (XForwarded_ServeHTTP L tok x r) k = connection_facts x r k"
proof -
  let ?r1 = "r\<lparr>reqHeader := fold hdr_Del xHeaders (reqHeader r)\<rparr>"
  have "reqHeader (XForwarded_ServeHTTP L tok x r) k = reqHeader (rewrite x ?r1) k"
    using assms by (simp add: XForwarded_ServeHTTP_def Let_def removeConnectionHeaders_keeps [OF k])
  also have "reqHeader (rewrite x ?r1) = reqHeader ?r1 ++ connection_facts x ?r1"
    by (rule rewrite_untrusted) (simp add: fold_hdr_Del)
  also have "connection_facts x ?r1 = connection_facts x r"
    using xHeaders_names by (intro connection_facts_cong) (auto simp: fold_hdr_Del)
  also have "(reqHeader ?r1 ++ connection_facts x r) k = connection_facts x r k"
    using k by (cases "connection_facts x r k") (simp_all add: map_add_def fold_hdr_Del)
  finally show ?thesis .
qed

lemma connection_facts_for: "connection_facts x r ''X-Forwarded-For'' = None"
  by (simp add: connection_facts_def Let_def map_add_def split: option.split)

text \<open>
  C6. An untrusted client cannot influence what is reported about it. If the entry point is not set to insecure and the address of the
  client is not trusted, then each of the eleven forwarding headers is, for the next handler, what the proxy found out about the connection itself
  (in particular there is no \<open>X-Forwarded-For\<close>, and \<open>X-Real-Ip\<close> is the address of the peer); whatever values the client sends
  for them, the request passed on is the same; and no option of its header \<open>Connection\<close> removes one of them.
\<close>

theorem forwarded_untrusted:
  assumes "\<not> insecure x" "\<not> isTrustedIP L x (reqRemoteAddr r)"
  shows "(\<forall>k \<in> set xHeaders. reqHeader (XForwarded_ServeHTTP L tok x r) k = connection_facts x r k) \<and>
    (\<forall>h. (\<forall>k. k \<notin> set xHeaders \<longrightarrow> h k = reqHeader r k) \<longrightarrow>
      XForwarded_ServeHTTP L tok x (r\<lparr>reqHeader := h\<rparr>) = XForwarded_ServeHTTP L tok x r)"
proof (intro conjI ballI allI impI)
  fix k assume "k \<in> set xHeaders"
  then show "reqHeader (XForwarded_ServeHTTP L tok x r) k = connection_facts x r k" by (rule untrusted_headers [OF assms])
next
  fix h assume "\<forall>k. k \<notin> set xHeaders \<longrightarrow> h k = reqHeader r k"
  then have "fold hdr_Del xHeaders h = fold hdr_Del xHeaders (reqHeader r)" by (auto simp: fold_hdr_Del fun_eq_iff)
  then show "XForwarded_ServeHTTP L tok x (r\<lparr>reqHeader := h\<rparr>) = XForwarded_ServeHTTP L tok x r"
    using assms by (simp add: XForwarded_ServeHTTP_def)
qed

text \<open>A client claims to be the local host, and asks to drop the header that would tell otherwise.\<close>

definition demo_forwarded :: XForwarded where
  "demo_forwarded = \<lparr>insecure = False, trustedIPs = [], connectionHeaders = [], notAppendXForwardedFor = False, ipChecker = None,
     hostname = ''proxy''\<rparr>"

definition demo_spoofed :: http_request where
  "demo_spoofed = \<lparr>reqMethod = ''GET'',
     URL = \<lparr>urlPath = \<lparr>Path = ''/'', RawPath = []\<rparr>, RawQuery = [], ForceQuery = False, Opaque = [], Scheme = []\<rparr>,
     RequestURI = ''/'', Host = ''a.example'',
     reqHeader = [''X-Forwarded-For'' \<mapsto> [''127.0.0.1''], ''X-Real-Ip'' \<mapsto> [''127.0.0.1''], ''Connection'' \<mapsto> [''X-Real-Ip'']],
     reqRemoteAddr = ''1.2.3.4:99'', reqTLS = False, ctxCanonical = None, ctxFlatten = None, ctxNotAppendXFF = False\<rparr>"

theorem forwarded_untrusted_witness:
  "\<forall>L. reqHeader demo_spoofed ''X-Real-Ip'' = Some [''127.0.0.1''] \<and>
     reqHeader (XForwarded_ServeHTTP L (\<lambda>_ _. False) demo_forwarded demo_spoofed) ''X-Real-Ip'' = Some [''1.2.3.4''] \<and>
     reqHeader (XForwarded_ServeHTTP L (\<lambda>_ _. False) demo_forwarded demo_spoofed) ''X-Forwarded-For'' = None"
proof
  fix L
  have "connection_facts demo_forwarded demo_spoofed ''X-Real-Ip'' = Some [''1.2.3.4'']"
    "connection_facts demo_forwarded demo_spoofed ''X-Forwarded-For'' = None"
    by code_simp+
  moreover have "\<not> insecure demo_forwarded" "\<not> isTrustedIP L demo_forwarded (reqRemoteAddr demo_spoofed)"
    by (simp_all add: demo_forwarded_def isTrustedIP_def)
  then have "\<forall>k \<in> set xHeaders. reqHeader (XForwarded_ServeHTTP L (\<lambda>_ _. False) demo_forwarded demo_spoofed) k
      = connection_facts demo_forwarded demo_spoofed k"
    using forwarded_untrusted [of demo_forwarded L demo_spoofed "\<lambda>_ _. False"] by blast
  moreover have "reqHeader demo_spoofed ''X-Real-Ip'' = Some [''127.0.0.1'']" by (simp add: demo_spoofed_def)
  ultimately show "reqHeader demo_spoofed ''X-Real-Ip'' = Some [''127.0.0.1''] \<and>
     reqHeader (XForwarded_ServeHTTP L (\<lambda>_ _. False) demo_forwarded demo_spoofed) ''X-Real-Ip'' = Some [''1.2.3.4''] \<and>
     reqHeader (XForwarded_ServeHTTP L (\<lambda>_ _. False) demo_forwarded demo_spoofed) ''X-Forwarded-For'' = None"
    by (simp add: xHeaders_def)
qed

end
