(* ===== verification/TcpMuxer.thy ===== *)
theory TcpMuxer
  imports Rules IpCheck
begin

section \<open>The TCP router (\<open>pkg/muxer/tcp\<close>)\<close>

text \<open>
  The TCP muxer chooses the handler of a connection from its server name, remote address
  and ALPN protocols. Modelled: the connection data, the matchers of both rule syntaxes
  with the pattern preparation of the v2 one, the matcher tree, rule priorities,
  \<open>AddRoute\<close> and \<open>Match\<close>.

  A matcher is a closure, and the one of \<open>HostSNI\<close> assigns to a variable it captured: a
  matcher therefore has a cell for that variable and returns its new content with
  the answer, and matching a connection returns the muxer it leaves behind. The lemmas
  show when this state does not matter: for server names without a trailing dot the
  answers never depend on earlier connections.
\<close>

subsection \<open>Connections\<close>

record ConnData =
  serverName :: string
  remoteIP :: string
  alpnProtos :: "string list"

definition CanonicalDomain :: "string \<Rightarrow> string" where
  "CanonicalDomain domain = ToLower (TrimSpace domain)"

definition NewConnData :: "string \<Rightarrow> string \<Rightarrow> string list \<Rightarrow> ConnData outcome" where
  "NewConnData name remoteAddr protos =
     (case SplitHostPort remoteAddr of
        None \<Rightarrow> Err ''error while parsing remote address''
      | Some (remote, _) \<Rightarrow>
          let name' = CanonicalDomain name in
          Ok \<lparr>serverName = CanonicalDomain name', remoteIP = remote, alpnProtos = protos\<rparr>)"

subsection \<open>Matcher trees\<close>

record matcherClosure =
  cell :: string
  run :: "string \<Rightarrow> ConnData \<Rightarrow> bool \<times> string"

definition pure_matcher :: "(ConnData \<Rightarrow> bool) \<Rightarrow> matcherClosure" where
  "pure_matcher f = \<lparr>cell = [], run = (\<lambda>c meta. (f meta, c))\<rparr>"

definition call :: "matcherClosure \<Rightarrow> ConnData \<Rightarrow> bool \<times> matcherClosure" where
  "call m meta = (let (b, c) = run m (cell m) meta in (b, m\<lparr>cell := c\<rparr>))"

definition negate :: "matcherClosure \<Rightarrow> matcherClosure" where
  "negate m = m\<lparr>run := (\<lambda>c meta. let (b, c') = run m c meta in (\<not> b, c'))\<rparr>"

datatype matchersTree =
  MTree (matcher: "matcherClosure option") (operator: string)
    (left: "matchersTree option") (right: "matchersTree option")

definition empty_tree :: matchersTree where
  "empty_tree = MTree None [] None None"

type_synonym matcherFunc = "matchersTree \<Rightarrow> string list \<Rightarrow> matchersTree outcome"
type_synonym matcherFuncs = "(string \<times> matcherFunc) list"

definition set_matcher :: "matchersTree \<Rightarrow> matcherClosure \<Rightarrow> matchersTree" where
  "set_matcher t f = MTree (Some f) (operator t) (left t) (right t)"

text \<open>The right subtree is evaluated, and its matchers change, only where Go evaluates it.\<close>

fun match_tree :: "matchersTree \<Rightarrow> ConnData \<Rightarrow> bool \<times> matchersTree" where
  "match_tree (MTree m op l r) meta =
     (case m of
        Some f \<Rightarrow> (let (b, f') = call f meta in (b, MTree (Some f') op l r))
      | None \<Rightarrow>
          if op = or_op then
            (let (bl, l') = (case l of None \<Rightarrow> (False, None)
                             | Some t \<Rightarrow> (let (b, t') = match_tree t meta in (b, Some t'))) in
             if bl then (True, MTree m op l' r)
             else let (br, r') = (case r of None \<Rightarrow> (False, None)
                             | Some t \<Rightarrow> (let (b, t') = match_tree t meta in (b, Some t')))
                  in (br, MTree m op l' r'))
          else if op = and_op then
            (let (bl, l') = (case l of None \<Rightarrow> (False, None)
                             | Some t \<Rightarrow> (let (b, t') = match_tree t meta in (b, Some t'))) in
             if \<not> bl then (False, MTree m op l' r)
             else let (br, r') = (case r of None \<Rightarrow> (False, None)
                             | Some t \<Rightarrow> (let (b, t') = match_tree t meta in (b, Some t')))
                  in (br, MTree m op l' r'))
          else (False, MTree m op l r))"

fun addRule :: "matchersTree \<Rightarrow> tree \<Rightarrow> matcherFuncs \<Rightarrow> matchersTree outcome" where
  "addRule m (Tree name n v l r) funcs =
     (if name = and_op \<or> name = or_op then
        (case l of None \<Rightarrow> Panic
         | Some l' \<Rightarrow> bind_outcome (addRule empty_tree l' funcs) (\<lambda>ml.
           (case r of None \<Rightarrow> Panic
            | Some r' \<Rightarrow> bind_outcome (addRule empty_tree r' funcs) (\<lambda>mr.
                Ok (MTree (matcher m) name (Some ml) (Some mr))))))
      else
        (case CheckRule (Tree name n v l r) of
           Some e \<Rightarrow> Err e
         | None \<Rightarrow>
             (case map_of funcs name of
                None \<Rightarrow> Panic
              | Some f \<Rightarrow> bind_outcome (f m v) (\<lambda>m'.
                  if n then
                    (case matcher m' of
                       None \<Rightarrow> Panic
                     | Some matcherFunc \<Rightarrow> Ok (set_matcher m' (negate matcherFunc)))
                  else Ok m'))))"

subsection \<open>Matchers of the v3 syntax\<close>

record tcpLib =
  ips :: ipLib
  RegexpCompile :: "string \<Rightarrow> (string \<Rightarrow> bool) option"

definition ACMETLS1Protocol :: string where
  "ACMETLS1Protocol = ''acme-tls/1''"

definition expect1Parameter :: "matcherFunc \<Rightarrow> matcherFunc" where
  "expect1Parameter fn = (\<lambda>t s.
     if length s \<noteq> 1 then Err ''unexpected number of parameters'' else fn t s)"

definition alpn :: matcherFunc where
  "alpn = (\<lambda>t protos. case protos of [] \<Rightarrow> Panic
     | proto # _ \<Rightarrow>
         if proto = ACMETLS1Protocol then Err ''invalid protocol value for ALPN matcher''
         else Ok (set_matcher t (pure_matcher (\<lambda>meta. proto \<in> set (alpnProtos meta)))))"

definition clientIP :: "tcpLib \<Rightarrow> matcherFunc" where
  "clientIP L = (\<lambda>t clientIPs.
     case NewChecker (ips L) clientIPs of
       Ok chk \<Rightarrow> Ok (set_matcher t (pure_matcher (\<lambda>meta.
         case Contains (ips L) chk (remoteIP meta) of Ok ok \<Rightarrow> ok | _ \<Rightarrow> False)))
     | Err e \<Rightarrow> Err ''initializing IP checker for ClientIP matcher''
     | Panic \<Rightarrow> Panic)"

text \<open>The pattern \<open>^[[:word:]\.\-\:]+$\<close>.\<close>

definition hostOrIP_char :: "char \<Rightarrow> bool" where
  "hostOrIP_char c \<longleftrightarrow> (48 \<le> code_of c \<and> code_of c \<le> 57) \<or> (65 \<le> code_of c \<and> code_of c \<le> 90)
     \<or> (97 \<le> code_of c \<and> code_of c \<le> 122) \<or> c \<in> set ''_.-:''"

definition hostOrIP :: "string \<Rightarrow> bool" where
  "hostOrIP s \<longleftrightarrow> s \<noteq> [] \<and> list_all hostOrIP_char s"

text \<open>The captured variable \<open>host\<close> is the content of the cell.\<close>

definition hostSNI_closure :: "string \<Rightarrow> matcherClosure" where
  "hostSNI_closure h = \<lparr>cell = h, run = (\<lambda>host meta.
     if serverName meta = [] then (False, host)
     else if host = serverName meta then (True, host)
     else let host' = TrimSuffix host ''.'' in (host' = serverName meta, host'))\<rparr>"

definition hostSNI :: matcherFunc where
  "hostSNI = (\<lambda>t hosts. case hosts of [] \<Rightarrow> Panic
     | host # _ \<Rightarrow>
         if host = ''*'' then Ok (set_matcher t (pure_matcher (\<lambda>meta. True)))
         else if \<not> hostOrIP host then Err ''invalid value for HostSNI matcher''
         else Ok (set_matcher t (hostSNI_closure host)))"

definition isASCII :: "string \<Rightarrow> bool" where
  "isASCII s \<longleftrightarrow> list_all is_ascii_char s"

definition hostSNIRegexp :: "tcpLib \<Rightarrow> matcherFunc" where
  "hostSNIRegexp L = (\<lambda>t templates. case templates of [] \<Rightarrow> Panic
     | template # _ \<Rightarrow>
         if \<not> isASCII template then Err ''invalid value for HostSNIRegexp matcher''
         else case RegexpCompile L template of
           None \<Rightarrow> Err ''compiling HostSNIRegexp matcher''
         | Some re \<Rightarrow> Ok (set_matcher t (pure_matcher (\<lambda>meta. re (serverName meta)))))"

definition tcpFuncs :: "tcpLib \<Rightarrow> matcherFuncs" where
  "tcpFuncs L =
     [(''ALPN'', expect1Parameter alpn),
      (''ClientIP'', expect1Parameter (clientIP L)),
      (''HostSNI'', expect1Parameter hostSNI),
      (''HostSNIRegexp'', expect1Parameter (hostSNIRegexp L))]"

subsection \<open>Matchers of the v2 syntax\<close>

definition clientIPV2 :: "tcpLib \<Rightarrow> matcherFunc" where
  "clientIPV2 L = (\<lambda>t clientIPs.
     case NewChecker (ips L) clientIPs of
       Ok chk \<Rightarrow> Ok (set_matcher t (pure_matcher (\<lambda>meta.
         if remoteIP meta = [] then False
         else case Contains (ips L) chk (remoteIP meta) of Ok ok \<Rightarrow> ok | _ \<Rightarrow> False)))
     | Err e \<Rightarrow> Err ''could not initialize IP Checker for ClientIP matcher''
     | Panic \<Rightarrow> Panic)"

definition alpnV2 :: matcherFunc where
  "alpnV2 = (\<lambda>t protos.
     if protos = [] then Err ''empty value for ALPN matcher is not allowed''
     else if ACMETLS1Protocol \<in> set protos then Err ''invalid protocol value for ALPN matcher''
     else Ok (set_matcher t (pure_matcher (\<lambda>meta. list_ex (\<lambda>proto. proto \<in> set protos) (alpnProtos meta)))))"

text \<open>The loop variable \<open>host\<close> of this matcher is its own: nothing is left behind.\<close>

fun hostSNIV2_loop :: "string list \<Rightarrow> string \<Rightarrow> bool" where
  "hostSNIV2_loop [] name = False"
| "hostSNIV2_loop (host # hosts) name =
     (if host = ''*'' then True
      else if host = name then True
      else if TrimSuffix host ''.'' = name then True
      else hostSNIV2_loop hosts name)"

definition hostSNIV2 :: matcherFunc where
  "hostSNIV2 = (\<lambda>t hosts.
     if hosts = [] then Err ''empty value for HostSNI matcher is not allowed''
     else if \<not> list_all (\<lambda>host. host = ''*'' \<or> hostOrIP host) hosts
     then Err ''invalid value for HostSNI matcher''
     else let hosts' = map (\<lambda>host. if host = ''*'' then host else ToLower host) hosts in
       Ok (set_matcher t (pure_matcher (\<lambda>meta.
         if hd hosts' = ''*'' then True
         else if serverName meta = [] then False
         else hostSNIV2_loop hosts' (serverName meta)))))"

fun brace_loop :: "string \<Rightarrow> nat \<Rightarrow> int \<Rightarrow> nat \<Rightarrow> nat list \<Rightarrow> nat list outcome" where
  "brace_loop [] i level idx idxs =
     (if level \<noteq> 0 then Err ''mux: unbalanced braces'' else Ok idxs)"
| "brace_loop (c # s) i level idx idxs =
     (if c = CHR ''{'' then
        brace_loop s (i + 1) (level + 1) (if level + 1 = 1 then i else idx) idxs
      else if c = CHR ''}'' then
        (if level - 1 = 0 then brace_loop s (i + 1) (level - 1) idx (idxs @ [idx, i + 1])
         else if level - 1 < 0 then Err ''mux: unbalanced braces''
         else brace_loop s (i + 1) (level - 1) idx idxs)
      else brace_loop s (i + 1) level idx idxs)"

definition braceIndices :: "string \<Rightarrow> nat list outcome" where
  "braceIndices s = brace_loop s 0 0 0 []"

text \<open>A Go slice expression: out of range it panics.\<close>

definition slice :: "string \<Rightarrow> nat \<Rightarrow> nat \<Rightarrow> string outcome" where
  "slice s a b = (if a \<le> b \<and> b \<le> length s then Ok (take (b - a) (drop a s)) else Panic)"

fun itoa :: "nat \<Rightarrow> string" where
  "itoa n = (if n < 10 then [char_of (48 + n)] else itoa (n div 10) @ [char_of (48 + n mod 10)])"

declare itoa.simps [simp del]

definition varGroupName :: "nat \<Rightarrow> string" where
  "varGroupName idx = ''v'' @ itoa idx"

definition QuoteMeta :: "string \<Rightarrow> string" where
  "QuoteMeta s = concat (map (\<lambda>c.
     if c = CHR 0x5C \<or> c \<in> set ''.+*?()|[]{}^$'' then [CHR 0x5C, c] else [c]) s)"

definition defaultPattern :: string where
  "defaultPattern = ''[^.]+''"

text \<open>
  The loop over the brace pairs: \<open>i\<close> counts the pairs, \<open>stop\<close> is the variable \<open>end\<close>, and the
  result is the pattern so far with the final value of \<open>end\<close>.
\<close>

fun prepare_loop :: "string \<Rightarrow> nat list \<Rightarrow> nat \<Rightarrow> nat \<Rightarrow> string \<Rightarrow> (string \<times> nat) outcome" where
  "prepare_loop template [] i stop pattern = Ok (pattern, stop)"
| "prepare_loop template [_] i stop pattern = Panic"
| "prepare_loop template (a # b # idxs) i stop pattern =
     bind_outcome (slice template stop a) (\<lambda>raw.
     bind_outcome (slice template (a + 1) (b - 1)) (\<lambda>inner.
       let (name, patt) =
         (case IndexByte inner (CHR '':'') of
            None \<Rightarrow> (inner, defaultPattern)
          | Some k \<Rightarrow> (take k inner, drop (k + 1) inner)) in
       if name = [] \<or> patt = [] then Err ''mux: missing name or pattern''
       else prepare_loop template idxs (i + 1) b
         (pattern @ QuoteMeta raw @ ''(?P<'' @ varGroupName i @ ''>'' @ patt @ '')'')))"

definition preparePattern :: "string \<Rightarrow> string outcome" where
  "preparePattern template =
     bind_outcome (braceIndices template) (\<lambda>idxs.
     bind_outcome (prepare_loop template idxs 0 0 ''(?i)^'') (\<lambda>(pattern, stop).
     bind_outcome (slice template stop (length template)) (\<lambda>raw.
       Ok (pattern @ QuoteMeta raw @ ''$''))))"

fun compile_templates :: "tcpLib \<Rightarrow> string list \<Rightarrow> (string \<Rightarrow> bool) list outcome" where
  "compile_templates L [] = Ok []"
| "compile_templates L (template # ts) =
     (case preparePattern template of
        Ok preparedPattern \<Rightarrow>
          (case RegexpCompile L preparedPattern of
             None \<Rightarrow> Err ''error parsing regexp''
           | Some re \<Rightarrow> bind_outcome (compile_templates L ts) (\<lambda>res. Ok (re # res)))
      | Err e \<Rightarrow> Err ''invalid pattern value for HostSNIRegexp matcher''
      | Panic \<Rightarrow> Panic)"

definition hostSNIRegexpV2 :: "tcpLib \<Rightarrow> matcherFunc" where
  "hostSNIRegexpV2 L = (\<lambda>t templates.
     if templates = [] then Err ''empty value for HostSNIRegexp matcher is not allowed''
     else bind_outcome (compile_templates L templates) (\<lambda>regexps.
       Ok (set_matcher t (pure_matcher (\<lambda>meta. list_ex (\<lambda>re. re (serverName meta)) regexps)))))"

definition tcpFuncsV2 :: "tcpLib \<Rightarrow> matcherFuncs" where
  "tcpFuncsV2 L =
     [(''ALPN'', alpnV2),
      (''ClientIP'', clientIPV2 L),
      (''HostSNI'', hostSNIV2),
      (''HostSNIRegexp'', hostSNIRegexpV2 L)]"

subsection \<open>The muxer\<close>

record 'h route =
  matchers :: matchersTree
  handler :: 'h
  catchAll :: bool
  priority :: int

record 'h muxer =
  routes :: "'h route list"
  parser :: predicate_def
  parserV2 :: predicate_def

definition NewMuxer :: "(string \<Rightarrow> string) \<Rightarrow> tcpLib \<Rightarrow> 'h muxer" where
  "NewMuxer title L = \<lparr>routes = [], parser = NewParser title (map fst (tcpFuncs L)),
     parserV2 = NewParser title (map fst (tcpFuncsV2 L))\<rparr>"

fun match_routes :: "'h route list \<Rightarrow> ConnData \<Rightarrow> ('h option \<times> bool) \<times> 'h route list" where
  "match_routes [] meta = ((None, False), [])"
| "match_routes (r # rs) meta =
     (let (b, t) = match_tree (matchers r) meta; r' = r\<lparr>matchers := t\<rparr> in
      if b then ((Some (handler r), catchAll r), r' # rs)
      else let (res, rs') = match_routes rs meta in (res, r' # rs'))"

definition Match :: "'h muxer \<Rightarrow> ConnData \<Rightarrow> ('h option \<times> bool) \<times> 'h muxer" where
  "Match m meta = (let (res, rs) = match_routes (routes m) meta in (res, m\<lparr>routes := rs\<rparr>))"

definition is_catchAll :: "tree \<Rightarrow> bool" where
  "is_catchAll t \<longleftrightarrow> RuleLeft t = None \<and> RuleRight t = None \<and> length (Value t) = 1
     \<and> hd (Value t) = ''*'' \<and> EqualFold (Matcher t) ''HostSNI''"

definition GetRulePriority :: "(string \<Rightarrow> string) \<Rightarrow> predicate_parser \<Rightarrow> string \<Rightarrow> int outcome" where
  "GetRulePriority title Parse rule =
     (case Parse (NewParser title [''HostSNI'']) rule of
        Ok (Some buildTree) \<Rightarrow> bind_outcome (buildTree ()) (\<lambda>ruleTree.
          if is_catchAll ruleTree then Ok (- 1) else Ok (int (length rule)))
      | Panic \<Rightarrow> Panic
      | _ \<Rightarrow> Ok (int (length rule)))"

definition route_less :: "'h route \<Rightarrow> 'h route \<Rightarrow> bool" where
  "route_less r s \<longleftrightarrow> priority r > priority s"

text \<open>What a rule becomes: its matchers and whether it is the catch-all rule.\<close>

definition parse_rule ::
  "tcpLib \<Rightarrow> predicate_parser \<Rightarrow> 'h muxer \<Rightarrow> string \<Rightarrow> string \<Rightarrow> (matchersTree \<times> bool) outcome" where
  "parse_rule L Parse m rule syntx =
     (let (p, funcs) = (if syntx = ''v2'' then (parserV2 m, tcpFuncsV2 L) else (parser m, tcpFuncs L)) in
      bind_outcome (Parse p rule) (\<lambda>parsed.
        case parsed of
          None \<Rightarrow> Err ''error while parsing rule''
        | Some buildTree \<Rightarrow>
            bind_outcome (buildTree ()) (\<lambda>ruleTree.
            bind_outcome (addRule empty_tree ruleTree funcs) (\<lambda>mt. Ok (mt, is_catchAll ruleTree)))))"

definition AddRoute ::
  "tcpLib \<Rightarrow> ('h route list \<Rightarrow> 'h route list) \<Rightarrow> predicate_parser \<Rightarrow> string \<Rightarrow> string \<Rightarrow> int \<Rightarrow> 'h
   \<Rightarrow> 'h muxer \<Rightarrow> 'h muxer outcome" where
  "AddRoute L srt Parse rule syntx prio h m =
     bind_outcome (parse_rule L Parse m rule syntx) (\<lambda>(mt, ca).
       Ok (m\<lparr>routes := srt (routes m @ [\<lparr>matchers = mt, handler = h, catchAll = ca, priority = prio\<rparr>])\<rparr>))"

definition HasRoutes :: "'h muxer \<Rightarrow> bool" where
  "HasRoutes m \<longleftrightarrow> length (routes m) > 0"

definition ParseHostSNI :: "(string \<Rightarrow> string) \<Rightarrow> tcpLib \<Rightarrow> predicate_parser \<Rightarrow> string \<Rightarrow> string list outcome" where
  "ParseHostSNI title L Parse rule =
     bind_outcome (Parse (NewParser title (map fst (tcpFuncs L) @ map fst (tcpFuncsV2 L))) rule) (\<lambda>parsed.
       case parsed of
         None \<Rightarrow> Err ''error while parsing rule''
       | Some buildTree \<Rightarrow> bind_outcome (buildTree ()) (\<lambda>t. ParseMatchers t [''HostSNI'']))"

subsection \<open>Patterns\<close>

text \<open>Brace pairs in order, disjoint, non-empty and inside a text of length \<open>n\<close>.\<close>

fun pairs_ok :: "nat \<Rightarrow> nat \<Rightarrow> nat list \<Rightarrow> bool" where
  "pairs_ok n lo [] = True"
| "pairs_ok n lo [_] = False"
| "pairs_ok n lo (a # b # xs) \<longleftrightarrow> lo \<le> a \<and> a + 1 < b \<and> b \<le> n \<and> pairs_ok n b xs"

lemma brace_loop_pairs:
  assumes "brace_loop s i level idx idxs = Ok out" "0 \<le> level"
    and "if level = 0 then lo \<le> i else lo \<le> idx \<and> idx < i"
  shows "\<exists>more. out = idxs @ more \<and> pairs_ok (i + length s) lo more"
  using assms
proof (induction s arbitrary: i level idx idxs lo)
  case (Cons c s)
  consider (op) "c = CHR ''{''" | (close) "c = CHR ''}''" "level = 1" | (inner) "c = CHR ''}''" "level > 1"
    | (other) "c \<noteq> CHR ''{''" "c \<noteq> CHR ''}''"
    using Cons.prems by (cases "c = CHR ''{''"; cases "c = CHR ''}''") (auto split: if_splits)
  then show ?case
  proof cases
    case op
    then show ?thesis
      using Cons.IH [of "i + 1" "level + 1" "if level + 1 = 1 then i else idx" idxs lo] Cons.prems
      by (auto split: if_splits)
  next
    case close
    then obtain more where "out = (idxs @ [idx, i + 1]) @ more" "pairs_ok (i + 1 + length s) (i + 1) more"
      using Cons.IH [of "i + 1" 0 idx "idxs @ [idx, i + 1]" "i + 1"] Cons.prems(1) by auto
    moreover have "lo \<le> idx" "idx < i"
      using Cons.prems(3) close by auto
    ultimately show ?thesis
      by (intro exI [of _ "idx # (i + 1) # more"]) simp
  next
    case inner
    then show ?thesis
      using Cons.IH [of "i + 1" "level - 1" idx idxs lo] Cons.prems by (auto split: if_splits)
  next
    case other
    then show ?thesis
      using Cons.IH [of "i + 1" level idx idxs lo] Cons.prems by (auto split: if_splits)
  qed
qed (auto split: if_splits)

lemma prepare_loop_bounds:
  assumes "pairs_ok (length template) stop idxs" "stop \<le> length template"
  shows "prepare_loop template idxs i stop pattern \<noteq> Panic \<and>
    (\<forall>p e. prepare_loop template idxs i stop pattern = Ok (p, e) \<longrightarrow> e \<le> length template)"
  using assms
proof (induction "length template" stop idxs arbitrary: i pattern rule: pairs_ok.induct)
  case (3 lo a b xs)
  then have "slice template lo a = Ok (take (a - lo) (drop lo template))"
    "slice template (a + 1) (b - 1) = Ok (take (b - 1 - (a + 1)) (drop (a + 1) template))"
    by (auto simp: slice_def)
  moreover have "prepare_loop template xs (i + 1) b q \<noteq> Panic \<and>
      (\<forall>p e. prepare_loop template xs (i + 1) b q = Ok (p, e) \<longrightarrow> e \<le> length template)" for q
    using 3 by simp
  ultimately show ?case
    by (simp add: Let_def split: prod.split)
qed auto

lemma brace_loop_no_panic: "brace_loop s i level idx idxs \<noteq> Panic"
  by (induction s i level idx idxs rule: brace_loop.induct) auto

lemma brace_loop_none:
  "CHR ''{'' \<notin> set s \<Longrightarrow> CHR ''}'' \<notin> set s \<Longrightarrow> brace_loop s i 0 idx idxs = Ok idxs"
  by (induction s arbitrary: i) auto

lemma preparePattern_total: "preparePattern template \<noteq> Panic"
proof (cases "braceIndices template")
  case (Ok idxs)
  then have "pairs_ok (length template) 0 idxs"
    using brace_loop_pairs [of template 0 0 0 "[]" idxs 0] by (auto simp: braceIndices_def)
  note b = prepare_loop_bounds [OF this, of 0 "''(?i)^''"]
  show ?thesis
    using b by (auto simp: preparePattern_def Ok bind_outcome_Panic_iff slice_def split: prod.splits)
qed (use brace_loop_no_panic in \<open>auto simp: preparePattern_def braceIndices_def\<close>)

text \<open>
  The preparation of a v2 host pattern is total: every slice the code takes of the
  template is in range, whatever braces it contains, so that it ends in a pattern
  or in an error and never panics; and a template without braces becomes its
  quoted text, anchored at both ends.
\<close>

theorem preparePattern_safe:
  "preparePattern template \<noteq> Panic \<and>
   (CHR ''{'' \<notin> set template \<and> CHR ''}'' \<notin> set template \<longrightarrow>
      preparePattern template = Ok (''(?i)^'' @ QuoteMeta template @ ''$''))"
  using preparePattern_total
  by (auto simp: preparePattern_def braceIndices_def brace_loop_none slice_def)

theorem preparePattern_safe_witness:
  "preparePattern ''a.b'' = Ok ([CHR ''('', CHR ''?'', CHR ''i'', CHR '')'', CHR ''^'', CHR ''a'', CHR 0x5C, CHR ''.'', CHR ''b'', CHR ''$''])
   \<and> preparePattern ''{sub:[a-z]+}.x'' \<noteq> Panic"
  using preparePattern_safe [of "''a.b''"] preparePattern_safe [of "''{sub:[a-z]+}.x''"]
  by (simp add: QuoteMeta_def)

subsection \<open>When the state of the matchers does not matter\<close>

text \<open>A server name as clients send it: without a trailing dot.\<close>

definition dotless :: "ConnData \<Rightarrow> bool" where
  "dotless meta \<longleftrightarrow> \<not> HasSuffix (serverName meta) ''.''"

text \<open>
  Two closures are similar when they run the same code and their cells lie in a set that
  the code does not leave and within which its answers are the same.
\<close>

definition settled :: "string set \<Rightarrow> (ConnData \<Rightarrow> bool) \<Rightarrow> (string \<Rightarrow> ConnData \<Rightarrow> bool \<times> string) \<Rightarrow> bool" where
  "settled I g f \<longleftrightarrow> (\<forall>c meta. c \<in> I \<longrightarrow> dotless meta \<longrightarrow> fst (f c meta) = g meta \<and> snd (f c meta) \<in> I)"

definition similar :: "matcherClosure \<Rightarrow> matcherClosure \<Rightarrow> bool" where
  "similar m m' \<longleftrightarrow> run m' = run m \<and> (\<exists>I g. cell m \<in> I \<and> cell m' \<in> I \<and> settled I g (run m))"

lemma settledD:
  "settled I g f \<Longrightarrow> c \<in> I \<Longrightarrow> dotless meta \<Longrightarrow> fst (f c meta) = g meta"
  "settled I g f \<Longrightarrow> c \<in> I \<Longrightarrow> dotless meta \<Longrightarrow> snd (f c meta) \<in> I"
  by (auto simp: settled_def)

lemma similarI: "cell m \<in> I \<Longrightarrow> settled I g (run m) \<Longrightarrow> similar m m"
  by (auto simp: similar_def)

lemma call_eq: "call m meta = (fst (run m (cell m) meta), m\<lparr>cell := snd (run m (cell m) meta)\<rparr>)"
  by (simp add: call_def Let_def case_prod_beta)

lemma similar_call:
  assumes "similar m m'" "dotless meta"
  shows "fst (call m' meta) = fst (call m meta)" "similar m (snd (call m' meta))"
proof -
  obtain I g where I: "run m' = run m" "cell m \<in> I" "cell m' \<in> I" "settled I g (run m)"
    using assms(1) unfolding similar_def by blast
  then show "fst (call m' meta) = fst (call m meta)"
    using assms(2) by (simp add: call_eq settledD [OF I(4)])
  show "similar m (snd (call m' meta))"
    using I assms(2) settledD(2) [OF I(4,3)] unfolding similar_def call_eq by auto
qed

lemma similar_pure: "similar (pure_matcher f) (pure_matcher f)"
  unfolding similar_def settled_def by (auto simp: pure_matcher_def)

lemma similar_negate:
  assumes "similar m m"
  shows "similar (negate m) (negate m)"
proof -
  obtain I g where I: "cell m \<in> I" "settled I g (run m)"
    using assms unfolding similar_def by blast
  then have "settled I (\<lambda>meta. \<not> g meta) (run (negate m))"
    by (simp add: settled_def negate_def case_prod_beta Let_def)
  moreover have "cell (negate m) = cell m"
    by (simp add: negate_def)
  ultimately show ?thesis
    using I(1) unfolding similar_def by auto
qed

lemma HasSuffix_dots: "HasSuffix h ''..'' \<longleftrightarrow> HasSuffix h ''.'' \<and> HasSuffix (TrimSuffix h ''.'') ''.''"
proof (cases "HasSuffix h ''.''")
  case True
  then obtain x where h: "h = x @ ''.''" by (auto simp: HasSuffix_append)
  have "(\<exists>t. x @ ''.'' = t @ ''..'') \<longleftrightarrow> (\<exists>t. x = t @ ''.'')"
    using append_same_eq [of x "''.''"] by (metis append.assoc append_Cons append_Nil)
  then show ?thesis using h by (simp add: HasSuffix_append)
next
  case False
  then show ?thesis
    by (auto simp: HasSuffix_append)
qed

lemma similar_hostSNI:
  assumes "\<not> HasSuffix h ''..''"
  shows "similar (hostSNI_closure h) (hostSNI_closure h)"
proof -
  have trim: "TrimSuffix (TrimSuffix h ''.'') ''.'' = TrimSuffix h ''.''"
    using assms by (cases "HasSuffix h ''.''") (auto simp: HasSuffix_dots TrimSuffix_none)
  let ?I = "{h, TrimSuffix h ''.''}"
  have "settled ?I (\<lambda>meta. serverName meta \<noteq> [] \<and> TrimSuffix h ''.'' = serverName meta)
      (run (hostSNI_closure h))"
    unfolding settled_def
  proof (intro allI impI)
    fix c meta
    assume c: "c \<in> ?I" and "dotless meta"
    have s: "TrimSuffix (serverName meta) ''.'' = serverName meta"
      using \<open>dotless meta\<close> by (simp add: dotless_def TrimSuffix_none)
    have Tc: "TrimSuffix c ''.'' = TrimSuffix h ''.''"
      using c trim by blast
    show "fst (run (hostSNI_closure h) c meta)
        = (serverName meta \<noteq> [] \<and> TrimSuffix h ''.'' = serverName meta)
      \<and> snd (run (hostSNI_closure h) c meta) \<in> ?I"
    proof (cases "c = serverName meta")
      case True
      then have "TrimSuffix h ''.'' = serverName meta"
        using Tc s by metis
      then show ?thesis
        using True c by (simp only: hostSNI_closure_def matcherClosure.simps) auto
    next
      case False
      then show ?thesis
        using c by (simp add: hostSNI_closure_def Let_def Tc)
    qed
  qed
  moreover have "cell (hostSNI_closure h) \<in> ?I"
    by (simp add: hostSNI_closure_def)
  ultimately show ?thesis
    by (rule similarI [rotated])
qed

inductive similar_tree :: "matchersTree \<Rightarrow> matchersTree \<Rightarrow> bool" where
  leaf: "similar m m' \<Longrightarrow> similar_tree (MTree (Some m) op l r) (MTree (Some m') op l r)"
| node: "similar_tree l l' \<Longrightarrow> similar_tree r r' \<Longrightarrow>
    similar_tree (MTree None op (Some l) (Some r)) (MTree None op (Some l') (Some r'))"

lemma similar_tree_match:
  assumes "similar_tree t t'" "dotless meta"
  shows "fst (match_tree t' meta) = fst (match_tree t meta) \<and> similar_tree t (snd (match_tree t' meta))"
  using assms
proof (induction rule: similar_tree.induct)
  case (leaf m m' op l r)
  then show ?case
    using similar_call [OF leaf(1,2)] by (auto simp: Let_def case_prod_beta intro: similar_tree.leaf)
next
  case (node l l' r r' op)
  then show ?case
    by (auto simp: Let_def case_prod_beta intro: similar_tree.node)
qed

text \<open>
  The contract of a map of builders with closures that may have state: applied to arguments
  none of which ends in two dots, a builder sets a closure whose state does not matter.
\<close>

definition tame :: "string list \<Rightarrow> bool" where
  "tame v \<longleftrightarrow> list_all (\<lambda>x. \<not> HasSuffix x ''..'') v"

fun tame_tree :: "tree \<Rightarrow> bool" where
  "tame_tree (Tree m n v l r) \<longleftrightarrow> tame v
     \<and> (case l of None \<Rightarrow> True | Some l' \<Rightarrow> tame_tree l') \<and> (case r of None \<Rightarrow> True | Some r' \<Rightarrow> tame_tree r')"

locale closure_builders =
  fixes funcs :: matcherFuncs
  assumes builds: "map_of funcs n = Some f \<Longrightarrow> f t v = Ok t' \<Longrightarrow> tame v \<Longrightarrow>
    \<exists>g. t' = set_matcher t g \<and> similar g g"
begin

lemma addRule_similar:
  "wf_tree t \<Longrightarrow> tame_tree t \<Longrightarrow> addRule empty_tree t funcs = Ok mt \<Longrightarrow> similar_tree mt mt"
proof (induction arbitrary: mt rule: wf_tree.induct)
  case (leaf m n v)
  then obtain f mt0 where f: "map_of funcs m = Some f" "f empty_tree v = Ok mt0" "tame v"
    and mt: "if n then \<exists>g. matcher mt0 = Some g \<and> mt = set_matcher mt0 (negate g) else mt = mt0"
    by (auto split: option.splits if_splits)
  obtain g where "mt0 = set_matcher empty_tree g" "similar g g"
    using builds [OF f] by auto
  then show ?case
    using mt similar_negate [of g] by (auto simp: set_matcher_def intro: similar_tree.leaf split: if_splits)
next
  case (conj l r n v)
  then show ?case by (auto simp: empty_tree_def intro: similar_tree.node)
next
  case (disj l r n v)
  then show ?case by (auto simp: empty_tree_def intro: similar_tree.node)
qed

end

lemma builders_v3:
  assumes "map_of (tcpFuncs L) n = Some f" "f t v = Ok t'" "tame v"
  shows "\<exists>g. t' = set_matcher t g \<and> similar g g"
proof -
  consider "f = expect1Parameter alpn" | "f = expect1Parameter (clientIP L)"
    | "f = expect1Parameter hostSNI" | "f = expect1Parameter (hostSNIRegexp L)"
    using assms(1) by (auto simp: tcpFuncs_def split: if_splits)
  then show ?thesis
  proof cases
    case 1
    then show ?thesis using assms(2) similar_pure
      by (auto simp: expect1Parameter_def alpn_def split: if_splits list.splits)
  next
    case 2
    then show ?thesis using assms(2) similar_pure
      by (auto simp: expect1Parameter_def clientIP_def split: if_splits outcome.splits)
  next
    case 3
    then show ?thesis using assms(2,3) similar_pure similar_hostSNI
      by (auto simp: expect1Parameter_def hostSNI_def tame_def split: if_splits list.splits)
  next
    case 4
    then show ?thesis using assms(2) similar_pure
      by (auto simp: expect1Parameter_def hostSNIRegexp_def split: if_splits list.splits option.splits)
  qed
qed

lemma builders_v2:
  assumes "map_of (tcpFuncsV2 L) n = Some f" "f t v = Ok t'"
  shows "\<exists>g. t' = set_matcher t g \<and> similar g g"
proof -
  consider "f = alpnV2" | "f = clientIPV2 L" | "f = hostSNIV2" | "f = hostSNIRegexpV2 L"
    using assms(1) by (auto simp: tcpFuncsV2_def split: if_splits)
  then show ?thesis
    using assms(2) similar_pure
    by cases (auto simp: alpnV2_def clientIPV2_def hostSNIV2_def hostSNIRegexpV2_def Let_def
        split: if_splits outcome.splits)
qed

interpretation tcp_v3: closure_builders "tcpFuncs L" for L
  by unfold_locales (rule builders_v3)

interpretation tcp_v2: closure_builders "tcpFuncsV2 L" for L
  by unfold_locales (rule builders_v2)

subsection \<open>Route selection over the life of a muxer\<close>

interpretation tcp_route_order: strict_weak_order route_less
  by unfold_locales (auto simp: route_less_def)

interpretation tcp_route_sort: sort_Sort route_less "insertionSort route_less"
  by (rule tcp_route_order.insertionSort_sort_Sort)

definition similar_route :: "'h route \<Rightarrow> 'h route \<Rightarrow> bool" where
  "similar_route r r' \<longleftrightarrow> similar_tree (matchers r) (matchers r') \<and> handler r' = handler r
     \<and> catchAll r' = catchAll r"

lemma match_routes_similar:
  "list_all2 similar_route rs rs' \<Longrightarrow> dotless meta \<Longrightarrow>
     fst (match_routes rs' meta) = fst (match_routes rs meta) \<and>
     list_all2 similar_route rs (snd (match_routes rs' meta))"
proof (induction rule: list_all2_induct)
  case (Cons r rs r' rs')
  then have "fst (match_tree (matchers r') meta) = fst (match_tree (matchers r) meta)
      \<and> similar_tree (matchers r) (snd (match_tree (matchers r') meta))"
    using similar_tree_match by (auto simp: similar_route_def)
  then show ?case
    using Cons by (auto simp: Let_def case_prod_beta similar_route_def)
qed simp

lemma match_routes_find:
  "fst (match_routes rs meta) =
     (case find (\<lambda>r. fst (match_tree (matchers r) meta)) rs of
        None \<Rightarrow> (None, False) | Some r \<Rightarrow> (Some (handler r), catchAll r))"
  by (induction rs) (auto simp: Let_def case_prod_beta)

text \<open>The connections a muxer has served, one after the other.\<close>

definition serve_all :: "ConnData list \<Rightarrow> 'h muxer \<Rightarrow> 'h muxer" where
  "serve_all metas m = fold (\<lambda>meta m. snd (Match m meta)) metas m"

lemma Match_eq: "Match m meta =
    (fst (match_routes (routes m) meta), m\<lparr>routes := snd (match_routes (routes m) meta)\<rparr>)"
  by (simp add: Match_def case_prod_beta Let_def)

lemma serve_all_similar:
  assumes "list_all2 similar_route rs (routes m)" "list_all dotless metas"
  shows "list_all2 similar_route rs (routes (serve_all metas m))"
  using assms
proof (induction metas arbitrary: m)
  case (Cons meta metas)
  then have "list_all2 similar_route rs (routes (snd (Match m meta)))"
    using match_routes_similar by (auto simp: Match_eq)
  then show ?case
    using Cons by (simp add: serve_all_def)
qed (simp add: serve_all_def)

type_synonym 'h route_spec = "string \<times> string \<times> int \<times> 'h"

fun add_routes ::
  "tcpLib \<Rightarrow> ('h route list \<Rightarrow> 'h route list) \<Rightarrow> predicate_parser \<Rightarrow> 'h route_spec list \<Rightarrow> 'h muxer \<Rightarrow> 'h muxer" where
  "add_routes L srt Parse [] m = m"
| "add_routes L srt Parse ((rule, syntx, prio, h) # specs) m =
     (case AddRoute L srt Parse rule syntx prio h m of
        Ok m' \<Rightarrow> add_routes L srt Parse specs m'
      | _ \<Rightarrow> add_routes L srt Parse specs m)"

definition spec_route :: "tcpLib \<Rightarrow> predicate_parser \<Rightarrow> 'h muxer \<Rightarrow> 'h route_spec \<Rightarrow> 'h route option" where
  "spec_route L Parse m spec = (case spec of (rule, syntx, prio, h) \<Rightarrow>
     (case parse_rule L Parse m rule syntx of
        Ok (mt, ca) \<Rightarrow> Some \<lparr>matchers = mt, handler = h, catchAll = ca, priority = prio\<rparr> | _ \<Rightarrow> None))"

text \<open>A route is eligible for a connection if its rule parses and its fresh matchers match.\<close>

definition eligible :: "tcpLib \<Rightarrow> predicate_parser \<Rightarrow> 'h muxer \<Rightarrow> ConnData \<Rightarrow> 'h route_spec \<Rightarrow> bool" where
  "eligible L Parse m meta spec = (case spec of (rule, syntx, prio, h) \<Rightarrow>
     (case parse_rule L Parse m rule syntx of Ok (mt, _) \<Rightarrow> fst (match_tree mt meta) | _ \<Rightarrow> False))"

lemma parse_rule_routes: "parse_rule L Parse (m\<lparr>routes := rs\<rparr>) = parse_rule L Parse m"
  by (simp add: parse_rule_def fun_eq_iff)

lemma tcp_add_routes_table:
  "routes (add_routes L srt Parse specs m) = add_sorted srt (spec_route L Parse m) specs (routes m)"
proof (induction specs arbitrary: m)
  case (Cons spec specs)
  obtain rule syntx prio h where spec: "spec = (rule, syntx, prio, h)"
    by (cases spec)
  have "spec_route L Parse (m\<lparr>routes := rs\<rparr>) = spec_route L Parse m" for rs
    by (simp add: spec_route_def parse_rule_routes fun_eq_iff)
  then show ?case
    by (cases "parse_rule L Parse m rule syntx")
      (auto simp: spec AddRoute_def spec_route_def [of L Parse m "(rule, syntx, prio, h)"] Cons.IH
        split: prod.splits)
qed simp

lemma tcp_spec_route_fields:
  "spec_route L Parse m (rule, syntx, prio, h) = Some r \<Longrightarrow> priority r = prio \<and> handler r = h"
  by (auto simp: spec_route_def split: outcome.splits prod.splits)

lemma tcp_eligible_route:
  "eligible L Parse m meta (rule, syntx, prio, h) \<longleftrightarrow>
     (\<exists>r. spec_route L Parse m (rule, syntx, prio, h) = Some r \<and> fst (match_tree (matchers r) meta)
        \<and> priority r = prio \<and> handler r = h)"
  by (auto simp: eligible_def spec_route_def split: outcome.splits prod.splits)

text \<open>No argument of the rule ends in two dots.\<close>

definition tame_rule :: "predicate_parser \<Rightarrow> 'h muxer \<Rightarrow> string \<Rightarrow> bool" where
  "tame_rule Parse m rule \<longleftrightarrow> (\<forall>p b t. p \<in> {parser m, parserV2 m} \<longrightarrow>
     Parse p rule = Ok (Some b) \<longrightarrow> b () = Ok t \<longrightarrow> tame_tree t)"

lemma parse_rule_similar:
  assumes "predicate_contract Parse ast" "tame_rule Parse (NewMuxer title L :: 'h muxer) rule"
    and "parse_rule L Parse (NewMuxer title L :: 'h muxer) rule syntx = Ok (mt, ca)"
  shows "similar_tree mt mt"
proof -
  define names where "names = map fst (if syntx = ''v2'' then tcpFuncsV2 L else tcpFuncs L)"
  obtain b t where b: "Parse (NewParser title names) rule = Ok (Some b)" "b () = Ok t"
    and add: "addRule empty_tree t (if syntx = ''v2'' then tcpFuncsV2 L else tcpFuncs L) = Ok mt"
    using assms(3) unfolding parse_rule_def names_def NewMuxer_def
    by (auto simp: Let_def split: if_splits option.splits)
  obtain ex where "interp (NewParser title names) ex = Ok b"
    using Parse_call [OF assms(1) b(1)] by blast
  moreover have "and_op \<notin> set names" "or_op \<notin> set names"
    by (simp_all add: names_def tcpFuncs_def tcpFuncsV2_def and_op_def or_op_def)
  ultimately have wf: "wf_tree t"
    using interp_builds [of names title ex b] b(2) by auto
  have "tame_tree t"
    using assms(2) b unfolding tame_rule_def names_def NewMuxer_def by (auto split: if_splits)
  then show ?thesis
    using tcp_v2.addRule_similar [OF wf] tcp_v3.addRule_similar [OF wf] add by (auto split: if_splits)
qed

text \<open>
  C19. A TCP muxer chooses by priority alone, and keeps doing so. Take any routes, in either rule
  syntax, and any connections served before, in any order; if server names carry no trailing
  dot and no argument of a rule ends in two dots, then the next connection gets the handler of a
  route that is eligible, such that no eligible route has a higher priority, and it
  gets none only when no route is eligible: earlier connections leave no trace.
\<close>

theorem tcp_route_selection:
  fixes specs :: "'h route_spec list" and title :: "string \<Rightarrow> string" and L :: tcpLib
  defines "m \<equiv> NewMuxer title L :: 'h muxer"
  assumes "sort_Sort route_less srt" "predicate_contract Parse ast"
    and "list_all (\<lambda>(rule, syntx, prio, h). tame_rule Parse m rule) specs"
    and "list_all dotless metas" "dotless meta"
  shows "case fst (fst (Match (serve_all metas (add_routes L srt Parse specs m)) meta)) of
      Some h \<Rightarrow> (\<exists>rule syntx prio. (rule, syntx, prio, h) \<in> set specs \<and> eligible L Parse m meta (rule, syntx, prio, h)
        \<and> (\<forall>rule2 syntx2 prio2 h2. (rule2, syntx2, prio2, h2) \<in> set specs \<longrightarrow>
             eligible L Parse m meta (rule2, syntx2, prio2, h2) \<longrightarrow> prio2 \<le> prio))
    | None \<Rightarrow> \<forall>s \<in> set specs. \<not> eligible L Parse m meta s"
proof -
  let ?mk = "spec_route L Parse m"
  define tab where "tab = add_sorted srt ?mk specs []"
  have routes: "routes (add_routes L srt Parse specs m) = tab"
    by (simp add: tcp_add_routes_table tab_def) (simp add: m_def NewMuxer_def)
  have "similar_route r r" if "r \<in> set tab" for r
  proof -
    obtain rule syntx prio h where spec: "(rule, syntx, prio, h) \<in> set specs" "?mk (rule, syntx, prio, h) = Some r"
      using sort_Sort.add_sorted_start [OF assms(2), of ?mk specs] \<open>r \<in> set tab\<close> by (auto simp: tab_def)
    then obtain ca where "parse_rule L Parse m rule syntx = Ok (matchers r, ca)"
      by (auto simp: spec_route_def split: outcome.splits prod.splits)
    then show ?thesis
      using parse_rule_similar [OF assms(3)] assms(4) spec(1)
      by (fastforce simp: similar_route_def m_def list_all_iff)
  qed
  then have "list_all2 similar_route tab (routes (serve_all metas (add_routes L srt Parse specs m)))"
    by (intro serve_all_similar assms(5)) (auto simp: routes list_all2_same)
  then have match: "fst (Match (serve_all metas (add_routes L srt Parse specs m)) meta) = fst (match_routes tab meta)"
    using match_routes_similar assms(6) by (auto simp: Match_eq)
  let ?P = "\<lambda>r. fst (match_tree (matchers r) meta)"
  show ?thesis
  proof (cases "find ?P tab")
    case None
    then show ?thesis
      using sort_Sort.add_sorted_none [OF assms(2) None [unfolded tab_def]]
      by (auto simp: match match_routes_find tcp_eligible_route)
  next
    case (Some r)
    note first = sort_Sort.add_sorted_first [OF assms(2) Some [unfolded tab_def]]
    obtain rule syntx prio h where spec: "(rule, syntx, prio, h) \<in> set specs" "?mk (rule, syntx, prio, h) = Some r"
      using first(1) by auto
    have "prio2 \<le> prio" if "(rule2, syntx2, prio2, h2) \<in> set specs"
      "eligible L Parse m meta (rule2, syntx2, prio2, h2)" for rule2 syntx2 prio2 h2
      using that first(3) [OF that(1)] tcp_spec_route_fields [OF spec(2)]
      by (auto simp: tcp_eligible_route route_less_def not_less)
    then show ?thesis
      using spec first(2) tcp_spec_route_fields [OF spec(2)] Some
      by (auto simp: match match_routes_find tcp_eligible_route)
  qed
qed

definition demo_ast :: "string \<Rightarrow> expr option" where
  "demo_ast rule =
     (if rule = ''HostSNI(`a.`)'' then Some (Call ''HostSNI'' [''a.''])
      else if rule = ''HostSNI(`*`)'' then Some (Call ''HostSNI'' [''*''])
      else None)"

definition demo_Parse :: predicate_parser where
  "demo_Parse d rule = (case demo_ast rule of None \<Rightarrow> Err ''syntax error''
     | Some ex \<Rightarrow> bind_outcome (interp d ex) (\<lambda>b. Ok (Some b)))"

definition demo_tcp :: tcpLib where
  "demo_tcp = \<lparr>ips = demo_lib, RegexpCompile = (\<lambda>p. Some (\<lambda>s. s = p))\<rparr>"

definition demo_specs :: "string route_spec list" where
  "demo_specs = [(''HostSNI(`*`)'', ''v3'', -1, ''all''), (''HostSNI(`a.`)'', ''v3'', 13, ''a'')]"

definition demo_conn :: "string \<Rightarrow> ConnData" where
  "demo_conn s = \<lparr>serverName = s, remoteIP = ''10.1.2.3'', alpnProtos = []\<rparr>"

lemma tcp_demo_contract: "predicate_contract demo_Parse demo_ast"
  by (auto simp: predicate_contract_def demo_Parse_def split: option.split)

lemma interp_call:
  "interp (NewParser title ms) (Call f args) = Ok b \<Longrightarrow> b () = Ok t \<Longrightarrow> \<exists>m. t = Tree m False args None None"
  by (auto simp: NewParser_def matcher_func_def split: option.splits)

lemma demo_tame:
  assumes "(rule, syntx, prio, h) \<in> set demo_specs"
  shows "tame_rule demo_Parse (NewMuxer title L) rule"
  unfolding tame_rule_def
proof (intro allI impI)
  fix p b t
  assume p: "p \<in> {parser (NewMuxer title L), parserV2 (NewMuxer title L)}"
    and b: "demo_Parse p rule = Ok (Some b)" and t: "b () = Ok t"
  obtain v where v: "demo_ast rule = Some (Call ''HostSNI'' v)" "tame v"
    using assms by (auto simp: demo_specs_def demo_ast_def tame_def HasSuffix_def)
  have "interp p (Call ''HostSNI'' v) = Ok b"
    using b v(1) by (cases "interp p (Call ''HostSNI'' v)") (simp_all add: demo_Parse_def)
  moreover obtain ms where "p = NewParser title ms"
    using p by (auto simp: NewMuxer_def)
  ultimately show "tame_tree t"
    using interp_call t v(2) by fastforce
qed

lemma demo_served:
  "fst (fst (Match (serve_all [demo_conn ''b'', demo_conn ''a''] (add_routes demo_tcp (insertionSort route_less)
     demo_Parse demo_specs (NewMuxer id demo_tcp))) (demo_conn ''a''))) = Some ''a''"
  by code_simp

theorem tcp_route_selection_witness:
  "\<exists>rule syntx prio. (rule, syntx, prio, ''a'') \<in> set demo_specs \<and>
     eligible demo_tcp demo_Parse (NewMuxer id demo_tcp) (demo_conn ''a'') (rule, syntx, prio, ''a'')"
proof -
  have "list_all dotless [demo_conn ''b'', demo_conn ''a'']" "dotless (demo_conn ''a'')"
    by (simp_all add: dotless_def demo_conn_def HasSuffix_def)
  note conns = this
  have tame: "list_all (\<lambda>(rule, syntx, prio, h). tame_rule demo_Parse (NewMuxer id demo_tcp :: string muxer) rule) demo_specs"
    using demo_tame by (auto simp: list_all_iff)
  have "case fst (fst (Match (serve_all [demo_conn ''b'', demo_conn ''a''] (add_routes demo_tcp (insertionSort route_less)
      demo_Parse demo_specs (NewMuxer id demo_tcp))) (demo_conn ''a''))) of
      Some h \<Rightarrow> \<exists>rule syntx prio. (rule, syntx, prio, h) \<in> set demo_specs \<and>
        eligible demo_tcp demo_Parse (NewMuxer id demo_tcp) (demo_conn ''a'') (rule, syntx, prio, h)
    | None \<Rightarrow> True"
    using tcp_route_selection [where title = id and L = demo_tcp and specs = demo_specs,
        OF tcp_route_sort.sort_Sort_axioms tcp_demo_contract tame conns]
    by (auto split: option.splits)
  then show ?thesis
    unfolding demo_served by simp
qed

text \<open>
  The closure of \<open>HostSNI\<close> forgets the trailing dot of its host. A rule for a host written
  with a trailing dot matches that very name on a fresh muxer, as the tests of the package
  demand; but as soon as the closure has seen a connection with any other server name, it has
  overwritten the captured host, and the same name is not matched any more.
\<close>

theorem hostSNI_forgets_dot:
  assumes "hostSNI t [h @ ''.''] = Ok t'" "h \<noteq> []" "\<not> HasSuffix h ''.''"
    and "serverName meta = h @ ''.''" "serverName other \<noteq> []" "serverName other \<noteq> h @ ''.''"
  shows "fst (match_tree t' meta) \<and> \<not> fst (match_tree (snd (match_tree t' other)) meta)"
proof -
  have "t' = set_matcher t (hostSNI_closure (h @ ''.''))"
    using assms(1,2) by (auto simp: hostSNI_def split: if_splits)
  then show ?thesis
    using assms(2-) by (auto simp: set_matcher_def call_eq hostSNI_closure_def Let_def TrimSuffix_none)
qed

theorem hostSNI_forgets_dot_witness:
  "\<exists>t'. hostSNI empty_tree [''a.''] = Ok t' \<and> fst (match_tree t' (demo_conn ''a.''))
     \<and> \<not> fst (match_tree (snd (match_tree t' (demo_conn ''b''))) (demo_conn ''a.''))"
proof -
  obtain t' where t': "hostSNI empty_tree [''a'' @ ''.''] = Ok t'"
    by (simp add: hostSNI_def hostOrIP_def hostOrIP_char_def code_of_def)
  have "\<not> HasSuffix ''a'' ''.''" by (simp add: HasSuffix_def)
  from hostSNI_forgets_dot [OF t' _ this, of "demo_conn ''a.''" "demo_conn ''b''"] t' show ?thesis
    by (auto simp: demo_conn_def)
qed

end
