(* ===== verification/EntryPoint.thy ===== *)
theory EntryPoint
  imports ForwardedHeaders TcpMuxer
begin

section \<open>The handlers of an entry point\<close>

text \<open>
  What a request passes before it reaches the muxer: the chain that \<open>newHTTPServer\<close> of \<open>pkg/server/server_entrypoint_tcp.go\<close> builds from the
  handlers of \<open>PathClean\<close> and \<open>ForwardedHeaders\<close> and from the one of \<open>pkg/middlewares/requestdecorator\<close>, which computes the host that rules
  are matched against. Limits of connections and the detection of content types, which do not change the request, are left out. The answers of
  the name servers are an argument; the cache of resolved names holds what has not expired.
\<close>

subsection \<open>Canonical host\<close>

definition parseHost :: "string \<Rightarrow> string" where
  "parseHost a =
     (if CHR '':'' \<notin> set a then a
      else case SplitHostPort a of
        Some (h, _) \<Rightarrow> h
      | None \<Rightarrow> if hd a = CHR ''['' \<and> last a = CHR '']'' then butlast (tl a) else a)"

record Resolver =
  CnameFlattening :: bool
  ResolvDepth :: nat
  cname_cache :: "string \<rightharpoonup> string"

text \<open>The loop of \<open>CNAMEFlatten\<close>; an error and a missing record both end it.\<close>

fun cname_loop :: "(string \<Rightarrow> string option outcome) \<Rightarrow> nat \<Rightarrow> string \<Rightarrow> string \<Rightarrow> string" where
  "cname_loop cnameResolve 0 request' result = result"
| "cname_loop cnameResolve (Suc n) request' result =
     (case cnameResolve request' of
        Ok (Some r) \<Rightarrow> cname_loop cnameResolve n r r
      | _ \<Rightarrow> result)"

definition CNAMEFlatten :: "(string \<Rightarrow> string option outcome) \<Rightarrow> Resolver \<Rightarrow> string \<Rightarrow> string \<times> Resolver" where
  "CNAMEFlatten cnameResolve hr h =
     (case cname_cache hr h of
        Some v \<Rightarrow> (v, hr)
      | None \<Rightarrow>
          let result = cname_loop cnameResolve (ResolvDepth hr) h h
          in (result, hr\<lparr>cname_cache := (cname_cache hr)(h \<mapsto> result)\<rparr>))"

record RequestDecorator =
  hostResolver :: "Resolver option"

definition RequestDecorator_ServeHTTP ::
  "(string \<Rightarrow> string option outcome) \<Rightarrow> RequestDecorator \<Rightarrow> http_request \<Rightarrow> http_request \<times> RequestDecorator" where
  "RequestDecorator_ServeHTTP cnameResolve r req =
     (let h = CanonicalDomain (parseHost (Host req));
          reqt = req\<lparr>ctxCanonical := Some h\<rparr>
      in case hostResolver r of
           None \<Rightarrow> (reqt, r)
         | Some hr \<Rightarrow>
             if CnameFlattening hr then
               (let (flatHost, hr') = CNAMEFlatten cnameResolve hr h
                in (reqt\<lparr>ctxFlatten := Some flatHost\<rparr>, r\<lparr>hostResolver := Some hr'\<rparr>))
             else (reqt, r))"

subsection \<open>The chain\<close>

record EntryPointHTTP =
  EncodeQuerySemicolons :: bool
  SanitizePath :: "bool option"

text \<open>
  \<open>newHTTPServer\<close> wraps the handlers from the inside out: the last one wrapped sees the request first. \<^const>\<open>None\<close> is the answer 400 of one
  of them, otherwise the muxer of the entry point gets the request.
\<close>

definition entry_chain ::
  "ipLib \<Rightarrow> (string list \<Rightarrow> string \<Rightarrow> bool) \<Rightarrow> (string \<Rightarrow> string option outcome) \<Rightarrow> EntryPointHTTP \<Rightarrow> XForwarded \<Rightarrow> RequestDecorator \<Rightarrow>
   http_request \<Rightarrow> (http_request \<times> RequestDecorator) option" where
  "entry_chain L containsToken cnameResolve configuration x reqDecorator req =
     Option.bind (denyFragment req) (\<lambda>r1.
     Option.bind (normalizePath_handler r1) (\<lambda>r2.
     Option.bind (if SanitizePath configuration = Some True then sanitizePath r2 else Some r2) (\<lambda>r3.
     Option.bind (if EncodeQuerySemicolons configuration then encodeQuerySemicolons r3 else AllowQuerySemicolons r3) (\<lambda>r4.
     Some (RequestDecorator_ServeHTTP cnameResolve reqDecorator (XForwarded_ServeHTTP L containsToken x r4))))))"

subsection \<open>Well-formed requests\<close>

lemma encodeQuerySemicolons_path:
  "encodeQuerySemicolons r = Some r' \<Longrightarrow> urlPath (URL r') = urlPath (URL r) \<and> Host r' = Host r"
  by (auto simp: encodeQuerySemicolons_def Let_def split: if_splits)

lemma AllowQuerySemicolons_path:
  "AllowQuerySemicolons r = Some r' \<Longrightarrow> urlPath (URL r') = urlPath (URL r) \<and> Host r' = Host r"
  by (auto simp: AllowQuerySemicolons_def split: if_splits)

lemma replace_byte_gone: "c \<notin> set new \<Longrightarrow> c \<notin> set (replace_byte c new s)"
  by (auto simp: replace_byte_def)

lemma rewrite_keeps:
  "URL (rewrite x r) = URL r" "RequestURI (rewrite x r) = RequestURI r" "Host (rewrite x r) = Host r"
  "reqRemoteAddr (rewrite x r) = reqRemoteAddr r"
  by (simp_all add: rewrite_def rewrite_for_def rewrite_host_def rewrite_port_def rewrite_proto_def rewrite_real_ip_def Let_def
      split: option.split)

lemma removeConnectionHeaders_fields:
  "URL (removeConnectionHeaders tok x r) = URL r" "RequestURI (removeConnectionHeaders tok x r) = RequestURI r"
  "Host (removeConnectionHeaders tok x r) = Host r" "reqRemoteAddr (removeConnectionHeaders tok x r) = reqRemoteAddr r"
  by (simp_all add: removeConnectionHeaders_def Let_def split: prod.split)

lemma XForwarded_fields:
  "URL (XForwarded_ServeHTTP L tok x r) = URL r" "RequestURI (XForwarded_ServeHTTP L tok x r) = RequestURI r"
  "Host (XForwarded_ServeHTTP L tok x r) = Host r" "reqRemoteAddr (XForwarded_ServeHTTP L tok x r) = reqRemoteAddr r"
  by (simp_all add: XForwarded_ServeHTTP_def Let_def rewrite_keeps removeConnectionHeaders_fields)

lemma RequestDecorator_fields:
  assumes "RequestDecorator_ServeHTTP cr d r = (r', d')"
  shows "URL r' = URL r" "RequestURI r' = RequestURI r" "ctxCanonical r' = Some (CanonicalDomain (parseHost (Host r)))"
  using assms by (auto simp: RequestDecorator_ServeHTTP_def Let_def split: option.splits if_splits prod.splits)

lemma TrimSpace_idem: "TrimSpace (TrimSpace s) = TrimSpace s"
proof -
  let ?y = "dropWhile is_space s" and ?x = "TrimSpace s"
  have x: "?x = rev (dropWhile is_space (rev ?y))" by (simp add: TrimSpace_def)
  obtain z where y: "?y = ?x @ z"
    using takeWhile_dropWhile_id [of is_space "rev ?y"] unfolding x by (metis rev_append rev_rev_ident)
  have "dropWhile is_space ?x = ?x"
  proof (cases ?x)
    case (Cons c cs)
    then have "\<not> is_space c" using y hd_dropWhile [of is_space s] by simp
    then show ?thesis using Cons by simp
  qed simp
  moreover have "dropWhile is_space (rev ?x) = rev ?x" unfolding x by (simp add: dropWhile_idem)
  ultimately show ?thesis by (simp add: TrimSpace_def [of ?x])
qed

lemma is_space_lower: "is_space (lower_char c) = is_space c"
proof (cases "is_upper c")
  case True
  then show ?thesis using code_of_upper_bound [OF True] by (simp add: is_space_def lower_char_def is_upper_def)
qed (simp add: lower_char_def)

lemma TrimSpace_lower: "TrimSpace (ToLower s) = ToLower (TrimSpace s)"
  by (simp add: TrimSpace_def ToLower_def dropWhile_map rev_map comp_def is_space_lower)

lemma CanonicalDomain_idem: "CanonicalDomain (CanonicalDomain s) = CanonicalDomain s"
  by (simp add: CanonicalDomain_def TrimSpace_lower TrimSpace_idem)

text \<open>What the muxer may rely on.\<close>

definition well_formed :: "http_request \<Rightarrow> bool" where
  "well_formed r \<longleftrightarrow>
     url_consistent (urlPath (URL r)) \<and> normal (URL_EscapedPath (urlPath (URL r))) \<and> CHR '';'' \<notin> set (RawQuery (URL r)) \<and>
     (\<exists>h. ctxCanonical r = Some h \<and> CanonicalDomain h = h)"

text \<open>The request behind the path handlers, and what the remaining ones keep of it.\<close>

lemma path_handler:
  assumes "url_ok (urlPath (URL r))"
  shows "\<exists>r2. normalizePath_handler r = Some r2 \<and> normal (URL_EscapedPath (urlPath (URL r2))) \<and> url_consistent (urlPath (URL r2)) \<and>
    Path (urlPath (URL r2)) = Path (urlPath (URL r)) \<and> Opaque (URL r2) = Opaque (URL r)"
proof -
  obtain u where u: "normalizePath (urlPath (URL r)) = Some u" using normalize_EscapedPath [OF assms] by blast
  note * = normalizePath_normal [OF assms u]
  show ?thesis
    using u * by (cases "u = urlPath (URL r)") (simp_all add: normalizePath_handler_def Let_def)
qed

lemma sanitize_handler:
  assumes "normal (URL_EscapedPath (urlPath (URL r)))" "url_consistent (urlPath (URL r))"
  shows "\<exists>r'. (if s then sanitizePath r else Some r) = Some r' \<and> normal (URL_EscapedPath (urlPath (URL r'))) \<and>
    url_consistent (urlPath (URL r')) \<and> Opaque (URL r') = Opaque (URL r)"
  using assms JoinPath_dot_free [OF assms(1)] url_ok_consistent by (cases s) (simp_all add: sanitizePath_def Let_def)

lemma semicolon_handler:
  "\<exists>r'. (if e then encodeQuerySemicolons r else AllowQuerySemicolons r) = Some r' \<and>
     urlPath (URL r') = urlPath (URL r) \<and> Opaque (URL r') = Opaque (URL r) \<and> CHR '';'' \<notin> set (RawQuery (URL r')) \<and>
     (RequestURI r' = RequestURI r \<or> RequestURI r' = URL_RequestURI (URL r'))"
proof (cases "CHR '';'' \<in> set (RawQuery (URL r))")
  case True
  have "CHR '';'' \<notin> set (replace_byte (CHR '';'') ''%3B'' q)" "CHR '';'' \<notin> set (replace_byte (CHR '';'') ''&'' q)" for q
    by (rule replace_byte_gone, simp)+
  with True show ?thesis by (cases e) (simp_all add: encodeQuerySemicolons_def AllowQuerySemicolons_def Let_def)
qed (simp add: encodeQuerySemicolons_def AllowQuerySemicolons_def)

lemma chain_tail:
  assumes "Some (RequestDecorator_ServeHTTP cr d (XForwarded_ServeHTTP L tok x r)) = Some (r', d')"
  shows "URL r' = URL r" "RequestURI r' = RequestURI r" "\<exists>h. ctxCanonical r' = Some h \<and> CanonicalDomain h = h"
  using RequestDecorator_fields [of cr d "XForwarded_ServeHTTP L tok x r" r' d'] assms
  by (simp_all add: XForwarded_fields CanonicalDomain_idem)

lemma path_handlers_host:
  "normalizePath_handler r = Some r' \<Longrightarrow> Host r' = Host r" "sanitizePath r = Some r' \<Longrightarrow> Host r' = Host r"
  by (auto simp: normalizePath_handler_def sanitizePath_def Let_def split: option.splits if_splits)

lemma entry_host:
  assumes "entry_chain L tok cr cfg x d r = Some (r', d')"
  shows "ctxCanonical r' = Some (CanonicalDomain (parseHost (Host r)))"
proof -
  obtain r1 r2 r3 r4 where *: "normalizePath_handler r1 = Some r2" "(if SanitizePath cfg = Some True then sanitizePath r2 else Some r2) = Some r3"
    "(if EncodeQuerySemicolons cfg then encodeQuerySemicolons r3 else AllowQuerySemicolons r3) = Some r4"
    "RequestDecorator_ServeHTTP cr d (XForwarded_ServeHTTP L tok x r4) = (r', d')" "denyFragment r = Some r1"
    using assms unfolding entry_chain_def bind_eq_Some_conv option.inject by blast
  have "r1 = r" using *(5) by (simp add: denyFragment_def split: if_splits)
  have "Host r3 = Host r2" using *(2) path_handlers_host(2) by (auto split: if_splits)
  moreover have "Host r4 = Host r3"
    using *(3) encodeQuerySemicolons_path [of r3 r4] AllowQuerySemicolons_path [of r3 r4] by (auto split: if_splits)
  ultimately show ?thesis
    using RequestDecorator_fields(3) [OF *(4)] path_handlers_host(1) [OF *(1)] \<open>r1 = r\<close> by (simp add: XForwarded_fields)
qed

text \<open>
  C4. Every request that reaches the muxer is well formed. For a URL as the library parses it, the chain of an entry point answers 400 exactly when
  the raw path contains a fragment; otherwise the muxer gets a request whose raw path decodes to its path, whose escaped path is in
  normal form, whose query has no semicolons, and which carries the canonical form of the host that the client named, whatever the configuration.
\<close>

theorem entry_well_formed:
  assumes "url_ok (urlPath (URL r))"
  shows "(entry_chain L tok cr cfg x d r = None \<longleftrightarrow> CHR ''#'' \<in> set (RawPath (urlPath (URL r)))) \<and>
    (\<forall>r' d'. entry_chain L tok cr cfg x d r = Some (r', d') \<longrightarrow>
       well_formed r' \<and> ctxCanonical r' = Some (CanonicalDomain (parseHost (Host r))))"
proof (cases "CHR ''#'' \<in> set (RawPath (urlPath (URL r)))")
  case True
  then show ?thesis by (simp add: entry_chain_def denyFragment_def)
next
  case False
  obtain r2 where r2: "normalizePath_handler r = Some r2" "normal (URL_EscapedPath (urlPath (URL r2)))" "url_consistent (urlPath (URL r2))"
    using path_handler [OF assms] by blast
  obtain r3 where r3: "(if SanitizePath cfg = Some True then sanitizePath r2 else Some r2) = Some r3"
    "normal (URL_EscapedPath (urlPath (URL r3)))" "url_consistent (urlPath (URL r3))"
    using sanitize_handler [OF r2(2,3), of "SanitizePath cfg = Some True"] by blast
  obtain r4 where r4: "(if EncodeQuerySemicolons cfg then encodeQuerySemicolons r3 else AllowQuerySemicolons r3) = Some r4"
    "urlPath (URL r4) = urlPath (URL r3)" "CHR '';'' \<notin> set (RawQuery (URL r4))"
    using semicolon_handler [of "EncodeQuerySemicolons cfg" r3] by blast
  have *: "entry_chain L tok cr cfg x d r = Some (RequestDecorator_ServeHTTP cr d (XForwarded_ServeHTTP L tok x r4))"
    using False r2(1) r3(1) r4(1) by (simp add: entry_chain_def denyFragment_def)
  have "well_formed r'" if "entry_chain L tok cr cfg x d r = Some (r', d')" for r' d'
    using chain_tail [OF that [unfolded *]] r3 r4 by (simp add: well_formed_def)
  then show ?thesis using False * entry_host [of L tok cr cfg x d r] by simp
qed

text \<open>A path that hides dot segments behind percent signs, with an encoded slash and a query with semicolons.\<close>

definition demo_entry :: http_request where
  "demo_entry = demo_spoofed\<lparr>
     URL := \<lparr>urlPath = \<lparr>Path = ''/static/../admin//x/y'', RawPath = ''/static/%2e%2E/admin//x%2Fy''\<rparr>, RawQuery = ''a;b'',
       ForceQuery = False, Opaque = [], Scheme = []\<rparr>,
     RequestURI := ''/static/%2e%2E/admin//x%2Fy?a;b'', Host := ''A.Example:80''\<rparr>"

definition demo_ipLib :: ipLib where
  "demo_ipLib = \<lparr>ParseIP = (\<lambda>_. None), ParseCIDR = (\<lambda>_. None), ParseAddr = (\<lambda>_. None), AddrString = (\<lambda>_. [])\<rparr>"

definition demo_chain :: "http_request \<Rightarrow> (http_request \<times> RequestDecorator) option" where
  "demo_chain = entry_chain demo_ipLib (\<lambda>_ _. False) (\<lambda>_. Ok None) \<lparr>EncodeQuerySemicolons = True, SanitizePath = Some True\<rparr>
     demo_forwarded \<lparr>hostResolver = None\<rparr>"

lemma demo_entry_ok: "url_ok (urlPath (URL demo_entry))"
  by code_simp

lemma demo_chain_result:
  "map_option (\<lambda>(r, d). (RequestURI r, ctxCanonical r)) (demo_chain demo_entry) = Some (''/admin/x%2Fy?a%3Bb'', Some ''a.example'')"
  by code_simp

theorem entry_well_formed_witness:
  "url_ok (urlPath (URL demo_entry)) \<and> (\<exists>r' d'. demo_chain demo_entry = Some (r', d') \<and> well_formed r' \<and> RequestURI r' = ''/admin/x%2Fy?a%3Bb'')"
proof -
  obtain r' d' where *: "demo_chain demo_entry = Some (r', d')" "RequestURI r' = ''/admin/x%2Fy?a%3Bb''"
    using demo_chain_result by auto
  then show ?thesis using entry_well_formed [OF demo_entry_ok] demo_entry_ok unfolding demo_chain_def by blast
qed

subsection \<open>Dot segments\<close>





end
