(* ===== verification/ConfigWatcher.thy ===== *)
theory ConfigWatcher
  imports Prelude "HOL-Library.Sublist"
begin

section \<open>From the providers to the listeners\<close>

text \<open>
  How configurations travel: the aggregation of providers and the throttling of each by a channel that keeps only the latest message
  (\<open>pkg/provider/aggregator\<close>), and the two goroutines of the configuration watcher (\<open>pkg/server/configurationwatcher.go\<close>), of which the first collects
  the latest configuration of every provider and the second applies the collection. The watcher works on configurations of any type, whose equality
  is that of \<open>reflect.DeepEqual\<close>; the test for empty configurations and the transformers are arguments of its steps, and what the listeners are called
  with is recorded as the collection from which \<open>mergeConfiguration\<close> and \<open>applyModel\<close> compute it. Deep copies are the values themselves. Goroutines that
  communicate by channels are transition systems: one step for each arm of a \<open>select\<close>, in any order. The end of the goroutines on shutdown is left out.
\<close>

subsection \<open>Ring channel\<close>

text \<open>
  The loop of \<open>ringBuffer\<close>: the variables \<open>output\<close> and \<open>next\<close> follow the buffer at the end of each round, so the state is the buffer and whether the
  input is still open. The lists record what was written to and read from the channel. The preference for the reader only restricts the order of steps.
\<close>

record 'm ring =
  buffer :: "'m option"
  input_open :: bool
  written :: "'m list"
  delivered :: "'m list"

definition newRingChannel :: "'m ring" where
  "newRingChannel = \<lparr>buffer = None, input_open = True, written = [], delivered = []\<rparr>"

inductive ringBuffer :: "'m ring \<Rightarrow> 'm ring \<Rightarrow> bool" where
  ring_input: "input_open r \<Longrightarrow> ringBuffer r (r\<lparr>buffer := Some m, written := written r @ [m]\<rparr>)"
| ring_close: "input_open r \<Longrightarrow> ringBuffer r (r\<lparr>input_open := False\<rparr>)"
| ring_output: "buffer r = Some m \<Longrightarrow> ringBuffer r (r\<lparr>buffer := None, delivered := delivered r @ [m]\<rparr>)"

inductive_cases ringBufferE: "ringBuffer r r'"

text \<open>The loop ends when neither an input nor an output is left.\<close>

definition ring_closed :: "'m ring \<Rightarrow> bool" where
  "ring_closed r \<longleftrightarrow> \<not> input_open r \<and> buffer r = None"

definition pending_messages :: "'m ring \<Rightarrow> 'm list" where
  "pending_messages r = (case buffer r of None \<Rightarrow> [] | Some m \<Rightarrow> [m])"

definition ring_ok :: "'m ring \<Rightarrow> bool" where
  "ring_ok r \<longleftrightarrow> subseq (delivered r @ pending_messages r) (written r) \<and>
     (written r \<noteq> [] \<longrightarrow> delivered r @ pending_messages r \<noteq> [] \<and> last (delivered r @ pending_messages r) = last (written r))"

lemma ring_ok_step: "ringBuffer r r' \<Longrightarrow> ring_ok r \<Longrightarrow> ring_ok r'"
proof (erule ringBufferE)
  fix m assume r: "ring_ok r" "r' = r\<lparr>buffer := Some m, written := written r @ [m]\<rparr>"
  have "subseq (delivered r) (delivered r @ pending_messages r)" by (simp add: prefix_imp_subseq)
  then have "subseq (delivered r) (written r)" using r(1) subseq_order.trans unfolding ring_ok_def by blast
  then show ?thesis using r by (simp add: ring_ok_def pending_messages_def)
qed (auto simp: ring_ok_def pending_messages_def)

lemma ring_reachable: "ringBuffer\<^sup>*\<^sup>* newRingChannel r \<Longrightarrow> ring_ok r"
proof (induction rule: rtranclp_induct)
  case base
  then show ?case by (simp add: newRingChannel_def ring_ok_def pending_messages_def)
next
  case (step r r')
  then show ?case using ring_ok_step by blast
qed

subsection \<open>Configuration watcher\<close>

record 'c message =
  ProviderName :: string
  msgConfiguration :: "'c option"

record 'c receiver =
  newConfigurations :: "string \<rightharpoonup> 'c"
  transformedConfigurations :: "string \<rightharpoonup> 'c"
  output_set :: bool

text \<open>
  What the watcher is set up with: the test for empty configurations, which also completes the configuration it is given, the transformers, and the provider to wait for.
\<close>

record 'c watch_config =
  isEmpty :: "'c \<Rightarrow> bool \<times> 'c"
  configurationTransformers :: "((string \<rightharpoonup> 'c) \<Rightarrow> (string \<rightharpoonup> 'c)) list"
  requiredProvider :: string

definition transformed :: "'c watch_config \<Rightarrow> (string \<rightharpoonup> 'c) \<Rightarrow> (string \<rightharpoonup> 'c)" where
  "transformed w cs = fold (\<lambda>f. f) (configurationTransformers w) cs"

text \<open>The arm of \<open>receiveConfigurations\<close> that handles a message.\<close>

definition receive_message :: "'c watch_config \<Rightarrow> 'c message \<Rightarrow> 'c receiver \<Rightarrow> 'c receiver" where
  "receive_message w configMsg r =
     (case msgConfiguration configMsg of
        None \<Rightarrow> r
      | Some c \<Rightarrow>
          (case isEmpty w c of (e, c') \<Rightarrow>
             if e then r
             else if newConfigurations r (ProviderName configMsg) = Some c' then r
             else
               let new = (newConfigurations r)(ProviderName configMsg \<mapsto> c')
               in r\<lparr>newConfigurations := new, transformedConfigurations := transformed w new, output_set := True\<rparr>))"

text \<open>\<open>applyConfigurations\<close>, for one collection received: the last one applied, and the collections that the listeners were called with.\<close>

record 'c applier =
  lastConfigurations :: "(string \<rightharpoonup> 'c) option"
  applied :: "(string \<rightharpoonup> 'c) list"

definition apply_configurations :: "'c watch_config \<Rightarrow> (string \<rightharpoonup> 'c) \<Rightarrow> 'c applier \<Rightarrow> 'c applier" where
  "apply_configurations w newConfigs a =
     (if requiredProvider w \<noteq> [] \<and> newConfigs (requiredProvider w) = None then a
      else if lastConfigurations a = Some newConfigs then a
      else \<lparr>lastConfigurations = Some newConfigs, applied = applied a @ [newConfigs]\<rparr>)"

text \<open>
  The watcher: the buffered channel of messages, both goroutines, and the collection that the second one is working on. The list \<open>sent\<close> records all messages.
\<close>

record 'c watcher =
  allProvidersConfigs :: "'c message list"
  rcv :: "'c receiver"
  working :: "(string \<rightharpoonup> 'c) option"
  app :: "'c applier"
  sent :: "'c message list"

definition NewConfigurationWatcher :: "'c watcher" where
  "NewConfigurationWatcher =
     \<lparr>allProvidersConfigs = [], rcv = \<lparr>newConfigurations = Map.empty, transformedConfigurations = Map.empty, output_set = False\<rparr>,
      working = None, app = \<lparr>lastConfigurations = None, applied = []\<rparr>, sent = []\<rparr>"

inductive watch :: "'c watch_config \<Rightarrow> 'c watcher \<Rightarrow> 'c watcher \<Rightarrow> bool" for w :: "'c watch_config" where
  watch_receive: "allProvidersConfigs s = m # q \<Longrightarrow>
    watch w s (s\<lparr>allProvidersConfigs := q, rcv := receive_message w m (rcv s)\<rparr>)"
| watch_hand_over: "output_set (rcv s) \<Longrightarrow> working s = None \<Longrightarrow>
    watch w s (s\<lparr>rcv := (rcv s)\<lparr>output_set := False\<rparr>, working := Some (transformedConfigurations (rcv s))\<rparr>)"
| watch_apply: "working s = Some newConfigs \<Longrightarrow>
    watch w s (s\<lparr>working := None, app := apply_configurations w newConfigs (app s)\<rparr>)"

inductive_cases watchE: "watch w s s'"

text \<open>A provider sends a message; the channel holds a hundred.\<close>

inductive provide :: "'c watcher \<Rightarrow> 'c watcher \<Rightarrow> bool" where
  provide_message: "length (allProvidersConfigs s) < 100 \<Longrightarrow>
    provide s (s\<lparr>allProvidersConfigs := allProvidersConfigs s @ [m], sent := sent s @ [m]\<rparr>)"

inductive_cases provideE: "provide s s'"

definition watcher_run :: "'c watch_config \<Rightarrow> 'c watcher \<Rightarrow> bool" where
  "watcher_run w s \<longleftrightarrow> (\<lambda>s s'. watch w s s' \<or> provide s s')\<^sup>*\<^sup>* NewConfigurationWatcher s"

lemma watcher_run_start: "watcher_run w NewConfigurationWatcher"
  by (simp add: watcher_run_def)

lemma watcher_run_watch: "watcher_run w s \<Longrightarrow> watch w s s' \<Longrightarrow> watcher_run w s'"
  by (auto simp: watcher_run_def intro: rtranclp.rtrancl_into_rtrancl)

lemma watcher_run_provide: "watcher_run w s \<Longrightarrow> provide s s' \<Longrightarrow> watcher_run w s'"
  by (auto simp: watcher_run_def intro: rtranclp.rtrancl_into_rtrancl)

subsection \<open>Empty configurations\<close>

text \<open>
  \<open>isEmptyConfiguration\<close> distinguishes nil maps from empty ones: a map is optional here, and its contents are of a type that is a parameter. The missing parts
  of the configuration are filled in, in place.
\<close>

record 'm HTTPMaps =
  mapRouters :: "'m option"
  mapServices :: "'m option"
  mapMiddlewares :: "'m option"

record 'm UDPMaps =
  udpMapRouters :: "'m option"
  udpMapServices :: "'m option"

record 'm TLSMaps =
  mapCertificates :: "'m option"
  mapStores :: "'m option"
  mapOptions :: "'m option"

record 'm Provided =
  partHTTP :: "'m HTTPMaps option"
  partTCP :: "'m HTTPMaps option"
  partUDP :: "'m UDPMaps option"
  partTLS :: "'m TLSMaps option"

definition no_maps :: "'m HTTPMaps" where
  "no_maps = \<lparr>mapRouters = None, mapServices = None, mapMiddlewares = None\<rparr>"

definition isEmptyConfiguration :: "'m Provided \<Rightarrow> bool \<times> 'm Provided" where
  "isEmptyConfiguration conf' =
     (let tcp = (case partTCP conf' of None \<Rightarrow> no_maps | Some t \<Rightarrow> t);
          http = (case partHTTP conf' of None \<Rightarrow> no_maps | Some h \<Rightarrow> h);
          udp = (case partUDP conf' of None \<Rightarrow> \<lparr>udpMapRouters = None, udpMapServices = None\<rparr> | Some u \<Rightarrow> u);
          httpEmpty = (mapRouters http = None \<and> mapServices http = None \<and> mapMiddlewares http = None);
          tlsEmpty = (case partTLS conf' of None \<Rightarrow> True
            | Some t \<Rightarrow> mapCertificates t = None \<and> mapStores t = None \<and> mapOptions t = None);
          tcpEmpty = (mapRouters tcp = None \<and> mapServices tcp = None \<and> mapMiddlewares tcp = None);
          udpEmpty = (udpMapRouters udp = None \<and> udpMapServices udp = None)
      in (httpEmpty \<and> tlsEmpty \<and> tcpEmpty \<and> udpEmpty, conf'\<lparr>partHTTP := Some http, partTCP := Some tcp, partUDP := Some udp\<rparr>))"

subsection \<open>Aggregation of providers\<close>

datatype provider_kind = FileProvider | InternalProvider | OtherProvider

record 'p aggregator =
  internalProvider :: "'p option"
  fileProvider :: "'p option"
  providers :: "'p list"
  providersThrottleDuration :: int

text \<open>What the aggregator asks of a provider: its type, whether its initialisation fails, and its own throttling if it implements that interface.\<close>

record 'p provider_interface =
  kind_of :: "'p \<Rightarrow> provider_kind"
  Init :: "'p \<Rightarrow> unit outcome"
  ThrottleDuration :: "'p \<Rightarrow> int option"

definition AddProvider :: "'p provider_interface \<Rightarrow> 'p \<Rightarrow> 'p aggregator \<Rightarrow> 'p aggregator outcome" where
  "AddProvider I p a =
     bind_outcome (Init I p) (\<lambda>_. Ok (case kind_of I p of
        FileProvider \<Rightarrow> a\<lparr>fileProvider := Some p\<rparr>
      | InternalProvider \<Rightarrow> a\<lparr>internalProvider := Some p\<rparr>
      | OtherProvider \<Rightarrow> a\<lparr>providers := providers a @ [p]\<rparr>))"

definition quietAddProvider :: "'p provider_interface \<Rightarrow> 'p \<Rightarrow> 'p aggregator \<Rightarrow> 'p aggregator" where
  "quietAddProvider I p a = (case AddProvider I p a of Ok a' \<Rightarrow> a' | _ \<Rightarrow> a)"

text \<open>The static configuration of the providers; three of them build one provider for each namespace.\<close>

record 'p Providers =
  ProvidersThrottleDuration :: int
  pFile :: "'p option"
  pDocker :: "'p option"
  pSwarm :: "'p option"
  pRest :: "'p option"
  pKubernetesIngress :: "'p option"
  pKubernetesIngressNGINX :: "'p option"
  pKubernetesCRD :: "'p option"
  pKnative :: "'p option"
  pKubernetesGateway :: "'p option"
  pEcs :: "'p option"
  pConsulCatalog :: "'p list option"
  pNomad :: "'p list option"
  pConsul :: "'p list option"
  pEtcd :: "'p option"
  pZooKeeper :: "'p option"
  pRedis :: "'p option"
  pHTTP :: "'p option"

definition single :: "'p option \<Rightarrow> 'p list" where
  "single p = (case p of None \<Rightarrow> [] | Some x \<Rightarrow> [x])"

definition several :: "'p list option \<Rightarrow> 'p list" where
  "several ps = (case ps of None \<Rightarrow> [] | Some xs \<Rightarrow> xs)"

definition NewProviderAggregator :: "'p provider_interface \<Rightarrow> 'p Providers \<Rightarrow> 'p aggregator" where
  "NewProviderAggregator I c =
     fold (quietAddProvider I)
       (single (pFile c) @ single (pDocker c) @ single (pSwarm c) @ single (pRest c) @ single (pKubernetesIngress c) @
        single (pKubernetesIngressNGINX c) @ single (pKubernetesCRD c) @ single (pKnative c) @ single (pKubernetesGateway c) @
        single (pEcs c) @ several (pConsulCatalog c) @ several (pNomad c) @ several (pConsul c) @ single (pEtcd c) @
        single (pZooKeeper c) @ single (pRedis c) @ single (pHTTP c))
       \<lparr>internalProvider = None, fileProvider = None, providers = [], providersThrottleDuration = ProvidersThrottleDuration c\<rparr>"

text \<open>How a provider is run: without throttling, or behind a ring channel from which a goroutine takes a message at most once in the given time.\<close>

datatype throttling = Direct | Throttled int

definition maybeThrottledProvide :: "'p provider_interface \<Rightarrow> 'p \<Rightarrow> int \<Rightarrow> throttling" where
  "maybeThrottledProvide I prd defaultDuration =
     (let providerThrottleDuration = (case ThrottleDuration I prd of Some d \<Rightarrow> d | None \<Rightarrow> defaultDuration)
      in if providerThrottleDuration = 0 then Direct else Throttled providerThrottleDuration)"

text \<open>The calls that \<open>Provide\<close> makes, in order, and whether each is made in a goroutine of its own.\<close>

datatype 'p launch = Launch 'p throttling | LaunchGo 'p throttling

definition Provide :: "'p provider_interface \<Rightarrow> 'p aggregator \<Rightarrow> 'p launch list" where
  "Provide I a =
     (let t = (\<lambda>p. maybeThrottledProvide I p (providersThrottleDuration a))
      in (case fileProvider a of Some p \<Rightarrow> [Launch p (t p)] | None \<Rightarrow> []) @
         map (\<lambda>p. LaunchGo p (t p)) (providers a) @
         (case internalProvider a of Some p \<Rightarrow> [Launch p (t p)] | None \<Rightarrow> []))"

subsection \<open>What is applied\<close>

text \<open>The last non-empty configuration of each provider, after some messages.\<close>

fun latest :: "'c watch_config \<Rightarrow> 'c message list \<Rightarrow> (string \<rightharpoonup> 'c)" where
  "latest w [] = Map.empty"
| "latest w (m # ms) = (case msgConfiguration m of
     Some c \<Rightarrow> if fst (isEmpty w c) then Map.empty else [ProviderName m \<mapsto> snd (isEmpty w c)] | None \<Rightarrow> Map.empty) ++ latest w ms"

definition ready :: "'c watch_config \<Rightarrow> (string \<rightharpoonup> 'c) \<Rightarrow> bool" where
  "ready w cs \<longleftrightarrow> requiredProvider w = [] \<or> cs (requiredProvider w) \<noteq> None"

lemma latest_append: "latest w (ms @ ms') = latest w ms ++ latest w ms'"
  by (induction ms) simp_all

text \<open>
  Throttling keeps the latest configuration: when a ring channel is empty, the last message written to it is the last one delivered, and if that message
  is not skipped as an empty one, the watcher ends up with the same configuration of this provider as without throttling.
\<close>

lemma throttle_keeps_latest:
  assumes "ringBuffer\<^sup>*\<^sup>* newRingChannel r" "buffer r = None" "written r \<noteq> []" "msgConfiguration (last (written r)) = Some c" "\<not> fst (isEmpty w c)"
  shows "subseq (delivered r) (written r)"
    "latest w (delivered r) (ProviderName (last (written r))) = latest w (written r) (ProviderName (last (written r)))"
proof -
  have *: "subseq (delivered r) (written r)" "delivered r \<noteq> []" "last (delivered r) = last (written r)"
    using ring_reachable [OF assms(1)] assms(2,3) by (auto simp: ring_ok_def pending_messages_def)
  then show "subseq (delivered r) (written r)" by blast
  obtain xs ys where xy: "delivered r = xs @ [last (written r)]" "written r = ys @ [last (written r)]"
    using *(2,3) assms(3) by (metis append_butlast_last_id)
  have "latest w (zs @ [last (written r)]) (ProviderName (last (written r))) = Some (snd (isEmpty w c))" for zs
    using assms(4,5) by (simp add: latest_append map_add_def)
  then show "latest w (delivered r) (ProviderName (last (written r))) = latest w (written r) (ProviderName (last (written r)))"
    using xy by metis
qed

definition settled :: "'c watch_config \<Rightarrow> 'c receiver \<Rightarrow> (string \<rightharpoonup> 'c) option \<Rightarrow> 'c applier \<Rightarrow> bool" where
  "settled w r c a \<longleftrightarrow>
     (if newConfigurations r = Map.empty then \<not> output_set r \<and> c = None \<and> a = \<lparr>lastConfigurations = None, applied = []\<rparr>
      else transformedConfigurations r = transformed w (newConfigurations r) \<and>
        (output_set r \<or> c = Some (transformedConfigurations r) \<or>
         c = None \<and> (ready w (transformedConfigurations r) \<longrightarrow> lastConfigurations a = Some (transformedConfigurations r))))"

definition watcher_inv :: "'c watch_config \<Rightarrow> 'c watcher \<Rightarrow> bool" where
  "watcher_inv w s \<longleftrightarrow>
     (\<exists>ms. sent s = ms @ allProvidersConfigs s \<and> newConfigurations (rcv s) = latest w ms) \<and> settled w (rcv s) (working s) (app s)"

lemma receive_message_latest:
  "newConfigurations (receive_message w m r) = newConfigurations r ++ latest w [m]"
  by (auto simp: receive_message_def Let_def fun_eq_iff map_add_def split: option.splits prod.splits)

lemma receive_message_cases:
  obtains (same) "receive_message w m r = r"
  | (new) new where "new \<noteq> Map.empty"
      "receive_message w m r = r\<lparr>newConfigurations := new, transformedConfigurations := transformed w new, output_set := True\<rparr>"
proof (cases "receive_message w m r = r")
  case False
  then obtain c where "receive_message w m r = (let new = (newConfigurations r)(ProviderName m \<mapsto> c)
      in r\<lparr>newConfigurations := new, transformedConfigurations := transformed w new, output_set := True\<rparr>)"
    by (auto simp: receive_message_def split: option.splits prod.splits if_splits)
  then show ?thesis by (intro new [of "(newConfigurations r)(ProviderName m \<mapsto> c)"]) (simp_all add: Let_def)
qed (rule same)

lemma watcher_inv_receive:
  assumes "watcher_inv w s" "allProvidersConfigs s = m # q"
  shows "watcher_inv w (s\<lparr>allProvidersConfigs := q, rcv := receive_message w m (rcv s)\<rparr>)"
proof -
  obtain ms where ms: "sent s = ms @ m # q" "newConfigurations (rcv s) = latest w ms"
    using assms unfolding watcher_inv_def by auto
  have "newConfigurations (receive_message w m (rcv s)) = latest w (ms @ [m])"
    using ms(2) by (simp only: receive_message_latest latest_append)
  then have 1: "\<exists>ms'. sent s = ms' @ q \<and> newConfigurations (receive_message w m (rcv s)) = latest w ms'"
    using ms(1) by (intro exI [of _ "ms @ [m]"]) simp
  show ?thesis
  proof (cases rule: receive_message_cases [of w m "rcv s"])
    case same
    then show ?thesis using assms(1) 1 by (simp add: watcher_inv_def)
  next
    case (new new)
    then show ?thesis using 1 by (simp add: watcher_inv_def settled_def)
  qed
qed

lemma apply_configurations_last:
  "ready w c \<Longrightarrow> lastConfigurations (apply_configurations w c a) = Some c"
  by (auto simp: apply_configurations_def ready_def)

lemma watcher_inv_watch: "watch w s s' \<Longrightarrow> watcher_inv w s \<Longrightarrow> watcher_inv w s'"
proof (erule watchE)
  fix m q assume "watcher_inv w s" "s' = s\<lparr>allProvidersConfigs := q, rcv := receive_message w m (rcv s)\<rparr>" "allProvidersConfigs s = m # q"
  then show ?thesis using watcher_inv_receive by simp
next
  assume "watcher_inv w s" "s' = s\<lparr>rcv := (rcv s)\<lparr>output_set := False\<rparr>, working := Some (transformedConfigurations (rcv s))\<rparr>"
    "output_set (rcv s)" "working s = None"
  then show ?thesis by (auto simp: watcher_inv_def settled_def split: if_splits)
next
  fix c assume s: "watcher_inv w s" "s' = s\<lparr>working := None, app := apply_configurations w c (app s)\<rparr>" "working s = Some c"
  then have "newConfigurations (rcv s) \<noteq> Map.empty" by (auto simp: watcher_inv_def settled_def)
  then have "settled w (rcv s) None (apply_configurations w c (app s))"
    using s apply_configurations_last [of w c "app s"] by (auto simp: watcher_inv_def settled_def)
  then show ?thesis using s by (simp add: watcher_inv_def)
qed

lemma watcher_inv_provide: "provide s s' \<Longrightarrow> watcher_inv w s \<Longrightarrow> watcher_inv w s'"
  by (erule provideE) (auto simp: watcher_inv_def)

lemma watcher_inv_run: "watcher_run w s \<Longrightarrow> watcher_inv w s"
  unfolding watcher_run_def
proof (induction rule: rtranclp_induct)
  case base
  then show ?case by (simp add: watcher_inv_def settled_def NewConfigurationWatcher_def)
next
  case (step s s')
  then show ?case using watcher_inv_watch watcher_inv_provide by blast
qed

text \<open>The work that is left when no more messages arrive.\<close>

definition work_left :: "'c watcher \<Rightarrow> nat" where
  "work_left s = 3 * length (allProvidersConfigs s) + (if output_set (rcv s) then 2 else 0) + (if working s = None then 0 else 1)"

lemma watch_decreases: "watch w s s' \<Longrightarrow> work_left s' < work_left s"
proof (erule watchE)
  fix m q assume "s' = s\<lparr>allProvidersConfigs := q, rcv := receive_message w m (rcv s)\<rparr>" "allProvidersConfigs s = m # q"
  then show ?thesis by (simp add: work_left_def)
qed (simp_all add: work_left_def)

lemma watch_stuck:
  assumes "\<nexists>s'. watch w s s'"
  shows "allProvidersConfigs s = []" "\<not> output_set (rcv s)" "working s = None"
proof -
  show 1: "working s = None" using assms watch_apply by (metis option.exhaust)
  show "allProvidersConfigs s = []" using assms watch_receive by (metis list.exhaust)
  show "\<not> output_set (rcv s)" using assms watch_hand_over [OF _ 1] by blast
qed

lemma watch_sent: "watch w s s' \<Longrightarrow> sent s' = sent s"
  by (erule watchE) auto

text \<open>
  C8. The watcher converges. In every run, whatever the order in which messages arrive and goroutines take turns: the goroutines come to rest after at most three steps
  for each message in the channel and three more, and at rest, the configurations that were applied last are the transformed collection of the latest
  non-empty configuration of every provider. The only exceptions are that no provider has delivered anything, or that the required one is missing.
\<close>

theorem watcher_converges:
  assumes "watcher_run w s"
  shows "(\<forall>s' n. (watch w ^^ n) s s' \<longrightarrow> n \<le> 3 * length (allProvidersConfigs s) + 3) \<and>
    (\<forall>s'. (watch w)\<^sup>*\<^sup>* s s' \<and> (\<nexists>s''. watch w s' s'') \<and> latest w (sent s) \<noteq> Map.empty \<and> ready w (transformed w (latest w (sent s))) \<longrightarrow>
      lastConfigurations (app s') = Some (transformed w (latest w (sent s))))"
proof (intro conjI allI impI)
  fix s' n assume "(watch w ^^ n) s s'"
  then have "n + work_left s' \<le> work_left s"
  proof (induction n arbitrary: s')
    case (Suc n)
    then obtain t where "(watch w ^^ n) s t" "watch w t s'" by auto
    then show ?case using Suc.IH [of t] watch_decreases [of w t s'] by linarith
  qed simp
  then show "n \<le> 3 * length (allProvidersConfigs s) + 3" by (auto simp: work_left_def split: if_splits)
next
  fix s' assume *: "(watch w)\<^sup>*\<^sup>* s s' \<and> (\<nexists>s''. watch w s' s'') \<and> latest w (sent s) \<noteq> Map.empty \<and> ready w (transformed w (latest w (sent s)))"
  then have "(watch w)\<^sup>*\<^sup>* s s'" by blast
  then have "watcher_inv w s' \<and> sent s' = sent s"
  proof (induction rule: rtranclp_induct)
    case base
    then show ?case using watcher_inv_run [OF assms] by simp
  next
    case (step y z)
    then show ?case using watcher_inv_watch watch_sent by metis
  qed
  then show "lastConfigurations (app s') = Some (transformed w (latest w (sent s)))"
    using * watch_stuck [of w s'] by (auto simp: watcher_inv_def settled_def)
qed

subsection \<open>In which order\<close>

definition collection :: "'c watch_config \<Rightarrow> 'c watcher \<Rightarrow> nat \<Rightarrow> (string \<rightharpoonup> 'c)" where
  "collection w s n = transformed w (latest w (take n (sent s)))"

definition history :: "'c watch_config \<Rightarrow> 'c watcher \<Rightarrow> nat list \<Rightarrow> nat \<Rightarrow> bool" where
  "history w s ns k \<longleftrightarrow> sorted (ns @ [k]) \<and> k + length (allProvidersConfigs s) \<le> length (sent s) \<and>
     applied (app s) = map (collection w s) ns \<and> (\<forall>c. working s = Some c \<longrightarrow> c = collection w s k) \<and>
     list_all (ready w) (applied (app s)) \<and> distinct_adj (applied (app s)) \<and>
     lastConfigurations (app s) = (if applied (app s) = [] then None else Some (last (applied (app s))))"

lemma distinct_adj_snoc: "distinct_adj xs \<Longrightarrow> xs = [] \<or> last xs \<noteq> x \<Longrightarrow> distinct_adj (xs @ [x])"
  by (auto simp: distinct_adj_append_iff)

lemma apply_configurations_history:
  assumes "list_all (ready w) (applied a)" "distinct_adj (applied a)"
    and "lastConfigurations a = (if applied a = [] then None else Some (last (applied a)))"
    and "a' = apply_configurations w c a"
  shows "list_all (ready w) (applied a') \<and> distinct_adj (applied a') \<and>
    lastConfigurations a' = (if applied a' = [] then None else Some (last (applied a'))) \<and> applied a' \<in> {applied a, applied a @ [c]}"
  using assms by (auto simp: apply_configurations_def ready_def intro: distinct_adj_snoc)

lemma history_watch:
  assumes "watch w s s'" "watcher_inv w s" "history w s ns k"
  shows "\<exists>ns' k'. history w s' ns' k'"
  using assms(1)
proof (rule watchE)
  fix m q assume "s' = s\<lparr>allProvidersConfigs := q, rcv := receive_message w m (rcv s)\<rparr>" "allProvidersConfigs s = m # q"
  then have "history w s' ns k" using assms(3) by (auto simp: history_def collection_def [abs_def])
  then show ?thesis by blast
next
  assume s': "s' = s\<lparr>rcv := (rcv s)\<lparr>output_set := False\<rparr>, working := Some (transformedConfigurations (rcv s))\<rparr>" "output_set (rcv s)"
  obtain ms where ms: "sent s = ms @ allProvidersConfigs s" "newConfigurations (rcv s) = latest w ms"
    using assms(2) by (auto simp: watcher_inv_def)
  then have "transformedConfigurations (rcv s) = collection w s' (length ms)"
    using assms(2) s' by (auto simp: watcher_inv_def settled_def collection_def split: if_splits)
  moreover have "k \<le> length ms" using assms(3) ms(1) by (simp add: history_def)
  then have "sorted (ns @ [length ms])" using assms(3) by (auto simp: history_def sorted_append)
  ultimately have "history w s' ns (length ms)"
    using assms(3) s' ms(1) by (auto simp: history_def collection_def [abs_def])
  then show ?thesis by blast
next
  fix c assume s': "s' = s\<lparr>working := None, app := apply_configurations w c (app s)\<rparr>" "working s = Some c"
  then have c: "c = collection w s k" using assms(3) by (simp add: history_def)
  note * = apply_configurations_history [of w "app s" "app s'" c]
  have "sorted (ns @ [k] @ [k])" using assms(3) by (auto simp: history_def sorted_append)
  then have "history w s' ns k \<or> history w s' (ns @ [k]) k"
    using assms(3) s'(1) * c by (auto simp: history_def collection_def [abs_def])
  then show ?thesis by blast
qed

lemma history_provide:
  assumes "provide s s'" "history w s ns k"
  shows "history w s' ns k"
  using assms(1)
proof (rule provideE)
  fix m assume s': "s' = s\<lparr>allProvidersConfigs := allProvidersConfigs s @ [m], sent := sent s @ [m]\<rparr>"
  have "n \<le> length (sent s)" if "n \<in> set (ns @ [k])" for n
    using that assms(2) by (auto simp: history_def sorted_append)
  then have "collection w s' n = collection w s n" if "n \<in> set (ns @ [k])" for n
    using that s' by (simp add: collection_def)
  then have "map (collection w s') ns = map (collection w s) ns" "collection w s' k = collection w s k" by simp_all
  then show ?thesis using assms(2) s' by (auto simp: history_def)
qed

text \<open>
  C9. What the listeners are called with never goes back in time. In every run, the collections applied are the transformed collections of the latest configurations after
  ever longer prefixes of the messages sent; each contains the provider that is waited for, and no two in a row are equal.
\<close>

theorem watcher_in_order:
  assumes "watcher_run w s"
  shows "\<exists>ns. sorted ns \<and> list_all (\<lambda>n. n \<le> length (sent s)) ns \<and>
    applied (app s) = map (\<lambda>n. transformed w (latest w (take n (sent s)))) ns \<and>
    list_all (ready w) (applied (app s)) \<and> distinct_adj (applied (app s))"
proof -
  have "\<exists>ns k. history w s ns k"
    using assms unfolding watcher_run_def
  proof (induction rule: rtranclp_induct)
    case base
    have "history w NewConfigurationWatcher [] 0" by (simp add: history_def NewConfigurationWatcher_def)
    then show ?case by blast
  next
    case (step y z)
    then have "watcher_inv w y" using watcher_inv_run by (simp add: watcher_run_def)
    then show ?case using step history_watch history_provide by blast
  qed
  then obtain ns k where "history w s ns k" by blast
  then show ?thesis
    by (intro exI [of _ ns]) (auto simp: history_def collection_def [abs_def] sorted_append list_all_iff)
qed

text \<open>A run: the first provider is not the required one; its configuration is handed over and skipped, until the other one has delivered.\<close>

definition demo_watch :: "nat Provided watch_config" where
  "demo_watch = \<lparr>isEmpty = isEmptyConfiguration, configurationTransformers = [], requiredProvider = ''internal''\<rparr>"

definition demo_provided :: "nat \<Rightarrow> nat Provided" where
  "demo_provided n = \<lparr>partHTTP = Some (no_maps\<lparr>mapRouters := Some n\<rparr>), partTCP = None, partUDP = None, partTLS = None\<rparr>"

definition demo_message :: "string \<Rightarrow> nat \<Rightarrow> nat Provided message" where
  "demo_message p n = \<lparr>ProviderName = p, msgConfiguration = Some (demo_provided n)\<rparr>"

definition demo_completed :: "nat \<Rightarrow> nat Provided" where
  "demo_completed n = (demo_provided n)\<lparr>partTCP := Some no_maps, partUDP := Some \<lparr>udpMapRouters = None, udpMapServices = None\<rparr>\<rparr>"

definition demo_latest :: "string \<rightharpoonup> nat Provided" where
  "demo_latest = [''file'' \<mapsto> demo_completed 1, ''internal'' \<mapsto> demo_completed 2]"

definition demo_messages :: "nat Provided message list" where
  "demo_messages = [demo_message ''file'' 1, demo_message ''internal'' 2]"

definition demo_final :: "nat Provided watcher" where
  "demo_final = \<lparr>allProvidersConfigs = [], rcv = \<lparr>newConfigurations = demo_latest, transformedConfigurations = demo_latest, output_set = False\<rparr>,
     working = None, app = \<lparr>lastConfigurations = Some demo_latest, applied = [demo_latest]\<rparr>, sent = demo_messages\<rparr>"

lemma demo_not_empty: "isEmptyConfiguration (demo_provided n) = (False, demo_completed n)"
  by (simp add: isEmptyConfiguration_def demo_provided_def demo_completed_def Let_def)

lemma demo_latest_eq: "latest demo_watch demo_messages = demo_latest" "transformed demo_watch c = c" "ready demo_watch demo_latest" "demo_latest \<noteq> Map.empty"
  by (auto simp: demo_watch_def demo_messages_def demo_message_def demo_latest_def demo_not_empty transformed_def ready_def fun_eq_iff map_add_def)

lemma demo_run: "watcher_run demo_watch demo_final"
proof -
  let ?N = "NewConfigurationWatcher :: nat Provided watcher"
  let ?m1 = "demo_message ''file'' 1" and ?m2 = "demo_message ''internal'' 2"
  let ?s1 = "?N\<lparr>allProvidersConfigs := [?m1], sent := [?m1]\<rparr>"
  let ?s2 = "?N\<lparr>allProvidersConfigs := [?m1, ?m2], sent := [?m1, ?m2]\<rparr>"
  let ?r1 = "receive_message demo_watch ?m1 (rcv ?N)" and ?r2 = "receive_message demo_watch ?m2 (receive_message demo_watch ?m1 (rcv ?N))"
  let ?s3 = "?s2\<lparr>allProvidersConfigs := [?m2], rcv := ?r1\<rparr>" and ?s4 = "?s2\<lparr>allProvidersConfigs := [], rcv := ?r2\<rparr>"
  let ?s5 = "?s4\<lparr>rcv := ?r2\<lparr>output_set := False\<rparr>, working := Some (transformedConfigurations ?r2)\<rparr>"
  have r2: "?r2 = \<lparr>newConfigurations = demo_latest, transformedConfigurations = demo_latest, output_set = True\<rparr>"
    by (simp add: receive_message_def demo_message_def demo_watch_def demo_not_empty NewConfigurationWatcher_def Let_def transformed_def demo_latest_def)
  have 1: "provide ?N ?s1" using provide_message [of ?N ?m1] by (simp add: NewConfigurationWatcher_def)
  have 2: "provide ?s1 ?s2" using provide_message [of ?s1 ?m2] by (simp add: NewConfigurationWatcher_def)
  have 3: "watch demo_watch ?s2 ?s3" using watch_receive [of ?s2 ?m1 "[?m2]" demo_watch] by (simp add: NewConfigurationWatcher_def)
  have 4: "watch demo_watch ?s3 ?s4" using watch_receive [of ?s3 ?m2 "[]" demo_watch] by (simp add: NewConfigurationWatcher_def)
  have 5: "watch demo_watch ?s4 ?s5" using watch_hand_over [of ?s4 demo_watch] r2 by (simp add: NewConfigurationWatcher_def)
  have "demo_final = ?s5\<lparr>working := None, app := apply_configurations demo_watch demo_latest (app ?s5)\<rparr>"
    using demo_latest_eq(3) unfolding r2
    by (simp add: demo_final_def NewConfigurationWatcher_def apply_configurations_def ready_def demo_messages_def)
  moreover have "watch demo_watch ?s5 (?s5\<lparr>working := None, app := apply_configurations demo_watch demo_latest (app ?s5)\<rparr>)"
    using watch_apply [of ?s5 demo_latest demo_watch] unfolding r2 by simp
  ultimately have "watch demo_watch ?s5 demo_final" by simp
  then show ?thesis
    by (intro watcher_run_watch [OF watcher_run_watch [OF watcher_run_watch [OF watcher_run_watch
      [OF watcher_run_provide [OF watcher_run_provide [OF watcher_run_start 1] 2] 3] 4] 5]])
qed

lemma demo_at_rest: "\<nexists>s'. watch demo_watch demo_final s'"
  by (auto elim!: watchE simp: demo_final_def)

theorem watcher_converges_witness:
  "watcher_run demo_watch demo_final \<and> lastConfigurations (app demo_final) = Some (transformed demo_watch (latest demo_watch (sent demo_final)))"
proof -
  have "latest demo_watch (sent demo_final) \<noteq> Map.empty" "ready demo_watch (transformed demo_watch (latest demo_watch (sent demo_final)))"
    using demo_latest_eq by (simp_all add: demo_final_def)
  then have "lastConfigurations (app demo_final) = Some (transformed demo_watch (latest demo_watch (sent demo_final)))"
    using watcher_converges [OF demo_run] demo_at_rest by blast
  then show ?thesis using demo_run by blast
qed

theorem watcher_in_order_witness:
  "\<exists>ns. applied (app demo_final) = map (\<lambda>n. latest demo_watch (take n demo_messages)) ns \<and> applied (app demo_final) \<noteq> []"
  using watcher_in_order [OF demo_run] by (auto simp: demo_latest_eq(2)) (auto simp: demo_final_def)

end
