(* ===== verification/ProviderMerge.thy ===== *)
theory ProviderMerge
  imports Aggregator
begin

section \<open>Merging of the resources of one provider (\<open>pkg/provider/merge.go\<close>)\<close>

text \<open>
  Providers that find configuration in many places (containers, tasks, files) merge it by name: a resource that is defined several times is merged where its type
  can be merged, must be the same otherwise, and is removed if there is a conflict. The code goes over the maps of the configuration by reflection; the model
  lists them. For each map the state is the map, the keys marked for deletion and the origins of each key (the code keeps the last two for all maps together, by
  the address of the map). The values of maps are pointers that are not nil, given by what they point to; changing the value in place is an update of
  the map. Warnings are left out, the reports of conflicts are part of the result.

  Services are merged by the methods of \<open>pkg/config/dynamic\<close>. The HTTP, TCP and UDP variants repeat the same code on servers that are told apart by their URL or
  their address, which is modelled once; the settings besides the servers are of a type that is a parameter.
\<close>

subsection \<open>Services\<close>

record ('s, 'x) ServersLoadBalancer =
  lbServers :: "'s list"
  lbSettings :: 'x

definition mergeable :: "('s, 'x) ServersLoadBalancer \<Rightarrow> ('s, 'x) ServersLoadBalancer \<Rightarrow> bool" where
  "mergeable l loadBalancer \<longleftrightarrow> l\<lparr>lbServers := []\<rparr> = loadBalancer\<lparr>lbServers := []\<rparr>"

text \<open>\<^const>\<open>None\<close> is the answer false, which leaves the receiver as it is.\<close>

definition ServersLoadBalancer_Merge ::
  "('s \<Rightarrow> string) \<Rightarrow> ('s, 'x) ServersLoadBalancer \<Rightarrow> ('s, 'x) ServersLoadBalancer \<Rightarrow> ('s, 'x) ServersLoadBalancer option" where
  "ServersLoadBalancer_Merge key l other =
     (if \<not> mergeable l other then None
      else let uniq = set (map key (lbServers l))
        in Some (l\<lparr>lbServers := lbServers l @ filter (\<lambda>server. key server \<notin> uniq) (lbServers other)\<rparr>))"

record ('s, 'x, 'y) Service =
  svcMiddlewares :: "string list"
  svcLoadBalancer :: "('s, 'x) ServersLoadBalancer option"
  svcOther :: 'y

definition Service_Merge :: "('s \<Rightarrow> string) \<Rightarrow> ('s, 'x, 'y) Service \<Rightarrow> ('s, 'x, 'y) Service \<Rightarrow> ('s, 'x, 'y) Service option" where
  "Service_Merge key s other =
     (case (svcLoadBalancer s, svcLoadBalancer other) of
        (Some l, Some l') \<Rightarrow> map_option (\<lambda>m. s\<lparr>svcLoadBalancer := Some m\<rparr>) (ServersLoadBalancer_Merge key l l')
      | _ \<Rightarrow> if s = other then Some s else None)"

record ('s, 'x, 'y) TransportService =
  trLoadBalancer :: "('s, 'x) ServersLoadBalancer option"
  trWeighted :: 'y

definition TransportService_Merge ::
  "('s \<Rightarrow> string) \<Rightarrow> ('s, 'x, 'y) TransportService \<Rightarrow> ('s, 'x, 'y) TransportService \<Rightarrow> ('s, 'x, 'y) TransportService option" where
  "TransportService_Merge key s other =
     (case (trLoadBalancer s, trLoadBalancer other) of
        (Some l, Some l') \<Rightarrow> map_option (\<lambda>m. s\<lparr>trLoadBalancer := Some m\<rparr>) (ServersLoadBalancer_Merge key l l')
      | _ \<Rightarrow> if s = other then Some s else None)"

subsection \<open>Resource maps\<close>

datatype ResourceStrategy = ResourceStrategyMerge | ResourceStrategySkipDuplicates

record 'v resource =
  resourceMap :: "(string, 'v) gomap"
  toDelete :: "string list"
  origins :: "string \<Rightarrow> string list"

definition no_resource :: "'v resource" where
  "no_resource = \<lparr>resourceMap = [], toDelete = [], origins = (\<lambda>_. [])\<rparr>"

definition recordOrigin :: "string \<Rightarrow> string \<Rightarrow> 'v resource \<Rightarrow> 'v resource" where
  "recordOrigin resourceKey origin t = t\<lparr>origins := (origins t)(resourceKey := origins t resourceKey @ [origin])\<rparr>"

definition markForDeletion :: "string \<Rightarrow> 'v resource \<Rightarrow> 'v resource" where
  "markForDeletion resourceKey t = t\<lparr>toDelete := List.insert resourceKey (toDelete t)\<rparr>"

text \<open>\<open>tryMerge\<close> by the method \<open>Merge\<close> of the type, if it has one; otherwise the values must be the same.\<close>

definition tryMerge :: "('v \<Rightarrow> 'v \<Rightarrow> 'v option) option \<Rightarrow> 'v \<Rightarrow> 'v \<Rightarrow> 'v option" where
  "tryMerge mergeMethod dst src =
     (case mergeMethod of
        Some f \<Rightarrow> f dst src
      | None \<Rightarrow> if dst = src then Some dst else None)"

definition merge_resource ::
  "('v \<Rightarrow> 'v \<Rightarrow> 'v option) option \<Rightarrow> ResourceStrategy \<Rightarrow> string \<Rightarrow> string \<times> 'v \<Rightarrow> 'v resource \<Rightarrow> 'v resource" where
  "merge_resource mm strategy origin = (\<lambda>(resourceKey, srcValue) t.
     (let t' = recordOrigin resourceKey origin t in
      case map_of (resourceMap t') resourceKey of
        None \<Rightarrow> t'\<lparr>resourceMap := set_key resourceKey srcValue (resourceMap t')\<rparr>
      | Some dstValue \<Rightarrow>
          (case strategy of
             ResourceStrategyMerge \<Rightarrow>
               (case tryMerge mm dstValue srcValue of
                  Some v \<Rightarrow> t'\<lparr>resourceMap := set_key resourceKey v (resourceMap t')\<rparr>
                | None \<Rightarrow> markForDeletion resourceKey t')
           | ResourceStrategySkipDuplicates \<Rightarrow> t')))"

definition mergeResourceMap ::
  "('v \<Rightarrow> 'v \<Rightarrow> 'v option) option \<Rightarrow> ResourceStrategy \<Rightarrow> string \<Rightarrow> (string, 'v) gomap \<Rightarrow> 'v resource \<Rightarrow> 'v resource" where
  "mergeResourceMap mm strategy origin src t = fold (merge_resource mm strategy origin) src t"

definition deleteConflicts :: "'v resource \<Rightarrow> (string, 'v) gomap" where
  "deleteConflicts t = fold delete_key (toDelete t) (resourceMap t)"

text \<open>The reports of conflicts: each key deleted, with the configurations that define it.\<close>

definition conflict_reports :: "'v resource \<Rightarrow> (string \<times> string list) list" where
  "conflict_reports t = map (\<lambda>k. (k, origins t k)) (toDelete t)"

subsection \<open>Certificates\<close>

definition mergeStores :: "string list \<Rightarrow> string list \<Rightarrow> string list" where
  "mergeStores existing other = fold (\<lambda>s ex. if s \<in> set ex then ex else ex @ [s]) other existing"

fun merge_certificate :: "ResourceStrategy \<Rightarrow> 'r CertAndStores \<Rightarrow> 'r CertAndStores list \<Rightarrow> 'r CertAndStores list" where
  "merge_certificate strategy certificate [] = [certificate]"
| "merge_certificate strategy certificate (existing # rest) =
     (if Certificate existing = Certificate certificate then
        (case strategy of
           ResourceStrategyMerge \<Rightarrow> existing\<lparr>Stores := mergeStores (Stores existing) (Stores certificate)\<rparr>
         | ResourceStrategySkipDuplicates \<Rightarrow> existing) # rest
      else existing # merge_certificate strategy certificate rest)"

definition mergeCertificates :: "ResourceStrategy \<Rightarrow> 'r CertAndStores list \<Rightarrow> 'r CertAndStores list \<Rightarrow> 'r CertAndStores list" where
  "mergeCertificates strategy certificates newCertificates = fold (merge_certificate strategy) newCertificates certificates"

subsection \<open>Configurations\<close>

text \<open>The state of the merge for all maps of a configuration.\<close>

record 'r merged =
  rRouters :: "Router resource"
  rServices :: "'r resource"
  rMiddlewares :: "'r resource"
  rModels :: "Model resource"
  rServersTransports :: "'r resource"
  rTCPRouters :: "TCPRouter resource"
  rTCPServices :: "'r resource"
  rTCPMiddlewares :: "'r resource"
  rTCPModels :: "string resource"
  rTCPServersTransports :: "'r resource"
  rUDPRouters :: "'r resource"
  rUDPServices :: "'r resource"
  rOptions :: "'r resource"
  rStores :: "'r resource"
  rCertificates :: "'r CertAndStores list"

definition no_merged :: "'r merged" where
  "no_merged = \<lparr>rRouters = no_resource, rServices = no_resource, rMiddlewares = no_resource, rModels = no_resource,
     rServersTransports = no_resource, rTCPRouters = no_resource, rTCPServices = no_resource, rTCPMiddlewares = no_resource,
     rTCPModels = no_resource, rTCPServersTransports = no_resource, rUDPRouters = no_resource, rUDPServices = no_resource,
     rOptions = no_resource, rStores = no_resource, rCertificates = []\<rparr>"

text \<open>The methods \<open>Merge\<close> of the three kinds of services.\<close>

record 'r merge_methods =
  httpServiceMerge :: "'r \<Rightarrow> 'r \<Rightarrow> 'r option"
  tcpServiceMerge :: "'r \<Rightarrow> 'r \<Rightarrow> 'r option"
  udpServiceMerge :: "'r \<Rightarrow> 'r \<Rightarrow> 'r option"

definition merge_http_maps :: "'r merge_methods \<Rightarrow> ResourceStrategy \<Rightarrow> string \<Rightarrow> 'r HTTPConfiguration \<Rightarrow> 'r merged \<Rightarrow> 'r merged" where
  "merge_http_maps mm st origin h t = t\<lparr>
     rRouters := mergeResourceMap None st origin (Routers h) (rRouters t),
     rServices := mergeResourceMap (Some (httpServiceMerge mm)) st origin (Services h) (rServices t),
     rMiddlewares := mergeResourceMap None st origin (MiddlewareMap h) (rMiddlewares t),
     rModels := mergeResourceMap None st origin (Models h) (rModels t),
     rServersTransports := mergeResourceMap None st origin (ServersTransports h) (rServersTransports t)\<rparr>"

definition merge_tcp_maps :: "'r merge_methods \<Rightarrow> ResourceStrategy \<Rightarrow> string \<Rightarrow> 'r TCPConfiguration \<Rightarrow> 'r merged \<Rightarrow> 'r merged" where
  "merge_tcp_maps mm st origin h t = t\<lparr>
     rTCPRouters := mergeResourceMap None st origin (TCPRouters h) (rTCPRouters t),
     rTCPServices := mergeResourceMap (Some (tcpServiceMerge mm)) st origin (TCPServices h) (rTCPServices t),
     rTCPMiddlewares := mergeResourceMap None st origin (TCPMiddlewares h) (rTCPMiddlewares t),
     rTCPModels := mergeResourceMap None st origin (TCPModels h) (rTCPModels t),
     rTCPServersTransports := mergeResourceMap None st origin (TCPServersTransports h) (rTCPServersTransports t)\<rparr>"

definition merge_udp_maps :: "'r merge_methods \<Rightarrow> ResourceStrategy \<Rightarrow> string \<Rightarrow> 'r UDPConfiguration \<Rightarrow> 'r merged \<Rightarrow> 'r merged" where
  "merge_udp_maps mm st origin h t = t\<lparr>
     rUDPRouters := mergeResourceMap None st origin (UDPRouters h) (rUDPRouters t),
     rUDPServices := mergeResourceMap (Some (udpServiceMerge mm)) st origin (UDPServices h) (rUDPServices t)\<rparr>"

definition merge_tls_maps :: "ResourceStrategy \<Rightarrow> string \<Rightarrow> 'r TLSConfiguration \<Rightarrow> 'r merged \<Rightarrow> 'r merged" where
  "merge_tls_maps st origin h t = t\<lparr>
     rOptions := mergeResourceMap None st origin (TLSOptions h) (rOptions t),
     rStores := mergeResourceMap None st origin (TLSStores h) (rStores t),
     rCertificates := mergeCertificates st (rCertificates t) (Certificates h)\<rparr>"

definition merge_named :: "'r merge_methods \<Rightarrow> ResourceStrategy \<Rightarrow> string \<times> 'r Configuration \<Rightarrow> 'r merged \<Rightarrow> 'r merged" where
  "merge_named mm st = (\<lambda>(origin, c) t0.
     (let t1 = (case HTTP c of None \<Rightarrow> t0 | Some h \<Rightarrow> merge_http_maps mm st origin h t0);
          t2 = (case TCP c of None \<Rightarrow> t1 | Some h \<Rightarrow> merge_tcp_maps mm st origin h t1);
          t3 = (case UDP c of None \<Rightarrow> t2 | Some h \<Rightarrow> merge_udp_maps mm st origin h t2)
      in case TLSConf c of None \<Rightarrow> t3 | Some h \<Rightarrow> merge_tls_maps st origin h t3))"

definition Merge :: "'r merge_methods \<Rightarrow> (string \<times> 'r Configuration) list \<Rightarrow> ResourceStrategy \<Rightarrow> 'r Configuration" where
  "Merge mm configurations strategy =
     (let t = fold (merge_named mm strategy) configurations no_merged
      in \<lparr>HTTP = Some \<lparr>Routers = deleteConflicts (rRouters t), Services = deleteConflicts (rServices t),
            MiddlewareMap = deleteConflicts (rMiddlewares t), Models = deleteConflicts (rModels t),
            ServersTransports = deleteConflicts (rServersTransports t)\<rparr>,
          TCP = Some \<lparr>TCPRouters = deleteConflicts (rTCPRouters t), TCPServices = deleteConflicts (rTCPServices t),
            TCPMiddlewares = deleteConflicts (rTCPMiddlewares t), TCPModels = deleteConflicts (rTCPModels t),
            TCPServersTransports = deleteConflicts (rTCPServersTransports t)\<rparr>,
          UDP = Some \<lparr>UDPRouters = deleteConflicts (rUDPRouters t), UDPServices = deleteConflicts (rUDPServices t)\<rparr>,
          TLSConf = Some \<lparr>Certificates = rCertificates t, TLSOptions = deleteConflicts (rOptions t), TLSStores = deleteConflicts (rStores t)\<rparr>\<rparr>)"

text \<open>\<open>NameSortedConfigurations\<close>: strings are compared byte by byte.\<close>

fun string_less :: "string \<Rightarrow> string \<Rightarrow> bool" where
  "string_less [] ys = (ys \<noteq> [])"
| "string_less (x # xs) [] = False"
| "string_less (x # xs) (y # ys) = (code_of x < code_of y \<or> x = y \<and> string_less xs ys)"

definition NameSortedConfigurations :: "(string, 'c) gomap \<Rightarrow> (string \<times> 'c) list" where
  "NameSortedConfigurations configurations =
     map (\<lambda>origin. (origin, the (map_of configurations origin))) (insertionSort string_less (map fst configurations))"

subsection \<open>What is merged\<close>

text \<open>The values that a key has in a map, and in a list of configurations.\<close>

definition values_of :: "(string, 'v) gomap \<Rightarrow> string \<Rightarrow> 'v list" where
  "values_of m k = map snd (filter (\<lambda>(k', _). k' = k) m)"

definition defined :: "('c \<Rightarrow> (string, 'v) gomap) \<Rightarrow> (string \<times> 'c) list \<Rightarrow> string \<Rightarrow> 'v list" where
  "defined part cs k = concat (map (\<lambda>(n, c). values_of (part c) k) cs)"

fun merge_values :: "('v \<Rightarrow> 'v \<Rightarrow> 'v option) \<Rightarrow> 'v \<Rightarrow> 'v list \<Rightarrow> 'v option" where
  "merge_values f v [] = Some v"
| "merge_values f v (w # ws) = (case f v w of None \<Rightarrow> None | Some v' \<Rightarrow> merge_values f v' ws)"

text \<open>What becomes of the values of a key: their merge, if no two of them are in conflict, or the first one.\<close>

definition expected :: "('v \<Rightarrow> 'v \<Rightarrow> 'v option) option \<Rightarrow> ResourceStrategy \<Rightarrow> 'v list \<Rightarrow> 'v option" where
  "expected mm st vs = (case vs of [] \<Rightarrow> None
     | v # ws \<Rightarrow> (case st of ResourceStrategyMerge \<Rightarrow> merge_values (tryMerge mm) v ws | ResourceStrategySkipDuplicates \<Rightarrow> Some v))"

lemma merge_values_snoc: "merge_values f v (ws @ [w]) = Option.bind (merge_values f v ws) (\<lambda>u. f u w)"
  by (induction ws arbitrary: v) (simp_all split: option.split)

lemma expected_simps:
  "expected mm st [] = None" "expected mm st [v] = Some v"
  "vs \<noteq> [] \<Longrightarrow> expected mm ResourceStrategyMerge (vs @ [v]) = Option.bind (expected mm ResourceStrategyMerge vs) (\<lambda>u. tryMerge mm u v)"
  "vs \<noteq> [] \<Longrightarrow> expected mm ResourceStrategySkipDuplicates (vs @ [v]) = expected mm ResourceStrategySkipDuplicates vs"
  by (auto simp: expected_def merge_values_snoc neq_Nil_conv split: ResourceStrategy.split)

text \<open>The entry of a key after its values have been merged one by one.\<close>

definition entry_ok :: "('v \<Rightarrow> 'v \<Rightarrow> 'v option) option \<Rightarrow> ResourceStrategy \<Rightarrow> 'v list \<Rightarrow> 'v option \<Rightarrow> bool \<Rightarrow> bool" where
  "entry_ok mm st vs d del \<longleftrightarrow> (d = None \<longleftrightarrow> vs = []) \<and> (if del then expected mm st vs = None \<and> st = ResourceStrategyMerge \<and> vs \<noteq> [] else d = expected mm st vs)"

definition resource_ok :: "('v \<Rightarrow> 'v \<Rightarrow> 'v option) option \<Rightarrow> ResourceStrategy \<Rightarrow> (string \<Rightarrow> 'v list) \<Rightarrow> 'v resource \<Rightarrow> bool" where
  "resource_ok mm st vals t \<longleftrightarrow> gomap_ok (resourceMap t) \<and>
     (\<forall>k. entry_ok mm st (vals k) (map_of (resourceMap t) k) (k \<in> set (toDelete t)))"

lemma merge_resource_other:
  "k' \<noteq> k \<Longrightarrow> map_of (resourceMap (merge_resource mm st origin (k, v) t)) k' = map_of (resourceMap t) k'"
  "k' \<noteq> k \<Longrightarrow> k' \<in> set (toDelete (merge_resource mm st origin (k, v) t)) \<longleftrightarrow> k' \<in> set (toDelete t)"
  "gomap_ok (resourceMap t) \<Longrightarrow> gomap_ok (resourceMap (merge_resource mm st origin (k, v) t))"
  by (simp_all add: merge_resource_def recordOrigin_def markForDeletion_def Let_def update_conv' distinct_update
      split: option.split ResourceStrategy.split)

lemma merge_resource_key:
  "map_of (resourceMap (merge_resource mm st origin (k, v) t)) k =
     (case map_of (resourceMap t) k of None \<Rightarrow> Some v
      | Some d \<Rightarrow> (if st = ResourceStrategyMerge \<and> tryMerge mm d v \<noteq> None then tryMerge mm d v else Some d))"
  "k \<in> set (toDelete (merge_resource mm st origin (k, v) t)) \<longleftrightarrow> k \<in> set (toDelete t) \<or>
     (st = ResourceStrategyMerge \<and> (\<exists>d. map_of (resourceMap t) k = Some d \<and> tryMerge mm d v = None))"
  by (simp_all add: merge_resource_def recordOrigin_def markForDeletion_def Let_def update_conv'
      split: option.split ResourceStrategy.split)

lemma entry_ok_step:
  assumes "entry_ok mm st vs d del"
  shows "entry_ok mm st (vs @ [v])
    (case d of None \<Rightarrow> Some v | Some d' \<Rightarrow> (if st = ResourceStrategyMerge \<and> tryMerge mm d' v \<noteq> None then tryMerge mm d' v else Some d'))
    (del \<or> (st = ResourceStrategyMerge \<and> (\<exists>d'. d = Some d' \<and> tryMerge mm d' v = None)))"
proof (cases d)
  case None
  then show ?thesis using assms by (auto simp: entry_ok_def expected_simps split: if_splits)
next
  case (Some d')
  then have vs: "vs \<noteq> []" using assms by (simp add: entry_ok_def)
  show ?thesis
  proof (cases st)
    case ResourceStrategyMerge
    then show ?thesis
      using Some vs assms by (cases del; cases "tryMerge mm d' v") (auto simp: entry_ok_def expected_simps)
  next
    case ResourceStrategySkipDuplicates
    then show ?thesis using Some vs assms by (auto simp: entry_ok_def expected_simps split: if_splits)
  qed
qed

lemma merge_resource_ok:
  assumes "resource_ok mm st vals t"
  shows "resource_ok mm st (vals(k := vals k @ [v])) (merge_resource mm st origin (k, v) t)"
  unfolding resource_ok_def
proof (intro conjI allI)
  show "gomap_ok (resourceMap (merge_resource mm st origin (k, v) t))"
    by (rule merge_resource_other(3)) (use assms in \<open>simp add: resource_ok_def\<close>)
  fix k'
  have e: "entry_ok mm st (vals k') (map_of (resourceMap t) k') (k' \<in> set (toDelete t))"
    using assms by (simp add: resource_ok_def)
  show "entry_ok mm st ((vals(k := vals k @ [v])) k') (map_of (resourceMap (merge_resource mm st origin (k, v) t)) k')
    (k' \<in> set (toDelete (merge_resource mm st origin (k, v) t)))"
  proof (cases "k' = k")
    case True
    then show ?thesis using entry_ok_step [OF e, of v] by (simp only: merge_resource_key fun_upd_same)
  next
    case False
    then show ?thesis using e by (simp add: merge_resource_other)
  qed
qed

lemma mergeResourceMap_ok:
  "resource_ok mm st vals t \<Longrightarrow> resource_ok mm st (\<lambda>k. vals k @ values_of src k) (mergeResourceMap mm st origin src t)"
proof (induction src arbitrary: vals t)
  case Nil
  then show ?case by (simp add: mergeResourceMap_def values_of_def)
next
  case (Cons e src)
  obtain k v where e: "e = (k, v)" by fastforce
  have "resource_ok mm st (\<lambda>k'. (vals(k := vals k @ [v])) k' @ values_of src k')
      (mergeResourceMap mm st origin src (merge_resource mm st origin (k, v) t))"
    by (rule Cons.IH [OF merge_resource_ok [OF Cons.prems]])
  moreover have "(\<lambda>k'. (vals(k := vals k @ [v])) k' @ values_of src k') = (\<lambda>k'. vals k' @ values_of (e # src) k')"
    by (auto simp: fun_eq_iff values_of_def e)
  ultimately show ?case by (simp add: mergeResourceMap_def e)
qed

lemma delete_keys: "map_of (fold delete_key ks m) k = (if k \<in> set ks then None else map_of m k)"
  by (induction ks arbitrary: m) (auto simp: delete_conv')

lemma distinct_delete_keys: "gomap_ok m \<Longrightarrow> gomap_ok (fold delete_key ks m)"
  by (induction ks arbitrary: m) (auto simp: distinct_delete)

definition merges :: "('v \<Rightarrow> 'v \<Rightarrow> 'v option) option \<Rightarrow> ResourceStrategy \<Rightarrow> ('c \<Rightarrow> (string, 'v) gomap) \<Rightarrow> (string \<times> 'c) list \<Rightarrow> (string, 'v) gomap \<Rightarrow> bool" where
  "merges mm st part cs m \<longleftrightarrow> gomap_ok m \<and> (\<forall>k. map_of m k = expected mm st (defined part cs k))"

lemma deleteConflicts_ok:
  assumes "resource_ok mm st (defined part cs) t"
  shows "merges mm st part cs (deleteConflicts t)"
  unfolding merges_def
proof (intro conjI allI)
  show "gomap_ok (deleteConflicts t)"
    using assms by (simp add: deleteConflicts_def resource_ok_def distinct_delete_keys)
  fix k
  have "entry_ok mm st (defined part cs k) (map_of (resourceMap t) k) (k \<in> set (toDelete t))"
    using assms by (simp add: resource_ok_def)
  then show "map_of (deleteConflicts t) k = expected mm st (defined part cs k)"
    by (auto simp: deleteConflicts_def delete_keys entry_ok_def split: if_splits)
qed

lemma no_resource_ok: "resource_ok mm st (defined part []) no_resource"
  by (simp add: resource_ok_def no_resource_def entry_ok_def defined_def expected_def)

text \<open>One map of the configuration, through all configurations.\<close>

lemma fold_resource_ok:
  assumes "\<And>n c t. get (merge_named mms st (n, c) t) = mergeResourceMap mm st n (part c) (get t)" "get no_merged = no_resource"
  shows "merges mm st part cs (deleteConflicts (get (fold (merge_named mms st) cs no_merged)))"
proof (rule deleteConflicts_ok, induction cs rule: rev_induct)
  case Nil
  then show ?case using no_resource_ok assms(2) by simp
next
  case (snoc x cs)
  obtain n c where x: "x = (n, c)" by fastforce
  have "resource_ok mm st (\<lambda>k. defined part cs k @ values_of (part c) k) (mergeResourceMap mm st n (part c) (get (fold (merge_named mms st) cs no_merged)))"
    by (rule mergeResourceMap_ok [OF snoc.IH])
  moreover have "(\<lambda>k. defined part cs k @ values_of (part c) k) = defined part (cs @ [x])"
    by (simp add: defined_def x fun_eq_iff)
  ultimately show ?case using assms(1) x by simp
qed

lemma merge_named_fields:
  "rRouters (merge_named mm st (n, c) s) = mergeResourceMap None st n (parts HTTP Routers c) (rRouters s)"
  "rServices (merge_named mm st (n, c) s) = mergeResourceMap (Some (httpServiceMerge mm)) st n (parts HTTP Services c) (rServices s)"
  "rMiddlewares (merge_named mm st (n, c) s) = mergeResourceMap None st n (parts HTTP MiddlewareMap c) (rMiddlewares s)"
  "rModels (merge_named mm st (n, c) s) = mergeResourceMap None st n (parts HTTP Models c) (rModels s)"
  "rServersTransports (merge_named mm st (n, c) s) = mergeResourceMap None st n (parts HTTP ServersTransports c) (rServersTransports s)"
  "rTCPRouters (merge_named mm st (n, c) s) = mergeResourceMap None st n (parts TCP TCPRouters c) (rTCPRouters s)"
  "rTCPServices (merge_named mm st (n, c) s) = mergeResourceMap (Some (tcpServiceMerge mm)) st n (parts TCP TCPServices c) (rTCPServices s)"
  "rTCPMiddlewares (merge_named mm st (n, c) s) = mergeResourceMap None st n (parts TCP TCPMiddlewares c) (rTCPMiddlewares s)"
  "rTCPModels (merge_named mm st (n, c) s) = mergeResourceMap None st n (parts TCP TCPModels c) (rTCPModels s)"
  "rTCPServersTransports (merge_named mm st (n, c) s) = mergeResourceMap None st n (parts TCP TCPServersTransports c) (rTCPServersTransports s)"
  "rUDPRouters (merge_named mm st (n, c) s) = mergeResourceMap None st n (parts UDP UDPRouters c) (rUDPRouters s)"
  "rUDPServices (merge_named mm st (n, c) s) = mergeResourceMap (Some (udpServiceMerge mm)) st n (parts UDP UDPServices c) (rUDPServices s)"
  "rOptions (merge_named mm st (n, c) s) = mergeResourceMap None st n (parts TLSConf TLSOptions c) (rOptions s)"
  "rStores (merge_named mm st (n, c) s) = mergeResourceMap None st n (parts TLSConf TLSStores c) (rStores s)"
  by (simp_all add: merge_named_def merge_http_maps_def merge_tcp_maps_def merge_udp_maps_def merge_tls_maps_def parts_def Let_def mergeResourceMap_def split: option.split)

text \<open>
  C13. Resources of a provider are merged by name, or dropped when they conflict. For any list of configurations, each of the fourteen maps of the merged configuration holds, under
  each name, exactly what the strategy says for the values of this name in the order of the configurations: with the merging strategy their merge, if every step of it succeeds
  (for all but services: if all of them are the same), and nothing otherwise; with the other strategy the first one. Names that no
  configuration defines are not there.
\<close>

theorem provider_merge:
  "\<exists>h t u l. Merge mm cs st = \<lparr>HTTP = Some h, TCP = Some t, UDP = Some u, TLSConf = Some l\<rparr> \<and>
     merges None st (parts HTTP Routers) cs (Routers h) \<and>
     merges (Some (httpServiceMerge mm)) st (parts HTTP Services) cs (Services h) \<and>
     merges None st (parts HTTP MiddlewareMap) cs (MiddlewareMap h) \<and>
     merges None st (parts HTTP Models) cs (Models h) \<and>
     merges None st (parts HTTP ServersTransports) cs (ServersTransports h) \<and>
     merges None st (parts TCP TCPRouters) cs (TCPRouters t) \<and>
     merges (Some (tcpServiceMerge mm)) st (parts TCP TCPServices) cs (TCPServices t) \<and>
     merges None st (parts TCP TCPMiddlewares) cs (TCPMiddlewares t) \<and>
     merges None st (parts TCP TCPModels) cs (TCPModels t) \<and>
     merges None st (parts TCP TCPServersTransports) cs (TCPServersTransports t) \<and>
     merges None st (parts UDP UDPRouters) cs (UDPRouters u) \<and>
     merges (Some (udpServiceMerge mm)) st (parts UDP UDPServices) cs (UDPServices u) \<and>
     merges None st (parts TLSConf TLSOptions) cs (TLSOptions l) \<and>
     merges None st (parts TLSConf TLSStores) cs (TLSStores l)"
proof -
  note defs = merge_named_fields no_merged_def
  have 1: "merges None st (parts HTTP Routers) cs (deleteConflicts (rRouters (fold (merge_named mm st) cs no_merged)))"
    by (rule fold_resource_ok) (simp_all add: defs)
  have 2: "merges (Some (httpServiceMerge mm)) st (parts HTTP Services) cs (deleteConflicts (rServices (fold (merge_named mm st) cs no_merged)))"
    by (rule fold_resource_ok) (simp_all add: defs)
  have 3: "merges None st (parts HTTP MiddlewareMap) cs (deleteConflicts (rMiddlewares (fold (merge_named mm st) cs no_merged)))"
    by (rule fold_resource_ok) (simp_all add: defs)
  have 4: "merges None st (parts HTTP Models) cs (deleteConflicts (rModels (fold (merge_named mm st) cs no_merged)))"
    by (rule fold_resource_ok) (simp_all add: defs)
  have 5: "merges None st (parts HTTP ServersTransports) cs (deleteConflicts (rServersTransports (fold (merge_named mm st) cs no_merged)))"
    by (rule fold_resource_ok) (simp_all add: defs)
  have 6: "merges None st (parts TCP TCPRouters) cs (deleteConflicts (rTCPRouters (fold (merge_named mm st) cs no_merged)))"
    by (rule fold_resource_ok) (simp_all add: defs)
  have 7: "merges (Some (tcpServiceMerge mm)) st (parts TCP TCPServices) cs (deleteConflicts (rTCPServices (fold (merge_named mm st) cs no_merged)))"
    by (rule fold_resource_ok) (simp_all add: defs)
  have 8: "merges None st (parts TCP TCPMiddlewares) cs (deleteConflicts (rTCPMiddlewares (fold (merge_named mm st) cs no_merged)))"
    by (rule fold_resource_ok) (simp_all add: defs)
  have 9: "merges None st (parts TCP TCPModels) cs (deleteConflicts (rTCPModels (fold (merge_named mm st) cs no_merged)))"
    by (rule fold_resource_ok) (simp_all add: defs)
  have 10: "merges None st (parts TCP TCPServersTransports) cs (deleteConflicts (rTCPServersTransports (fold (merge_named mm st) cs no_merged)))"
    by (rule fold_resource_ok) (simp_all add: defs)
  have 11: "merges None st (parts UDP UDPRouters) cs (deleteConflicts (rUDPRouters (fold (merge_named mm st) cs no_merged)))"
    by (rule fold_resource_ok) (simp_all add: defs)
  have 12: "merges (Some (udpServiceMerge mm)) st (parts UDP UDPServices) cs (deleteConflicts (rUDPServices (fold (merge_named mm st) cs no_merged)))"
    by (rule fold_resource_ok) (simp_all add: defs)
  have 13: "merges None st (parts TLSConf TLSOptions) cs (deleteConflicts (rOptions (fold (merge_named mm st) cs no_merged)))"
    by (rule fold_resource_ok) (simp_all add: defs)
  have 14: "merges None st (parts TLSConf TLSStores) cs (deleteConflicts (rStores (fold (merge_named mm st) cs no_merged)))"
    by (rule fold_resource_ok) (simp_all add: defs)
  show ?thesis unfolding Merge_def Let_def
    by (intro exI conjI, rule refl) (simp_all add: 1 2 3 4 5 6 7 8 9 10 11 12 13 14)
qed

lemma tryMerge_same: "merge_values (tryMerge None) v ws = (if \<forall>w \<in> set ws. w = v then Some v else None)"
  by (induction ws) (auto simp: tryMerge_def)

lemma expected_same: "expected None ResourceStrategyMerge vs = Some v \<longleftrightarrow> vs \<noteq> [] \<and> (\<forall>w \<in> set vs. w = v)"
  by (cases vs) (auto simp: expected_def tryMerge_same)

subsection \<open>Conflict reports\<close>

definition definers :: "('c \<Rightarrow> (string, 'v) gomap) \<Rightarrow> (string \<times> 'c) list \<Rightarrow> string \<Rightarrow> string list" where
  "definers part cs k = concat (map (\<lambda>(n, c). map (\<lambda>_. n) (values_of (part c) k)) cs)"

lemma origins_resource: "origins (merge_resource mm st origin (k, v) t) k' = origins t k' @ (if k' = k then [origin] else [])"
  by (simp add: merge_resource_def recordOrigin_def markForDeletion_def Let_def split: option.split ResourceStrategy.split)

lemma origins_map: "origins (mergeResourceMap mm st origin src t) k = origins t k @ map (\<lambda>_. origin) (values_of src k)"
proof (induction src arbitrary: t)
  case (Cons e src)
  obtain k' v where e: "e = (k', v)" by fastforce
  show ?case using Cons [of "merge_resource mm st origin (k', v) t"] by (simp add: mergeResourceMap_def e origins_resource values_of_def)
qed (simp add: mergeResourceMap_def values_of_def)

text \<open>The report on a conflict names exactly the configurations that define the resource, in their order.\<close>

lemma routers_reported:
  assumes "(k, os) \<in> set (conflict_reports (rRouters (fold (merge_named mm st) cs no_merged)))"
  shows "os = definers (parts HTTP Routers) cs k"
proof -
  have "origins (rRouters (fold (merge_named mm st) cs no_merged)) k = definers (parts HTTP Routers) cs k"
  proof (induction cs rule: rev_induct)
    case Nil
    then show ?case by (simp add: no_merged_def no_resource_def definers_def)
  next
    case (snoc x cs)
    then show ?case by (cases x) (simp add: merge_named_fields origins_map definers_def)
  qed
  then show ?thesis using assms by (auto simp: conflict_reports_def)
qed

subsection \<open>Certificates\<close>

lemma set_mergeStores: "set (mergeStores existing other) = set existing \<union> set other"
  by (induction other arbitrary: existing) (auto simp: mergeStores_def)

definition stored :: "'r CertAndStores list \<Rightarrow> ('r \<times> string) set" where
  "stored cs = {(Certificate c, s) | c s. c \<in> set cs \<and> s \<in> set (Stores c)}"

lemma merge_certificate_distinct:
  "distinct (map Certificate cs) \<Longrightarrow> distinct (map Certificate (merge_certificate st c cs)) \<and>
   Certificate ` set (merge_certificate st c cs) = insert (Certificate c) (Certificate ` set cs)"
  by (induction cs) (auto split: ResourceStrategy.split)

lemma stored_Cons: "stored (c # cs) = Pair (Certificate c) ` set (Stores c) \<union> stored cs"
  by (auto simp: stored_def)

lemma merge_certificate_stored: "stored (merge_certificate ResourceStrategyMerge c cs) = stored (c # cs)"
  by (induction cs) (auto simp: stored_Cons set_mergeStores)

lemma mergeCertificates_distinct:
  "distinct (map Certificate cs) \<Longrightarrow> distinct (map Certificate (mergeCertificates st cs new)) \<and>
   Certificate ` set (mergeCertificates st cs new) = Certificate ` set cs \<union> Certificate ` set new"
proof (induction new arbitrary: cs)
  case (Cons c new)
  note * = merge_certificate_distinct [OF Cons.prems, of st c]
  show ?case using Cons.IH [of "merge_certificate st c cs"] * by (simp add: mergeCertificates_def)
qed (simp add: mergeCertificates_def)

text \<open>No certificate is lost, none is there twice, and with the merging strategy each is in all the stores that any configuration names.\<close>

lemma certificates_stored: "stored (mergeCertificates ResourceStrategyMerge cs new) = stored cs \<union> stored new"
proof (induction new arbitrary: cs)
  case (Cons c new)
  have "stored (mergeCertificates ResourceStrategyMerge cs (c # new)) = stored (merge_certificate ResourceStrategyMerge c cs) \<union> stored new"
    using Cons by (simp add: mergeCertificates_def)
  then show ?case by (auto simp: merge_certificate_stored stored_Cons)
qed (simp add: mergeCertificates_def stored_def)

subsection \<open>Services\<close>

lemma lb_merge_servers:
  assumes "ServersLoadBalancer_Merge key l l' = Some m"
  shows "key ` set (lbServers m) = key ` set (lbServers l) \<union> key ` set (lbServers l')"
proof -
  have "lbServers m = lbServers l @ filter (\<lambda>server. key server \<notin> key ` set (lbServers l)) (lbServers l')"
    using assms by (auto simp: ServersLoadBalancer_Merge_def Let_def split: if_splits)
  then show ?thesis by auto
qed

text \<open>
  C18. Merging two services keeps the servers of both but the middlewares of one. If both have a load balancer and these differ in nothing but the servers, the merge succeeds,
  and the result has the servers of both without duplicates between them; its middlewares are those of the service that came first,
  whatever the other one asks for, and no conflict is reported.
\<close>

theorem service_merge_middlewares:
  assumes "svcLoadBalancer s = Some l" "svcLoadBalancer other = Some l'" "lbSettings l = lbSettings l'"
  shows "\<exists>r m. Service_Merge key s other = Some r \<and> svcLoadBalancer r = Some m \<and> svcMiddlewares r = svcMiddlewares s \<and>
    key ` set (lbServers m) = key ` set (lbServers l) \<union> key ` set (lbServers l')"
proof -
  have "mergeable l l'" using assms(3) by (simp add: mergeable_def)
  then obtain m where m: "ServersLoadBalancer_Merge key l l' = Some m" by (simp add: ServersLoadBalancer_Merge_def Let_def)
  then show ?thesis using assms lb_merge_servers [OF m] by (simp add: Service_Merge_def)
qed

definition demo_service :: "string list \<Rightarrow> string list \<Rightarrow> (string, nat, nat) Service" where
  "demo_service mws urls = \<lparr>svcMiddlewares = mws, svcLoadBalancer = Some \<lparr>lbServers = urls, lbSettings = 0\<rparr>, svcOther = 0\<rparr>"

text \<open>The second container asks for authentication; the merged service sends requests to it without.\<close>

theorem service_merge_middlewares_witness:
  "\<exists>r m. Service_Merge id (demo_service [] [''http://10.0.0.1'']) (demo_service [''auth''] [''http://10.0.0.2'']) = Some r \<and>
     svcLoadBalancer r = Some m \<and> svcMiddlewares r = [] \<and> set (lbServers m) = {''http://10.0.0.1'', ''http://10.0.0.2''}"
proof -
  let ?s = "demo_service [] [''http://10.0.0.1'']" and ?o = "demo_service [''auth''] [''http://10.0.0.2'']"
  have "svcLoadBalancer ?s = Some \<lparr>lbServers = [''http://10.0.0.1''], lbSettings = 0\<rparr>"
    "svcLoadBalancer ?o = Some \<lparr>lbServers = [''http://10.0.0.2''], lbSettings = 0\<rparr>" "svcMiddlewares ?s = []"
    by (simp_all add: demo_service_def)
  with service_merge_middlewares [OF this(1,2), of id] show ?thesis by (simp add: insert_commute)
qed

end
