(* ===== verification/PathMiddlewares.thy ===== *)
theory PathMiddlewares
  imports ForwardedHeaders
begin

section \<open>Middlewares that rewrite paths\<close>

text \<open>
  The middlewares \<open>stripprefix\<close>, \<open>stripprefixregex\<close>, \<open>addprefix\<close>, \<open>replacepath\<close> and \<open>replacepathregex\<close> (\<open>pkg/middlewares\<close>). A middleware is the request that the next handler gets, or the answer 500. The changes in place of the request, which
  later handlers see, are in the request returned. Compiled regular expressions are given by the library functions applied to them: the leftmost match, the test, and the replacement.
\<close>

definition TrimPrefix :: "string \<Rightarrow> string \<Rightarrow> string" where
  "TrimPrefix s p = (if HasPrefix s p then drop (length p) s else s)"

definition hdr_Add :: "string \<Rightarrow> string \<Rightarrow> header_map \<Rightarrow> header_map" where
  "hdr_Add key value' h = h(key \<mapsto> hdr_Values h key @ [value'])"

definition add_header :: "string \<Rightarrow> string \<Rightarrow> http_request \<Rightarrow> http_request" where
  "add_header key value' req = req\<lparr>reqHeader := hdr_Add key value' (reqHeader req)\<rparr>"

text \<open>New path and raw path, with the request URI computed from them.\<close>

definition with_path :: "url \<Rightarrow> http_request \<Rightarrow> http_request" where
  "with_path u req = (let u' = (URL req)\<lparr>urlPath := u\<rparr> in req\<lparr>URL := u', RequestURI := URL_RequestURI u'\<rparr>)"

definition ensureLeadingSlash :: "string \<Rightarrow> string" where
  "ensureLeadingSlash str = (if str = [] then str else if hd str = CHR ''/'' then str else ''/'' @ str)"

subsection \<open>Strip prefix\<close>

definition ForwardedPrefixHeader :: string where
  "ForwardedPrefixHeader = ''X-Forwarded-Prefix''"

record stripPrefix =
  prefixes :: "string list"
  forceSlash :: bool

definition NewStripPrefix :: "string list \<Rightarrow> bool option \<Rightarrow> stripPrefix" where
  "NewStripPrefix Prefixes ForceSlash = \<lparr>prefixes = Prefixes, forceSlash = (ForceSlash = Some True)\<rparr>"

definition getPrefixStripped :: "stripPrefix \<Rightarrow> string \<Rightarrow> string \<Rightarrow> string" where
  "getPrefixStripped s p pre =
     (if forceSlash s then ''/'' @ TrimPrefix (TrimPrefix p pre) ''/''
      else ensureLeadingSlash (TrimPrefix p pre))"

definition strip_one :: "stripPrefix \<Rightarrow> string \<Rightarrow> http_request \<Rightarrow> http_request" where
  "strip_one s pre req =
     (let u = urlPath (URL req) in
      with_path \<lparr>Path = getPrefixStripped s (Path u) pre, RawPath = (if RawPath u \<noteq> [] then getPrefixStripped s (RawPath u) pre else [])\<rparr>
        (add_header ForwardedPrefixHeader (TrimSpace pre) req))"

fun strip_loop :: "stripPrefix \<Rightarrow> string list \<Rightarrow> http_request \<Rightarrow> http_request" where
  "strip_loop s [] req = req"
| "strip_loop s (pre # rest) req =
     (if HasPrefix (Path (urlPath (URL req))) pre then strip_one s pre req else strip_loop s rest req)"

definition stripPrefix_ServeHTTP :: "stripPrefix \<Rightarrow> http_request \<Rightarrow> http_request" where
  "stripPrefix_ServeHTTP s req = strip_loop s (prefixes s) req"

text \<open>
  An expression is the function from a string to its leftmost match. Slicing the raw path panics when it is shorter than the match, and
  \<open>strings.Replace\<close> of the first occurrence of a prefix removes the prefix.
\<close>

fun strip_regex_loop :: "(string \<Rightarrow> string option) list \<Rightarrow> http_request \<Rightarrow> http_request outcome" where
  "strip_regex_loop [] req = Ok req"
| "strip_regex_loop (match # rest) req =
     (let u = urlPath (URL req) in
      case match (Path u) of
        Some pre \<Rightarrow>
          if pre = [] \<or> \<not> HasPrefix (Path u) pre then strip_regex_loop rest req
          else if RawPath u \<noteq> [] \<and> length pre > length (RawPath u) then Panic
          else Ok (with_path \<lparr>Path = ensureLeadingSlash (drop (length pre) (Path u)),
              RawPath = (if RawPath u \<noteq> [] then ensureLeadingSlash (drop (length pre) (RawPath u)) else [])\<rparr>
            (add_header ForwardedPrefixHeader pre req))
      | None \<Rightarrow> strip_regex_loop rest req)"

subsection \<open>Add prefix\<close>

definition NewAddPrefix :: "string \<Rightarrow> string outcome" where
  "NewAddPrefix Prefix = (if Prefix \<noteq> [] then Ok Prefix else Err ''prefix cannot be empty'')"

definition addPrefix_ServeHTTP :: "string \<Rightarrow> http_request \<Rightarrow> http_request" where
  "addPrefix_ServeHTTP pre req =
     (let u = urlPath (URL req) in
      with_path \<lparr>Path = ensureLeadingSlash (pre @ Path u), RawPath = (if RawPath u \<noteq> [] then ensureLeadingSlash (pre @ RawPath u) else [])\<rparr> req)"

subsection \<open>Replace path\<close>

definition ReplacedPathHeader :: string where
  "ReplacedPathHeader = ''X-Replaced-Path''"

definition currentPath :: "http_request \<Rightarrow> string" where
  "currentPath req = (let u = urlPath (URL req) in if RawPath u = [] then URL_EscapedPath u else RawPath u)"

text \<open>\<^const>\<open>None\<close> is the answer 500 for a path that does not decode.\<close>

definition replace_by :: "string \<Rightarrow> http_request \<Rightarrow> http_request option" where
  "replace_by raw req =
     (case pct_decode raw of
        None \<Rightarrow> None
      | Some p \<Rightarrow> Some (with_path \<lparr>Path = p, RawPath = raw\<rparr> (add_header ReplacedPathHeader (currentPath req) req)))"

definition replacePath_ServeHTTP :: "string \<Rightarrow> http_request \<Rightarrow> http_request option" where
  "replacePath_ServeHTTP newPath req = replace_by newPath req"

record compiled =
  MatchString :: "string \<Rightarrow> bool"
  ReplaceAllString :: "string \<Rightarrow> string \<Rightarrow> string"

definition replacePathRegex_ServeHTTP :: "compiled option \<Rightarrow> string \<Rightarrow> http_request \<Rightarrow> http_request option" where
  "replacePathRegex_ServeHTTP regexp replacement req =
     (case regexp of
        Some re \<Rightarrow>
          if MatchString re (currentPath req) then replace_by (ReplaceAllString re (currentPath req) replacement) req
          else Some req
      | None \<Rightarrow> Some req)"

subsection \<open>What the next handler gets\<close>

lemma with_path_simps [simp]:
  "urlPath (URL (with_path u req)) = u" "RequestURI (with_path u req) = URL_RequestURI (URL (with_path u req))"
  "reqHeader (with_path u req) = reqHeader req" "Host (with_path u req) = Host req"
  by (simp_all add: with_path_def Let_def)

lemma add_header_simps [simp]:
  "URL (add_header k v req) = URL req" "RequestURI (add_header k v req) = RequestURI req"
  "reqHeader (add_header k v req) = hdr_Add k v (reqHeader req)"
  by (simp_all add: add_header_def)

lemma TrimPrefix_append [simp]: "TrimPrefix (p @ s) p = s"
  by (simp add: TrimPrefix_def HasPrefix_append)

lemma ensureLeadingSlash_rooted [simp]: "ensureLeadingSlash (CHR ''/'' # s) = CHR ''/'' # s"
  by (simp add: ensureLeadingSlash_def)

lemma HasPrefix_self [simp]: "HasPrefix (p @ s) p"
  by (auto simp: HasPrefix_append)

definition rooted :: "string \<Rightarrow> bool" where
  "rooted s \<longleftrightarrow> (\<exists>t. s = CHR ''/'' # t)"

lemma rooted_append: "rooted p \<Longrightarrow> rooted (p @ s)"
  by (auto simp: rooted_def)

lemma ensure_rooted: "rooted s \<Longrightarrow> ensureLeadingSlash s = s"
  by (auto simp: rooted_def)

text \<open>
  C29. Stripping a prefix undoes adding it. A request for a rooted path that passes \<open>AddPrefix\<close> and then \<open>StripPrefix\<close> with the same rooted prefix comes out with the same
  path and raw path, and with the request URI of its URL; the prefix stripped is reported in the header \<open>X-Forwarded-Prefix\<close>.
\<close>

theorem strip_added_prefix:
  assumes "NewAddPrefix pre = Ok p" "rooted p" "rooted (Path (urlPath (URL req)))" "RawPath (urlPath (URL req)) = [] \<or> rooted (RawPath (urlPath (URL req)))"
  shows "\<exists>req'. stripPrefix_ServeHTTP (NewStripPrefix [p] None) (addPrefix_ServeHTTP p req) = req' \<and> URL req' = URL req \<and>
    RequestURI req' = URL_RequestURI (URL req) \<and> hdr_Values (reqHeader req') ForwardedPrefixHeader = hdr_Values (reqHeader req) ForwardedPrefixHeader @ [TrimSpace p]"
proof -
  let ?u = "urlPath (URL req)"
  let ?a = "addPrefix_ServeHTTP p req"
  have a: "urlPath (URL ?a) = \<lparr>Path = p @ Path ?u, RawPath = (if RawPath ?u = [] then [] else p @ RawPath ?u)\<rparr>"
    using assms(2) by (simp add: addPrefix_ServeHTTP_def Let_def ensure_rooted rooted_append)
  have p: "p \<noteq> []" using assms(2) by (auto simp: rooted_def)
  have "strip_one (NewStripPrefix [p] None) p ?a = with_path ?u (add_header ForwardedPrefixHeader (TrimSpace p) ?a)"
    using assms(3,4) p unfolding strip_one_def Let_def a
    by (cases ?u; cases "RawPath ?u = []") (simp_all add: getPrefixStripped_def NewStripPrefix_def ensure_rooted)
  then have "stripPrefix_ServeHTTP (NewStripPrefix [p] None) ?a = with_path ?u (add_header ForwardedPrefixHeader (TrimSpace p) ?a)"
    unfolding stripPrefix_ServeHTTP_def by (simp add: NewStripPrefix_def a)
  moreover have "URL (with_path ?u (add_header ForwardedPrefixHeader (TrimSpace p) ?a)) = URL req"
    by (simp add: with_path_def addPrefix_ServeHTTP_def Let_def)
  ultimately show ?thesis
    by (simp add: hdr_Add_def hdr_Values_def) (simp add: with_path_def addPrefix_ServeHTTP_def Let_def)
qed

text \<open>A path with an encoded slash.\<close>

definition demo_encoded :: http_request where
  "demo_encoded = demo_spoofed\<lparr>URL := (URL demo_spoofed)\<lparr>urlPath := \<lparr>Path = ''/a/b'', RawPath = ''/a%2Fb''\<rparr>\<rparr>\<rparr>"

theorem strip_added_prefix_witness:
  "URL (stripPrefix_ServeHTTP (NewStripPrefix [''/api''] None) (addPrefix_ServeHTTP ''/api'' demo_encoded)) = URL demo_encoded \<and>
   RequestURI (stripPrefix_ServeHTTP (NewStripPrefix [''/api''] None) (addPrefix_ServeHTTP ''/api'' demo_encoded)) = ''/a%2Fb''"
proof -
  have "NewAddPrefix ''/api'' = Ok ''/api''" "rooted ''/api''" "rooted (Path (urlPath (URL demo_encoded)))"
    "RawPath (urlPath (URL demo_encoded)) = [] \<or> rooted (RawPath (urlPath (URL demo_encoded)))"
    by (simp_all add: NewAddPrefix_def rooted_def demo_encoded_def)
  from strip_added_prefix [OF this] show ?thesis by auto code_simp
qed

subsection \<open>Encoded prefixes\<close>

text \<open>
  Stripping a prefix may decode the rest of the path. If the path has the prefix, and so does not the raw path because the client encoded a character of the prefix, then
  the next handler sees the rest of the path with its canonical encoding, in which encoded slashes have become slashes, even though the raw path was valid.
\<close>

theorem strip_prefix_decodes:
  assumes "pct_decode (RawPath u) = Some (pre @ rest)" "Path u = pre @ rest" "\<not> HasPrefix (RawPath u) pre" "rooted rest"
    and "rooted (RawPath u)" "urlPath (URL req) = u" "pre \<noteq> []"
  shows "\<exists>u'. urlPath (URL (stripPrefix_ServeHTTP (NewStripPrefix [pre] None) req)) = u' \<and> Path u' = rest \<and> URL_EscapedPath u' = escape rest"
proof -
  have "strip_one (NewStripPrefix [pre] None) pre req = with_path \<lparr>Path = rest, RawPath = RawPath u\<rparr> (add_header ForwardedPrefixHeader (TrimSpace pre) req)"
    using assms by (auto simp: strip_one_def Let_def getPrefixStripped_def NewStripPrefix_def ensure_rooted TrimPrefix_def rooted_def)
  then have "urlPath (URL (stripPrefix_ServeHTTP (NewStripPrefix [pre] None) req)) = \<lparr>Path = rest, RawPath = RawPath u\<rparr>"
    using assms(2,6) by (simp add: stripPrefix_ServeHTTP_def NewStripPrefix_def)
  moreover have "pct_decode (RawPath u) \<noteq> Some rest" using assms(1,7) by auto
  ultimately show ?thesis using assms(4) by (auto simp: URL_EscapedPath_def rooted_def)
qed

theorem strip_prefix_decodes_witness:
  "\<exists>u req. RawPath u = ''/my%20app/a%2Fb'' \<and> pct_decode (RawPath u) = Some (Path u) \<and> urlPath (URL req) = u \<and>
     URL_EscapedPath u = ''/my%20app/a%2Fb'' \<and>
     URL_EscapedPath (urlPath (URL (stripPrefix_ServeHTTP (NewStripPrefix [''/my app''] None) req))) = ''/a/b''"
proof -
  define u where "u = \<lparr>Path = ''/my app/a/b'', RawPath = ''/my%20app/a%2Fb''\<rparr>"
  define req where "req = demo_spoofed\<lparr>URL := (URL demo_spoofed)\<lparr>urlPath := u\<rparr>\<rparr>"
  have d: "pct_decode ''/my%20app/a%2Fb'' = Some (''/my app'' @ ''/a/b'')" "URL_EscapedPath \<lparr>Path = ''/my app/a/b'', RawPath = ''/my%20app/a%2Fb''\<rparr> = ''/my%20app/a%2Fb''"
    "escape ''/a/b'' = ''/a/b''" "\<not> HasPrefix ''/my%20app/a%2Fb'' ''/my app''"
    by code_simp+
  have "\<exists>u'. urlPath (URL (stripPrefix_ServeHTTP (NewStripPrefix [''/my app''] None) req)) = u' \<and> Path u' = ''/a/b'' \<and> URL_EscapedPath u' = escape ''/a/b''"
    by (rule strip_prefix_decodes [of u]) (use d in \<open>simp_all add: u_def req_def rooted_def\<close>)
  then show ?thesis using d by (intro exI [of _ u] exI [of _ req]) (auto simp: u_def req_def)
qed

subsection \<open>Regular expressions\<close>

lemma decode_length: "pct_decode s = Some d \<Longrightarrow> length d \<le> length s"
proof (induction s arbitrary: d rule: pct_decode.induct)
  case (2 c cs)
  then show ?case by (auto split: if_splits list.splits option.splits) fastforce+
qed simp

lemma HasPrefix_length: "HasPrefix s p \<Longrightarrow> length p \<le> length s"
  by (auto simp: HasPrefix_append)

text \<open>On a URL as the library parses it, cutting a match off the raw path stays within the raw path.\<close>

lemma strip_regex_no_panic:
  "url_ok (urlPath (URL req)) \<Longrightarrow> strip_regex_loop es req \<noteq> Panic"
proof (induction es)
  case (Cons match es)
  show ?case
  proof (cases "match (Path (urlPath (URL req)))")
    case (Some pre)
    have "length pre \<le> length (RawPath (urlPath (URL req)))"
      if "HasPrefix (Path (urlPath (URL req))) pre" "RawPath (urlPath (URL req)) \<noteq> []"
      using HasPrefix_length [OF that(1)] decode_length that(2) Cons.prems by (fastforce simp: url_ok_def)
    then show ?thesis using Some Cons by (auto simp: Let_def)
  qed (use Cons in simp)
qed simp

lemma replace_by_ok: "replace_by raw req = Some req' \<Longrightarrow> url_ok (urlPath (URL req')) \<and> RequestURI req' = URL_RequestURI (URL req')"
  by (auto simp: replace_by_def url_ok_def split: option.splits)

end
