(* ===== verification/IpAllowList.thy ===== *)
theory IpAllowList
  imports EntryPoint
begin

section \<open>Allow lists of addresses\<close>

text \<open>
  The middleware that admits requests by the address of the client (\<open>pkg/middlewares/ipallowlist\<close>) and the choice of the strategy that finds this address
  (\<open>IPStrategy.Get\<close> in \<open>pkg/config/dynamic/middlewares.go\<close>). A request is answered by the next handler, or rejected with a status. The last theorem puts it behind an entry point.
\<close>

record IPStrategy =
  Depth :: int
  ExcludedIPs :: "string list"
  IPv6Subnet :: "int option"

datatype strategy = RemoteAddrStrategy "int option" | DepthStrategy int "int option" | PoolStrategy checker

definition valid_subnet :: "int option \<Rightarrow> bool" where
  "valid_subnet n \<longleftrightarrow> (case n of None \<Rightarrow> True | Some b \<Rightarrow> \<not> (b \<le> 0 \<or> b > 128))"

definition IPStrategy_Get :: "ipLib \<Rightarrow> IPStrategy option \<Rightarrow> strategy outcome" where
  "IPStrategy_Get L s' =
     (case s' of
        None \<Rightarrow> Ok (RemoteAddrStrategy None)
      | Some s \<Rightarrow>
          if Depth s > 0 then
            (if \<not> valid_subnet (IPv6Subnet s) then Err ''invalid IPv6 subnet'' else Ok (DepthStrategy (Depth s) (IPv6Subnet s)))
          else if length (ExcludedIPs s) > 0 then bind_outcome (NewChecker L (ExcludedIPs s)) (\<lambda>c. Ok (PoolStrategy c))
          else if \<not> valid_subnet (IPv6Subnet s) then Err ''invalid IPv6 subnet''
          else Ok (RemoteAddrStrategy (IPv6Subnet s)))"

definition GetIP :: "ipLib \<Rightarrow> strategy \<Rightarrow> request \<Rightarrow> string outcome" where
  "GetIP L s req =
     (case s of
        RemoteAddrStrategy n \<Rightarrow> Ok (RemoteAddrStrategy_GetIP L n req)
      | DepthStrategy d n \<Rightarrow> DepthStrategy_GetIP L d n req
      | PoolStrategy c \<Rightarrow> Ok (PoolStrategy_GetIP L (Some c) req))"

record IPAllowList =
  SourceRange :: "string list"
  cfgIPStrategy :: "IPStrategy option"
  RejectStatusCode :: int

record ipAllowLister =
  allowLister :: checker
  al_strategy :: strategy
  rejectStatusCode :: int

text \<open>The status codes to which \<open>http.StatusText\<close> gives a text.\<close>

definition known_status :: "int \<Rightarrow> bool" where
  "known_status c \<longleftrightarrow> c \<in> {100..103} \<union> {200..208} \<union> {226} \<union> {300..305} \<union> {307, 308} \<union> {400..418} \<union> {421..426} \<union> {428, 429, 431, 451}
     \<union> {500..508} \<union> {510, 511}"

definition NewIPAllowLister :: "ipLib \<Rightarrow> IPAllowList \<Rightarrow> ipAllowLister outcome" where
  "NewIPAllowLister L config =
     (if length (SourceRange config) = 0 then Err ''sourceRange is empty, IPAllowLister not created''
      else if RejectStatusCode config \<noteq> 0 \<and> \<not> known_status (RejectStatusCode config) then Err ''invalid HTTP status code''
      else
        let status = (if RejectStatusCode config = 0 then 403 else RejectStatusCode config) in
        bind_outcome (NewChecker L (SourceRange config)) (\<lambda>c.
        bind_outcome (IPStrategy_Get L (cfgIPStrategy config)) (\<lambda>s.
        Ok \<lparr>allowLister = c, al_strategy = s, rejectStatusCode = status\<rparr>)))"

text \<open>\<^const>\<open>None\<close> is the call of the next handler, otherwise the status of the rejection.\<close>

definition ipAllowLister_ServeHTTP :: "ipLib \<Rightarrow> ipAllowLister \<Rightarrow> request \<Rightarrow> int option outcome" where
  "ipAllowLister_ServeHTTP L al req =
     bind_outcome (GetIP L (al_strategy al) req) (\<lambda>ip.
       case IsAuthorized L (allowLister al) ip of
         Ok _ \<Rightarrow> Ok None
       | _ \<Rightarrow> Ok (Some (rejectStatusCode al)))"

subsection \<open>Decisions\<close>

definition admissible :: "strategy \<Rightarrow> bool" where
  "admissible s \<longleftrightarrow> (case s of DepthStrategy d _ \<Rightarrow> d > 0 | _ \<Rightarrow> True)"

lemma IPStrategy_Get_admissible: "IPStrategy_Get L s = Ok st \<Longrightarrow> admissible st"
  by (auto simp: IPStrategy_Get_def admissible_def split: option.splits if_splits)

lemma GetIP_returns: "admissible s \<Longrightarrow> \<exists>ip. GetIP L s req = Ok ip"
  by (auto simp: GetIP_def admissible_def DepthStrategy_GetIP_def Let_def split: strategy.splits option.splits)

lemma NewIPAllowLister_admissible:
  "NewIPAllowLister L config = Ok al \<Longrightarrow> admissible (al_strategy al) \<and> NewChecker L (SourceRange config) = Ok (allowLister al)"
  by (auto simp: NewIPAllowLister_def Let_def IPStrategy_Get_admissible split: if_splits)

text \<open>How the strategies see a request: its headers and the address of the peer.\<close>

definition seen_as :: "http_request \<Rightarrow> request \<Rightarrow> bool" where
  "seen_as r q \<longleftrightarrow> Header q = hdr_Values (reqHeader r) \<and> RemoteAddr q = reqRemoteAddr r"

lemma IsAuthorized_empty: "IsAuthorized L c [] \<noteq> Ok ()"
  by (simp add: IsAuthorized_def Contains_def SplitHostPort_def LastIndexByte_def Let_def)

lemma GetIP_no_header:
  assumes "Header q xForwardedFor = []" "ParseAddr L [] = None" "GetIP L s q = Ok ip" "ip \<noteq> []"
  shows "\<exists>n. s = RemoteAddrStrategy n"
proof (cases s)
  case (DepthStrategy d n)
  have "Split (Header_Get q xForwardedFor) (CHR '','') = [[]]"
    using assms(1) by (simp add: Header_Get_def)
  then have "ip = []"
    using assms(2,3) DepthStrategy
    by (auto simp: GetIP_def DepthStrategy_GetIP_def Let_def TrimSpace_def getIPv6SubnetIP_def split: if_splits option.splits)
  then show ?thesis using assms(4) by simp
next
  case (PoolStrategy c)
  then show ?thesis using assms by (auto simp: GetIP_def PoolStrategy_GetIP_def Header_Get_def TrimSpace_def)
qed simp

definition bare :: "string \<Rightarrow> string" where
  "bare a = (case SplitHostPort a of Some (h, _) \<Rightarrow> h | None \<Rightarrow> a)"

lemma IsAuthorized_trusts:
  assumes "IsAuthorized L c ip = Ok ()" "NewChecker L xs = Ok c"
  shows "\<exists>a. ParseAddr L (bare ip) = Some a \<and> (\<exists>s \<in> set xs. trusts L s (As16 a))"
proof -
  have "Contains L c (bare ip) = Ok True"
    using assms(1) by (auto simp: IsAuthorized_def bare_def Let_def split: outcome.splits if_splits)
  then obtain a where "ParseAddr L (bare ip) = Some a" "ContainsIP c (As16 a)"
    by (auto simp: Contains_def parseIP_def split: if_splits option.splits)
  then show ?thesis using NewChecker_spec [OF assms(2)] by blast
qed

text \<open>
  C7. Behind an entry point, an untrusted client passes an allow list by its own address only. Whatever strategy is configured, the middleware always decides; and if it admits a request of a
  client that the entry point does not trust, then the strategy is that of the remote address, and this address, or the IPv6 network it is reduced to, is one that an entry of
  the list stands for. In particular no header that the client sends helps.
\<close>

theorem allow_list_not_spoofable:
  assumes "NewIPAllowLister L config = Ok al" "\<not> insecure x" "\<not> isTrustedIP L x (reqRemoteAddr r)"
    and "seen_as (XForwarded_ServeHTTP L tok x r) q" "ParseAddr L [] = None"
  shows "\<exists>ans. ipAllowLister_ServeHTTP L al q = Ok ans \<and>
    (ans = None \<longrightarrow> (\<exists>n a. al_strategy al = RemoteAddrStrategy n \<and> ParseAddr L (bare (RemoteAddrStrategy_GetIP L n q)) = Some a \<and>
       (\<exists>s \<in> set (SourceRange config). trusts L s (As16 a))))"
proof -
  note al = NewIPAllowLister_admissible [OF assms(1)]
  obtain ip where ip: "GetIP L (al_strategy al) q = Ok ip" using GetIP_returns al by blast
  have "Header q xForwardedFor = hdr_Values (connection_facts x r) ''X-Forwarded-For''"
    using assms(4) untrusted_headers [OF assms(2,3), of "''X-Forwarded-For''" tok]
    by (simp add: seen_as_def xForwardedFor_def hdr_Values_def xHeaders_def)
  then have none: "Header q xForwardedFor = []" by (simp add: hdr_Values_def connection_facts_for)
  show ?thesis
  proof (cases "IsAuthorized L (allowLister al) ip = Ok ()")
    case True
    then have "ip \<noteq> []" using IsAuthorized_empty by blast
    then obtain n where n: "al_strategy al = RemoteAddrStrategy n" using GetIP_no_header [OF none assms(5) ip] by blast
    then have "ip = RemoteAddrStrategy_GetIP L n q" using ip by (simp add: GetIP_def)
    then show ?thesis
      using True n ip IsAuthorized_trusts [OF True, of "SourceRange config"] al
      by (simp add: ipAllowLister_ServeHTTP_def)
  next
    case False
    then show ?thesis using ip by (auto simp: ipAllowLister_ServeHTTP_def split: outcome.splits)
  qed
qed

text \<open>The list admits one address; the client of \<open>demo_spoofed\<close> has another one and claims to have this one.\<close>

definition demo_lib :: ipLib where
  "demo_lib = \<lparr>ParseIP = (\<lambda>s. if s = ''127.0.0.1'' then Some 0xFFFF7F000001 else if s = ''1.2.3.4'' then Some 0xFFFF01020304 else None), ParseCIDR = (\<lambda>_. None),
     ParseAddr = (\<lambda>s. if s = ''127.0.0.1'' then Some \<lparr>As16 = 0xFFFF7F000001, addrIs4 = True\<rparr>
       else if s = ''1.2.3.4'' then Some \<lparr>As16 = 0xFFFF01020304, addrIs4 = True\<rparr> else None), AddrString = (\<lambda>_. [])\<rparr>"

definition demo_allow :: IPAllowList where
  "demo_allow = \<lparr>SourceRange = [''127.0.0.1''], cfgIPStrategy = Some \<lparr>Depth = 1, ExcludedIPs = [], IPv6Subnet = None\<rparr>, RejectStatusCode = 0\<rparr>"

definition demo_seen :: request where
  "demo_seen = \<lparr>Method = ''GET'', EscapedPath = ''/'', URLQuery = Map.empty,
     Header = hdr_Values (reqHeader (XForwarded_ServeHTTP demo_lib (\<lambda>_ _. False) demo_forwarded demo_spoofed)), RemoteAddr = ''1.2.3.4:99'',
     Cookies = Map.empty, ctxRoutingPath = None, ctxCanonicalHost = None, ctxFlattenHost = None\<rparr>"

theorem allow_list_not_spoofable_witness:
  "\<exists>al status. NewIPAllowLister demo_lib demo_allow = Ok al \<and> ipAllowLister_ServeHTTP demo_lib al demo_seen = Ok (Some status)"
proof -
  obtain al where al: "NewIPAllowLister demo_lib demo_allow = Ok al" "al_strategy al = DepthStrategy 1 None"
    by (simp add: NewIPAllowLister_def demo_allow_def demo_lib_def NewChecker_def IPStrategy_Get_def valid_subnet_def)
  have "seen_as (XForwarded_ServeHTTP demo_lib (\<lambda>_ _. False) demo_forwarded demo_spoofed) demo_seen"
    by (simp add: seen_as_def demo_seen_def XForwarded_fields) (simp add: demo_spoofed_def)
  moreover have "\<not> insecure demo_forwarded" "\<not> isTrustedIP demo_lib demo_forwarded (reqRemoteAddr demo_spoofed)" "ParseAddr demo_lib [] = None"
    by (simp_all add: demo_forwarded_def isTrustedIP_def demo_lib_def)
  ultimately obtain ans where "ipAllowLister_ServeHTTP demo_lib al demo_seen = Ok ans" "ans \<noteq> None"
    using allow_list_not_spoofable [OF al(1)] al(2) by force
  then show ?thesis using al(1) by auto
qed

end
