(* ===== verification/Float64.thy ===== *)
theory Float64
  imports Complex_Main "HOL-Library.Log_Nat" "HOL-Library.Code_Target_Nat"
begin

section \<open>Rounding of \<open>float64\<close>\<close>

text \<open>
  The load balancers compute with \<open>float64\<close>. A finite value is the rational number it denotes, and each operation of the language is the exact
  operation followed by \<open>fl\<close>, the rounding of IEEE 754: to the nearest number with 53 significant bits and at least 2 to the power -1074,
  ties to even. Overflow is not part of it: the values of the balancers stay far below the largest number, which the
  users of the theory prove or assume.

  The lemmas are the laws that the schedules rely on: rounding is monotone, keeps what is representable, errs by at most half a
  unit in the last place, and does not absorb a summand of at least one such unit.
\<close>

text \<open>The exponent of a positive number.\<close>

definition binade :: "rat \<Rightarrow> int" where
  "binade x =
     (let (p, q) = quotient_of x; e = int (floorlog 2 (nat p)) - int (floorlog 2 (nat q))
      in if 2 powi e \<le> x then e else e - 1)"

definition quantum_exp :: "rat \<Rightarrow> int" where
  "quantum_exp x = max (binade x - 52) (- 1074)"

definition quantum :: "rat \<Rightarrow> rat" where
  "quantum x = 2 powi quantum_exp x"

text \<open>The nearest integer, of two the even one.\<close>

definition rne :: "rat \<Rightarrow> int" where
  "rne x =
     (let f = \<lfloor>x\<rfloor>; r = x - of_int f
      in if r < 1 / 2 then f else if r > 1 / 2 then f + 1 else if even f then f else f + 1)"

definition fl_pos :: "rat \<Rightarrow> rat" where
  "fl_pos x = of_int (rne (x / quantum x)) * quantum x"

definition fl :: "rat \<Rightarrow> rat" where
  "fl x = (if x < 0 then - fl_pos (- x) else fl_pos x)"

subsection \<open>Integers\<close>

lemma rne_bounds: "\<lfloor>x\<rfloor> \<le> rne x" "rne x \<le> \<lfloor>x\<rfloor> + 1"
  by (auto simp: rne_def Let_def)

lemma rne_err: "\<bar>of_int (rne x) - x\<bar> \<le> 1 / 2"
proof -
  define r where "r = x - of_int \<lfloor>x\<rfloor>"
  have "0 \<le> r" "r < 1" using floor_correct [of x] by (simp_all add: r_def)
  moreover have "x = of_int \<lfloor>x\<rfloor> + r" by (simp add: r_def)
  ultimately show ?thesis by (auto simp: rne_def Let_def abs_if r_def [symmetric])
qed

lemma rne_of_int [simp]: "rne (of_int n) = n"
  by (simp add: rne_def)

lemma rne_mono:
  assumes "x \<le> y"
  shows "rne x \<le> rne y"
proof (cases "\<lfloor>x\<rfloor> = \<lfloor>y\<rfloor>")
  case True
  then show ?thesis using assms by (auto simp: rne_def Let_def)
next
  case False
  then have "\<lfloor>x\<rfloor> + 1 \<le> \<lfloor>y\<rfloor>" using floor_mono [OF assms] by linarith
  then show ?thesis using rne_bounds(2) [of x] rne_bounds(1) [of y] by linarith
qed

subsection \<open>Exponents\<close>

lemma pow2_pos [simp]: "0 < (2 :: rat) powi j"
  by (simp add: zero_less_power_int)

lemma pow2_add: "(2 :: rat) powi (i + j) = 2 powi i * 2 powi j"
  by (simp add: power_int_add)

lemma pow2_le: "(2 :: rat) powi i \<le> 2 powi j \<longleftrightarrow> i \<le> j"
proof
  assume "(2 :: rat) powi i \<le> 2 powi j"
  then show "i \<le> j" using power_int_strict_increasing [of j i "2 :: rat"] by (cases "i \<le> j") simp_all
qed (simp add: power_int_increasing)

lemma pow2_less: "(2 :: rat) powi i < 2 powi j \<longleftrightarrow> i < j"
  by (metis pow2_le linorder_not_le)

lemma floorlog_powi:
  assumes "0 < p"
  shows "2 powi (int (floorlog 2 (nat p)) - 1) \<le> (of_int p :: rat)" "(of_int p :: rat) < 2 powi int (floorlog 2 (nat p))"
proof -
  let ?n = "nat p" and ?k = "floorlog 2 (nat p)"
  have n: "0 < ?n" "of_int p = (of_nat ?n :: rat)" using assms by simp_all
  have b: "2 ^ (?k - 1) \<le> ?n" "?n < 2 ^ ?k" using floorlog_bounds [of ?n 2] n(1) by auto
  have "0 < ?k" using n(1) by (simp add: floorlog_def)
  then have "int ?k - 1 = int (?k - 1)" by simp
  then have "(2 :: rat) powi (int ?k - 1) = of_nat (2 ^ (?k - 1))" by (simp only: power_int_of_nat of_nat_power of_nat_numeral)
  also have "\<dots> \<le> of_nat ?n" using b(1) by (simp only: of_nat_le_iff)
  finally show "2 powi (int ?k - 1) \<le> (of_int p :: rat)" by (simp only: n(2))
  have "(of_nat ?n :: rat) < of_nat (2 ^ ?k)" using b(2) by (simp only: of_nat_less_iff)
  then show "(of_int p :: rat) < 2 powi int ?k" by (simp only: n(2) power_int_of_nat of_nat_power of_nat_numeral)
qed

lemma binade_bounds:
  assumes "0 < x"
  shows "2 powi binade x \<le> x" "x < 2 powi (binade x + 1)"
proof -
  obtain p q where pq: "quotient_of x = (p, q)" by fastforce
  have x: "x = of_int p / of_int q" "0 < q" using pq quotient_of_div quotient_of_denom_pos by auto
  then have p: "0 < p" using assms by (simp add: zero_less_divide_iff)
  let ?P = "int (floorlog 2 (nat p))" and ?Q = "int (floorlog 2 (nat q))"
  have q0: "0 < (of_int q :: rat)" using x(2) by simp
  note P = floorlog_powi [OF p] and Q = floorlog_powi [OF x(2)]
  have "x < 2 powi ?P / of_int q" using P(2) q0 x(1) by (simp add: divide_strict_right_mono)
  also have "\<dots> \<le> 2 powi ?P / 2 powi (?Q - 1)" using Q(1) q0 by (intro divide_left_mono mult_pos_pos) simp_all
  also have "\<dots> = 2 powi (?P - ?Q + 1)" by (simp add: power_int_diff power_int_add)
  finally have hi: "x < 2 powi (?P - ?Q + 1)" .
  have "2 powi (?P - ?Q - 1) = (2 :: rat) powi (?P - 1) / 2 powi ?Q" by (simp add: power_int_diff)
  also have "\<dots> \<le> 2 powi (?P - 1) / of_int q" using Q(2) q0 by (intro divide_left_mono mult_pos_pos) simp_all
  also have "\<dots> \<le> x" using P(1) q0 x(1) by (simp add: divide_right_mono)
  finally have lo: "2 powi (?P - ?Q - 1) \<le> x" .
  show "2 powi binade x \<le> x" "x < 2 powi (binade x + 1)"
    using hi lo by (auto simp: binade_def pq Let_def)
qed

lemma binade_less: "0 < x \<Longrightarrow> x < 2 powi j \<Longrightarrow> binade x < j"
  using binade_bounds(1) [of x] pow2_less [of "binade x" j] by linarith

lemma binade_ge: "2 powi j \<le> x \<Longrightarrow> j \<le> binade x"
  using binade_bounds(2) [of x] pow2_less [of j "binade x + 1"] pow2_pos [of j] by linarith

lemma binade_mono: "0 < x \<Longrightarrow> x \<le> y \<Longrightarrow> binade x \<le> binade y"
  using binade_bounds(1) [of x] by (intro binade_ge) linarith

subsection \<open>Multiples of the last place\<close>

lemma quantum_pos [simp]: "0 < quantum x" "quantum x \<noteq> 0"
  by (simp_all add: quantum_def)

definition min_quantum :: rat where
  "min_quantum = 2 powi (- 1074)"

lemma min_quantum: "0 < min_quantum" "min_quantum \<le> quantum x"
  unfolding min_quantum_def quantum_def quantum_exp_def pow2_le by (rule pow2_pos, rule max.cobounded2)

lemma fl_0 [simp]: "fl 0 = 0"
  using rne_of_int [of 0] by (simp add: fl_def fl_pos_def)

lemma fl_grid_le: "0 \<le> x \<Longrightarrow> x \<le> of_int k * quantum x \<Longrightarrow> fl x \<le> of_int k * quantum x"
  using rne_mono [of "x / quantum x" "of_int k"] by (simp add: fl_def fl_pos_def divide_le_eq)

lemma fl_grid_ge: "0 \<le> x \<Longrightarrow> of_int k * quantum x \<le> x \<Longrightarrow> of_int k * quantum x \<le> fl x"
  using rne_mono [of "of_int k" "x / quantum x"] by (simp add: fl_def fl_pos_def le_divide_eq)

lemma pow2_multiple:
  assumes "i \<le> j"
  obtains k :: int where "(2 :: rat) powi j = of_int k * 2 powi i" "0 < k"
proof
  have "(2 :: rat) powi j = 2 powi (j - i) * 2 powi i" by (simp add: power_int_add [symmetric])
  also have "2 powi (j - i) = (of_int (2 ^ nat (j - i)) :: rat)" using assms by (simp add: power_int_def)
  finally show "(2 :: rat) powi j = of_int (2 ^ nat (j - i)) * 2 powi i" .
qed simp

lemma quantum_exp_le: "0 < x \<Longrightarrow> x < 2 powi (j + 53) \<Longrightarrow> - 1074 \<le> j \<Longrightarrow> quantum_exp x \<le> j"
  using binade_less [of x "j + 53"] by (simp add: quantum_exp_def)

text \<open>Numbers of at most 53 bits are kept.\<close>

lemma fl_multiple:
  assumes "quantum_exp x \<le> j" "x = of_int k * 2 powi j" "0 \<le> x"
  shows "fl x = x"
proof -
  obtain m :: int where "(2 :: rat) powi j = of_int m * 2 powi quantum_exp x" by (rule pow2_multiple [OF assms(1)])
  then have "x = of_int (k * m) * quantum x" using assms(2) by (simp add: quantum_def mult.assoc)
  then have "fl x \<le> x" "x \<le> fl x"
    using fl_grid_le [OF assms(3), of "k * m"] fl_grid_ge [OF assms(3), of "k * m"] by simp_all
  then show ?thesis by simp
qed

lemma fl_representable:
  assumes "0 \<le> k" "k \<le> 2 ^ 53" "- 1074 \<le> j"
  shows "fl (of_int k * 2 powi j) = of_int k * 2 powi j"
proof -
  let ?x = "of_int k * 2 powi j :: rat"
  consider "k = 0" | "0 < k" "k < 2 ^ 53" | "k = 2 ^ 53" using assms by linarith
  then show ?thesis
  proof cases
    case 2
    then have "(of_int k :: rat) < of_int (2 ^ 53)" by (simp only: of_int_less_iff)
    then have "?x < 2 powi (j + 53)" by (simp add: power_int_add mult.commute)
    then show ?thesis using 2 assms(3) quantum_exp_le [of ?x j] by (intro fl_multiple [of _ j k]) (auto simp: less_imp_le)
  next
    case 3
    have "?x = of_int (2 ^ 52) * 2 powi (j + 1)" by (simp add: 3 power_int_add)
    moreover have "?x < 2 powi (j + 1 + 53)" by (simp add: 3 power_int_add)
    ultimately show ?thesis
      using assms(3) quantum_exp_le [of ?x "j + 1"] by (intro fl_multiple [of _ "j + 1" "2 ^ 52"]) (auto simp: 3)
  qed simp
qed

lemma fl_of_int: "0 \<le> k \<Longrightarrow> k \<le> 2 ^ 53 \<Longrightarrow> fl (of_int k) = of_int k"
  using fl_representable [of k 0] by simp

lemma fl_pow2: "- 1074 \<le> j \<Longrightarrow> fl (2 powi j) = 2 powi j"
  using fl_representable [of 1 j] by simp

lemma fl_1 [simp]: "fl 1 = 1"
  using fl_of_int [of 1] by simp

subsection \<open>Monotonicity\<close>

lemma fl_ge_pow2:
  assumes "2 powi j \<le> x" "- 1074 \<le> j"
  shows "2 powi j \<le> fl x"
proof -
  have x: "0 < x" using assms(1) pow2_pos [of j] by linarith
  have j: "j \<le> binade x" by (rule binade_ge [OF assms(1)])
  then have "quantum_exp x \<le> binade x" using assms(2) by (simp add: quantum_exp_def)
  then obtain k where k: "(2 :: rat) powi binade x = of_int k * 2 powi quantum_exp x" by (rule pow2_multiple)
  then have "2 powi binade x \<le> fl x"
    using fl_grid_ge [of x k] binade_bounds(1) [OF x] x by (simp add: quantum_def)
  moreover have "(2 :: rat) powi j \<le> 2 powi binade x" using j by (simp add: pow2_le)
  ultimately show ?thesis by simp
qed

lemma fl_le_pow2:
  assumes "x < 2 powi j" "0 \<le> x" "- 1074 \<le> j"
  shows "fl x \<le> 2 powi j"
proof (cases "x = 0")
  case False
  then have "binade x < j" using assms binade_less by simp
  then have "quantum_exp x \<le> j" using assms(3) by (simp add: quantum_exp_def)
  then obtain k where "(2 :: rat) powi j = of_int k * 2 powi quantum_exp x" by (rule pow2_multiple)
  then show ?thesis using fl_grid_le [of x k] assms(1,2) by (simp add: quantum_def)
qed (simp add: less_imp_le)

lemma fl_nonneg: "0 \<le> x \<Longrightarrow> 0 \<le> fl x"
  using fl_grid_ge [of x 0] by simp

lemma fl_mono:
  assumes "0 \<le> x" "x \<le> y"
  shows "fl x \<le> fl y"
proof (cases "x = 0")
  case True
  then show ?thesis using assms fl_nonneg by simp
next
  case False
  then have b: "binade x \<le> binade y" "0 < x" "0 < y" using assms binade_mono [of x y] by auto
  show ?thesis
  proof (cases "quantum_exp x = quantum_exp y")
    case True
    then have "rne (x / quantum x) \<le> rne (y / quantum y)"
      using assms(2) by (intro rne_mono) (simp add: quantum_def divide_right_mono)
    then show ?thesis using True b by (simp add: fl_def fl_pos_def quantum_def)
  next
    case False
    then have j: "binade x < binade y" "- 1074 < binade y - 52" using b(1) by (auto simp: quantum_exp_def max_def split: if_splits)
    then have "x < 2 powi binade y"
      using binade_bounds(2) [OF b(2)] pow2_le [of "binade x + 1" "binade y"] by linarith
    then have "fl x \<le> 2 powi binade y" using j(2) assms(1) by (intro fl_le_pow2) simp_all
    also have "\<dots> \<le> fl y" using j(2) by (intro fl_ge_pow2 binade_bounds(1) b(3)) simp
    finally show ?thesis .
  qed
qed

lemma fl_le_2: "0 \<le> x \<Longrightarrow> x \<le> 2 ^ k \<Longrightarrow> fl x \<le> 2 ^ k"
  using fl_mono [of x "2 ^ k"] fl_pow2 [of "int k"] by simp

text \<open>The weights of servers are positive integers, their periods the inverses.\<close>

lemma float_weight: "0 < w \<Longrightarrow> 1 \<le> fl (of_int w)"
  using fl_mono [of 1 "of_int w"] by simp

lemma period_bounds: "1 \<le> w \<Longrightarrow> 0 \<le> fl (1 / w) \<and> fl (1 / w) \<le> 1"
  using fl_mono [of "1 / w" 1] fl_nonneg [of "1 / w"] by simp

subsection \<open>Results are representable\<close>

lemma quantum_scale:
  assumes "0 < x"
  shows "x < of_int (2 ^ 53) * quantum x"
proof -
  have "x < 2 powi (binade x + 1)" by (rule binade_bounds(2) [OF assms])
  also have "\<dots> \<le> 2 powi (53 + quantum_exp x)" by (simp add: pow2_le quantum_exp_def)
  finally show ?thesis by (simp add: quantum_def power_int_add)
qed

lemma fl_form:
  assumes "0 \<le> x"
  obtains k where "fl x = of_int k * quantum x" "0 \<le> k" "k \<le> 2 ^ 53"
proof (cases "x = 0")
  case True
  then show ?thesis using that [of 0] by simp
next
  case False
  let ?k = "rne (x / quantum x)"
  have q: "0 \<le> x / quantum x" "x / quantum x \<le> of_int (2 ^ 53)"
    using assms quantum_scale [of x] False by (simp_all add: divide_le_eq less_imp_le)
  have "0 \<le> ?k" "?k \<le> 2 ^ 53" using rne_mono [OF q(1)] rne_mono [OF q(2)] rne_of_int [of 0] rne_of_int [of "2 ^ 53"] by simp_all
  then show ?thesis using that [of ?k] assms by (simp add: fl_def fl_pos_def)
qed

lemma fl_idem [simp]:
  assumes "0 \<le> x"
  shows "fl (fl x) = fl x"
proof -
  obtain k where k: "fl x = of_int k * quantum x" "0 \<le> k" "k \<le> 2 ^ 53" by (rule fl_form [OF assms])
  show ?thesis unfolding k(1) quantum_def by (rule fl_representable [OF k(2,3)]) (simp add: quantum_exp_def)
qed

subsection \<open>Errors\<close>

lemma fl_err: "0 \<le> x \<Longrightarrow> \<bar>fl x - x\<bar> \<le> quantum x / 2"
proof -
  assume "0 \<le> x"
  then have "fl x - x = (of_int (rne (x / quantum x)) - x / quantum x) * quantum x"
    by (simp add: fl_def fl_pos_def left_diff_distrib)
  then have "\<bar>fl x - x\<bar> = \<bar>of_int (rne (x / quantum x)) - x / quantum x\<bar> * quantum x"
    by (simp add: abs_mult less_imp_le)
  also have "\<dots> \<le> 1 / 2 * quantum x" by (intro mult_right_mono rne_err) (simp add: less_imp_le)
  finally show ?thesis by simp
qed

text \<open>Above the subnormal numbers the error is relative, to the exact number and to the result.\<close>

lemma quantum_rel:
  assumes "2 powi (- 1022) \<le> x"
  shows "quantum x = 2 powi binade x / 2 ^ 52"
proof -
  have "- 1022 \<le> binade x" by (rule binade_ge [OF assms])
  then have "quantum x = 2 powi (binade x - 52)" by (simp add: quantum_def quantum_exp_def)
  then show ?thesis by (simp add: power_int_diff)
qed

lemma fl_rel:
  assumes "2 powi (- 1022) \<le> x"
  shows "\<bar>fl x - x\<bar> \<le> x / 2 ^ 53" "\<bar>fl x - x\<bar> \<le> fl x / 2 ^ 53"
proof -
  have x: "0 < x" using assms pow2_pos [of "- 1022"] by linarith
  have b: "2 powi binade x \<le> x" by (rule binade_bounds(1) [OF x])
  have "2 powi binade x \<le> fl x" using binade_ge [OF assms] by (intro fl_ge_pow2 b) simp
  moreover have "\<bar>fl x - x\<bar> \<le> 2 powi binade x / 2 ^ 53"
    using fl_err [of x] x by (simp add: quantum_rel [OF assms])
  ultimately show "\<bar>fl x - x\<bar> \<le> x / 2 ^ 53" "\<bar>fl x - x\<bar> \<le> fl x / 2 ^ 53" using b by simp_all
qed

text \<open>The result is the number of the grid that is less than half a unit away.\<close>

lemma rne_near:
  assumes "\<bar>x - of_int k\<bar> < 1 / 2"
  shows "rne x = k"
proof -
  have "\<bar>of_int (rne x) - of_int k :: rat\<bar> < 1" using rne_err [of x] assms by linarith
  then have "\<bar>of_int (rne x - k) :: rat\<bar> < of_int 1" by simp
  then show ?thesis by (simp only: of_int_abs [symmetric] of_int_less_iff)
qed

lemma fl_near:
  assumes "2 powi e \<le> x" "x < 2 powi (e + 1)" "- 1022 \<le> e" "\<bar>x - of_int k * 2 powi (e - 52)\<bar> < 2 powi (e - 52) / 2"
  shows "fl x = of_int k * 2 powi (e - 52)"
proof -
  have x: "0 < x" using assms(1) pow2_pos [of e] by linarith
  have "binade x = e" using binade_ge [OF assms(1)] binade_less [OF x assms(2)] by simp
  then have q: "quantum x = 2 powi (e - 52)" using assms(3) by (simp add: quantum_def quantum_exp_def)
  have "x / quantum x - of_int k = (x - of_int k * quantum x) / quantum x"
    by (simp add: diff_divide_distrib)
  then have "\<bar>x / quantum x - of_int k\<bar> = \<bar>x - of_int k * quantum x\<bar> / quantum x"
    by (simp add: abs_divide less_imp_le)
  also have "\<dots> < quantum x / 2 / quantum x" using assms(4) by (intro divide_strict_right_mono) (simp_all add: q)
  finally have "rne (x / quantum x) = k" by (intro rne_near) simp
  then show ?thesis using x by (simp add: fl_def fl_pos_def q)
qed

text \<open>A summand below half of the last place disappears.\<close>

lemma fl_absorbs: "fl (2 ^ 33 + 1 / 2 ^ 21) = 2 ^ 33"
proof -
  have "(2 :: rat) powi (33 - 52) = 1 / 2 ^ 19" using power_int_minus_divide [of "2 :: rat" 19] by simp
  then show ?thesis using fl_near [of 33 "2 ^ 33 + 1 / 2 ^ 21" "2 ^ 52"] by simp
qed

subsection \<open>Sums\<close>

text \<open>A sum is not less than a representable summand, and greater if the other one is not below the last place.\<close>

lemma fl_add_ge: "fl x = x \<Longrightarrow> 0 \<le> x \<Longrightarrow> 0 \<le> y \<Longrightarrow> x \<le> fl (x + y)"
  using fl_mono [of x "x + y"] by simp

lemma fl_add_quantum:
  assumes "fl x = x" "0 \<le> x" "quantum x \<le> y"
  shows "x + quantum x \<le> fl (x + y)"
proof -
  obtain k where k: "fl x = of_int k * quantum x" "0 \<le> k" "k \<le> 2 ^ 53" by (rule fl_form [OF assms(2)])
  have "k \<noteq> 2 ^ 53"
  proof
    assume "k = 2 ^ 53"
    then have "x = of_int (2 ^ 53) * quantum x" using k(1) assms(1) by simp
    moreover from this have "0 < x" using quantum_pos(1) [of x] by (metis mult_pos_pos of_int_pos zero_less_numeral zero_less_power)
    ultimately show False using quantum_scale [of x] by simp
  qed
  then have "fl (of_int (k + 1) * 2 powi quantum_exp x) = of_int (k + 1) * 2 powi quantum_exp x"
    using k by (intro fl_representable) (simp_all add: quantum_exp_def)
  moreover have eq: "of_int (k + 1) * 2 powi quantum_exp x = x + quantum x"
    using k(1) assms(1) by (simp add: quantum_def distrib_right)
  ultimately show ?thesis
    using fl_mono [of "x + quantum x" "x + y"] assms(2,3) less_imp_le [OF quantum_pos(1) [of x]] by simp
qed

end
