(* ===== verification/BalancerStatus.thy ===== *)
theory BalancerStatus
  imports Prelude
begin

section \<open>Health of the children of a balancer\<close>

text \<open>
  Every load balancer records which of its children are up, and tells its own parents when it
  goes up or down as a whole. The sources repeat the same two methods in each balancer
  package (\<open>wrr\<close>, \<open>p2c\<close>, \<open>hrw\<close>, \<open>leasttime\<close> and the TCP one); they are modelled once, on a
  record that the state of each balancer extends. A hook (\<open>func(bool)\<close>) is represented by a
  value that names it, and \<open>SetStatus\<close> returns the calls it makes. The packages differ in the message
  of the error of \<open>RegisterStatusUpdater\<close>, which is an argument.

  The locale \<open>status_tracker\<close> is what a balancer promises to those that watch it;
  \<open>status_link\<close> is a child wired to a parent the way the service manager does it, with
  the lemma that the parent's record of the child never goes stale.
\<close>

record 'u children =
  wantsHealthCheck :: bool
  status :: "string set"
  updaters :: "'u list"

definition setStatus ::
  "string \<Rightarrow> bool \<Rightarrow> ('u, 'z) children_scheme \<Rightarrow> ('u, 'z) children_scheme \<times> ('u \<times> bool) list" where
  "setStatus childName up b =
     (let upBefore = status b \<noteq> {};
          b' = b\<lparr>status := if up then insert childName (status b) else status b - {childName}\<rparr>;
          upAfter = status b' \<noteq> {}
      in if upBefore = upAfter then (b', [])
         else (b', map (\<lambda>fn. (fn, upAfter)) (updaters b)))"

definition registerStatusUpdater ::
  "string \<Rightarrow> 'u \<Rightarrow> ('u, 'z) children_scheme \<Rightarrow> ('u, 'z) children_scheme outcome" where
  "registerStatusUpdater msg fn b =
     (if \<not> wantsHealthCheck b then Err msg
      else Ok (b\<lparr>updaters := updaters b @ [fn]\<rparr>))"

text \<open>
  A child may be given new requests when it is up and not fenced, that is, not about to terminate.
  Each balancer tests this in its own loop.
\<close>

definition usable :: "('u, 'z) children_scheme \<Rightarrow> string set \<Rightarrow> string \<Rightarrow> bool" where
  "usable b fenced nm \<longleftrightarrow> nm \<in> status b \<and> nm \<notin> fenced"

text \<open>What \<open>AddServer\<close> takes from the configuration of a server (\<open>dynamic.Server\<close>).\<close>

record dynServer =
  srvWeight :: "int option"
  srvFenced :: bool

subsection \<open>What a balancer promises to its parents\<close>

locale status_tracker =
  fixes SetStatus :: "string \<Rightarrow> bool \<Rightarrow> 'b \<Rightarrow> 'b \<times> ('u \<times> bool) list"
    and up :: "'b \<Rightarrow> string set"
    and hooks :: "'b \<Rightarrow> 'u list"
  assumes up_SetStatus: "up (fst (SetStatus c s b)) = (if s then insert c (up b) else up b - {c})"
    and hooks_SetStatus: "hooks (fst (SetStatus c s b)) = hooks b"
    and calls_SetStatus: "snd (SetStatus c s b) =
      (if (up b = {}) = (up (fst (SetStatus c s b)) = {}) then []
       else map (\<lambda>u. (u, up (fst (SetStatus c s b)) \<noteq> {})) (hooks b))"
begin

text \<open>A sequence of status reports, with all the calls it causes.\<close>

fun reports :: "(string \<times> bool) list \<Rightarrow> 'b \<Rightarrow> 'b \<times> ('u \<times> bool) list" where
  "reports [] b = (b, [])"
| "reports ((c, s) # es) b =
     (let (b1, calls) = SetStatus c s b; (b2, calls') = reports es b1 in (b2, calls @ calls'))"

text \<open>The last thing a hook has been told, if anything.\<close>

definition told :: "'u \<Rightarrow> bool \<Rightarrow> ('u \<times> bool) list \<Rightarrow> bool" where
  "told u before calls = fold (\<lambda>(v, s) x. if v = u then s else x) calls before"

lemma told_append: "told u x (cs @ ds) = told u (told u x cs) ds"
  by (simp add: told_def)

lemma told_map: "told u x (map (\<lambda>v. (v, s)) vs) = (if u \<in> set vs then s else x)"
  by (induction vs arbitrary: x) (auto simp: told_def)

lemma told_SetStatus:
  "u \<in> set (hooks b) \<Longrightarrow> told u (up b \<noteq> {}) (snd (SetStatus c s b)) = (up (fst (SetStatus c s b)) \<noteq> {})"
  unfolding calls_SetStatus by (auto simp: told_map) (auto simp: told_def)

lemma told_reports:
  "u \<in> set (hooks b) \<Longrightarrow> told u (up b \<noteq> {}) (snd (reports es b)) = (up (fst (reports es b)) \<noteq> {})"
proof (induction es arbitrary: b)
  case (Cons e es)
  obtain c s where e: "e = (c, s)" by (cases e)
  let ?b1 = "fst (SetStatus c s b)"
  have "told u (up ?b1 \<noteq> {}) (snd (reports es ?b1)) = (up (fst (reports es ?b1)) \<noteq> {})"
    using Cons by (simp add: hooks_SetStatus)
  then show ?case
    using told_SetStatus [OF Cons.prems, of c s] by (simp add: e Let_def case_prod_beta told_append)
qed (simp add: told_def)

text \<open>A child is up iff its last report says so.\<close>

lemma up_reports: "c \<in> up (fst (reports es b)) \<longleftrightarrow>
    (case find (\<lambda>p. fst p = c) (rev es) of None \<Rightarrow> c \<in> up b | Some p \<Rightarrow> snd p)"
proof (induction es arbitrary: b)
  case (Cons e es)
  obtain d s where e: "e = (d, s)" by (cases e)
  have "find P (xs @ [x]) = (case find P xs of None \<Rightarrow> if P x then Some x else None | Some y \<Rightarrow> Some y)"
    for P :: "string \<times> bool \<Rightarrow> bool" and xs x
    by (induction xs) auto
  then show ?case
    using Cons [of "fst (SetStatus d s b)"]
    by (auto simp: e Let_def case_prod_beta up_SetStatus split: option.splits if_splits)
qed simp

end

subsection \<open>A child wired to its parent\<close>

text \<open>
  The service manager registers on each child a hook that calls \<open>SetStatus\<close> of the parent with the
  child's name. \<open>deliver\<close> applies the calls of that hook to the parent.
\<close>

locale status_link =
  child: status_tracker SetStatus1 up1 hooks1 + parent: status_tracker SetStatus2 up2 hooks2
  for SetStatus1 :: "string \<Rightarrow> bool \<Rightarrow> 'b \<Rightarrow> 'b \<times> ('u \<times> bool) list" and up1 hooks1
    and SetStatus2 :: "string \<Rightarrow> bool \<Rightarrow> 'p \<Rightarrow> 'p \<times> ('v \<times> bool) list" and up2 hooks2
begin

fun deliver :: "'u \<Rightarrow> string \<Rightarrow> ('u \<times> bool) list \<Rightarrow> 'p \<Rightarrow> 'p" where
  "deliver u name [] p = p"
| "deliver u name ((v, s) # calls) p =
     deliver u name calls (if v = u then fst (SetStatus2 name s p) else p)"

lemma deliver_told: "name \<in> up2 (deliver u name calls p) \<longleftrightarrow> child.told u (name \<in> up2 p) calls"
  by (induction u name calls p rule: deliver.induct)
    (auto simp: child.told_def parent.up_SetStatus)

lemma parent_in_sync:
  assumes "u \<in> set (hooks1 b)" "name \<in> up2 p \<longleftrightarrow> up1 b \<noteq> {}"
  shows "name \<in> up2 (deliver u name (snd (child.reports es b)) p) \<longleftrightarrow> up1 (fst (child.reports es b)) \<noteq> {}"
  using child.told_reports [OF assms(1)] by (simp add: deliver_told assms(2))

end

subsection \<open>The shared methods keep the promise\<close>

interpretation children: status_tracker setStatus status updaters
  by unfold_locales (auto simp: setStatus_def Let_def)

end
