(* ===== verification/GoHeap.thy ===== *)
theory GoHeap
  imports Prelude
begin

section \<open>Binary heaps (\<open>container/heap\<close>)\<close>

text \<open>
  The algorithms of the library package \<open>container/heap\<close> on a slice, as the weighted
  round robin balancer uses them: \<open>up\<close> and \<open>down\<close> move an element by index, \<open>heap_Push\<close> and
  \<open>heap_Pop\<close> are the entry points. They are proved to implement the contract
  \<open>priority_queue\<close>: elements are kept as a multiset, the heap order is kept, and the
  element popped is a least one.
\<close>

definition swap :: "'a list \<Rightarrow> nat \<Rightarrow> nat \<Rightarrow> 'a list" where
  "swap h i j = h[i := h ! j, j := h ! i]"

function heap_up :: "('a \<Rightarrow> 'a \<Rightarrow> bool) \<Rightarrow> 'a list \<Rightarrow> nat \<Rightarrow> 'a list" where
  "heap_up lt h j =
     (let i = (j - 1) div 2 in
      if i = j \<or> \<not> lt (h ! j) (h ! i) then h else heap_up lt (swap h i j) i)"
  by auto
termination
  by (relation "measure (\<lambda>(lt, h, j). j)") (auto simp: Let_def)

definition least_child :: "('a \<Rightarrow> 'a \<Rightarrow> bool) \<Rightarrow> 'a list \<Rightarrow> nat \<Rightarrow> nat \<Rightarrow> nat" where
  "least_child lt h j1 n = (if j1 + 1 < n \<and> lt (h ! (j1 + 1)) (h ! j1) then j1 + 1 else j1)"

lemma least_child_bounds: "j1 < n \<Longrightarrow> j1 \<le> least_child lt h j1 n \<and> least_child lt h j1 n < n"
  by (simp add: least_child_def)

function heap_down :: "('a \<Rightarrow> 'a \<Rightarrow> bool) \<Rightarrow> 'a list \<Rightarrow> nat \<Rightarrow> nat \<Rightarrow> 'a list" where
  "heap_down lt h i n =
     (if 2 * i + 1 \<ge> n then h
      else let j = least_child lt h (2 * i + 1) n in
        if \<not> lt (h ! j) (h ! i) then h else heap_down lt (swap h i j) j n)"
  by auto
termination
proof (relation "measure (\<lambda>(lt, h, i, n). n - i)")
  fix lt :: "'a \<Rightarrow> 'a \<Rightarrow> bool" and h :: "'a list" and i n j
  assume "\<not> n \<le> 2 * i + 1" "j = least_child lt h (2 * i + 1) n"
  then have "i < j" "j < n"
    using least_child_bounds [of "2 * i + 1" n lt h] by auto
  then show "((lt, swap h i j, j, n), (lt, h, i, n)) \<in> measure (\<lambda>(lt, h, i, n). n - i)"
    by simp
qed simp

declare heap_up.simps [simp del] heap_down.simps [simp del]

definition heap_Push :: "('a \<Rightarrow> 'a \<Rightarrow> bool) \<Rightarrow> 'a \<Rightarrow> 'a list \<Rightarrow> 'a list" where
  "heap_Push lt x h = heap_up lt (h @ [x]) (length h)"

text \<open>Popping from an empty heap is an index out of range.\<close>

definition heap_Pop :: "('a \<Rightarrow> 'a \<Rightarrow> bool) \<Rightarrow> 'a list \<Rightarrow> ('a \<times> 'a list) option" where
  "heap_Pop lt h =
     (if h = [] then None
      else let n = length h - 1; h' = heap_down lt (swap h 0 n) 0 n in
        Some (h' ! n, take n h'))"

text \<open>The first two positions.\<close>

lemma heap_up_first:
  "heap_up lt h 0 = h"
  "heap_up lt h (Suc 0) = (if lt (h ! 1) (h ! 0) then swap h 0 1 else h)"
  by (simp_all add: heap_up.simps [of lt h "Suc 0"] heap_up.simps [of lt _ 0] Let_def)

subsection \<open>Multisets\<close>

lemma length_swap [simp]: "length (swap h i j) = length h"
  by (simp add: swap_def)

lemma nth_swap:
  "i < length h \<Longrightarrow> j < length h \<Longrightarrow> k < length h \<Longrightarrow>
     swap h i j ! k = (if k = j then h ! i else if k = i then h ! j else h ! k)"
  by (auto simp: swap_def nth_list_update)

lemma mset_swap' [simp]: "i < length h \<Longrightarrow> j < length h \<Longrightarrow> mset (swap h i j) = mset h"
  by (simp add: swap_def mset_swap)

lemma mset_up: "j < length h \<Longrightarrow> mset (heap_up lt h j) = mset h \<and> length (heap_up lt h j) = length h"
proof (induction lt h j rule: heap_up.induct)
  case (1 lt h j)
  then show ?case
    by (subst heap_up.simps) (auto simp: heap_up.simps [of lt h j] Let_def)
qed

lemma down_cases:
  assumes "i < n"
  obtains (leaf) "n \<le> 2 * i + 1" "heap_down lt h i n = h"
  | (stop) j where "j = least_child lt h (2 * i + 1) n" "2 * i + 1 < n" "i < j" "j < n"
      "\<not> lt (h ! j) (h ! i)" "heap_down lt h i n = h"
  | (sink) j where "j = least_child lt h (2 * i + 1) n" "2 * i + 1 < n" "i < j" "j < n"
      "lt (h ! j) (h ! i)" "heap_down lt h i n = heap_down lt (swap h i j) j n"
proof (cases "n \<le> 2 * i + 1")
  case True
  then show ?thesis using leaf by (simp add: heap_down.simps [of lt h i n])
next
  case False
  define j where "j = least_child lt h (2 * i + 1) n"
  have "i < j" "j < n"
    using least_child_bounds [of "2 * i + 1" n lt h] False by (auto simp: j_def)
  then show ?thesis
    using stop [OF j_def] sink [OF j_def] False
    by (cases "lt (h ! j) (h ! i)") (auto simp: heap_down.simps [of lt h i n] j_def Let_def)
qed

lemma down_frame:
  assumes "n \<le> length h" "i < n"
  shows "mset (heap_down lt h i n) = mset h \<and> length (heap_down lt h i n) = length h
    \<and> (\<forall>k. n \<le> k \<longrightarrow> k < length h \<longrightarrow> heap_down lt h i n ! k = h ! k)"
  using assms
proof (induction "n - i" arbitrary: h i rule: less_induct)
  case less
  from less.prems(2) show ?case
  proof (cases rule: down_cases [where lt = lt and h = h])
    case (sink j)
    then show ?thesis
      using less.hyps [of j "swap h i j"] less.prems by (auto simp: nth_swap)
  qed simp_all
qed

subsection \<open>Heap order\<close>

text \<open>No element of the first \<open>n\<close> is less than its parent.\<close>

definition heap_ok :: "('a \<Rightarrow> 'a \<Rightarrow> bool) \<Rightarrow> 'a list \<Rightarrow> nat \<Rightarrow> bool" where
  "heap_ok lt h n \<longleftrightarrow> (\<forall>k. 0 < k \<longrightarrow> k < n \<longrightarrow> \<not> lt (h ! k) (h ! ((k - 1) div 2)))"

text \<open>
  Heap order but for the node \<open>i\<close>, which may be greater than its children (\<open>sinking\<close>) or less than
  its parent (\<open>rising\<close>); its children are already in order with its parent.
\<close>

definition sinking :: "('a \<Rightarrow> 'a \<Rightarrow> bool) \<Rightarrow> 'a list \<Rightarrow> nat \<Rightarrow> nat \<Rightarrow> bool" where
  "sinking lt h n i \<longleftrightarrow>
     (\<forall>k. 0 < k \<longrightarrow> k < n \<longrightarrow> (k - 1) div 2 \<noteq> i \<longrightarrow> \<not> lt (h ! k) (h ! ((k - 1) div 2))) \<and>
     (\<forall>k. 0 < k \<longrightarrow> k < n \<longrightarrow> (k - 1) div 2 = i \<longrightarrow> 0 < i \<longrightarrow> \<not> lt (h ! k) (h ! ((i - 1) div 2)))"

definition rising :: "('a \<Rightarrow> 'a \<Rightarrow> bool) \<Rightarrow> 'a list \<Rightarrow> nat \<Rightarrow> nat \<Rightarrow> bool" where
  "rising lt h n j \<longleftrightarrow>
     (\<forall>k. 0 < k \<longrightarrow> k < n \<longrightarrow> k \<noteq> j \<longrightarrow> \<not> lt (h ! k) (h ! ((k - 1) div 2))) \<and>
     (\<forall>k. 0 < k \<longrightarrow> k < n \<longrightarrow> (k - 1) div 2 = j \<longrightarrow> 0 < j \<longrightarrow> \<not> lt (h ! k) (h ! ((j - 1) div 2)))"

lemma child_index: "0 < k \<Longrightarrow> (k - 1) div 2 = i \<longleftrightarrow> k = 2 * i + 1 \<or> k = 2 * i + 2" for k i :: nat
  by linarith

context strict_weak_order
begin

lemma least_child_least:
  assumes "0 < k" "k < n" "(k - 1) div 2 = i"
  shows "\<not> lt (h ! k) (h ! least_child lt h (2 * i + 1) n)"
proof -
  have "k = 2 * i + 1 \<or> k = 2 * i + 2"
    using assms(1,3) child_index by blast
  then show ?thesis
    using assms(2) asym [of "h ! (2 * i + 2)" "h ! (2 * i + 1)"] asym [of "h ! k" "h ! k"]
    by (auto simp: least_child_def)
qed

lemma sinking_done:
  assumes "sinking lt h n i" "2 * i + 1 < n" "\<not> lt (h ! least_child lt h (2 * i + 1) n) (h ! i)"
  shows "heap_ok lt h n"
  unfolding heap_ok_def
proof (intro allI impI)
  fix k assume k: "0 < k" "k < n"
  show "\<not> lt (h ! k) (h ! ((k - 1) div 2))"
  proof (cases "(k - 1) div 2 = i")
    case True
    then show ?thesis
      using least_child_least [OF k True] assms(3) neg_trans [of "h ! k" "h ! i"] by blast
  next
    case False
    then show ?thesis using assms(1) k by (simp add: sinking_def)
  qed
qed

lemma sinking_step:
  assumes "sinking lt h n i" "j = least_child lt h (2 * i + 1) n" "i < j" "j < n" "n \<le> length h"
    and "2 * i + 1 < n" "lt (h ! j) (h ! i)"
  shows "sinking lt (swap h i j) n j"
proof -
  have pj: "(j - 1) div 2 = i"
    using assms(2,6) by (auto simp: least_child_def)
  have at: "swap h i j ! i = h ! j" "swap h i j ! j = h ! i"
    "\<And>k. k < n \<Longrightarrow> k \<noteq> i \<Longrightarrow> k \<noteq> j \<Longrightarrow> swap h i j ! k = h ! k"
    using assms(3-5) by (auto simp: nth_swap)
  show ?thesis
    unfolding sinking_def
  proof (intro conjI allI impI)
    fix k assume k: "0 < k" "k < n" "(k - 1) div 2 \<noteq> j"
    consider "k = i" | "k = j" | "k \<noteq> i" "k \<noteq> j" "(k - 1) div 2 = i" | "k \<noteq> i" "k \<noteq> j" "(k - 1) div 2 \<noteq> i"
      by blast
    then show "\<not> lt (swap h i j ! k) (swap h i j ! ((k - 1) div 2))"
    proof cases
      case 1
      have "(i - 1) div 2 < n" "(i - 1) div 2 \<noteq> i" "(i - 1) div 2 \<noteq> j"
        using 1 k assms(3,4) by linarith+
      then show ?thesis
        using assms(1,3,4) k 1 pj at by (auto simp: sinking_def)
    next
      case 2
      then show ?thesis using pj at asym [OF assms(7)] by simp
    next
      case 3
      then show ?thesis
        using least_child_least [OF k(1,2) 3(3)] at k assms(2) by simp
    next
      case 4
      then show ?thesis
        using assms(1) k at(3) [of k] at(3) [of "(k - 1) div 2"]
        by (auto simp: sinking_def)
    qed
  next
    fix k assume k: "0 < k" "k < n" "(k - 1) div 2 = j" "0 < j"
    have "k \<noteq> i" "k \<noteq> j" "j \<noteq> i"
      using k assms(3) by linarith+
    moreover have "\<not> lt (h ! k) (h ! j)"
      using assms(1) k \<open>j \<noteq> i\<close> by (auto simp: sinking_def)
    ultimately show "\<not> lt (swap h i j ! k) (swap h i j ! ((j - 1) div 2))"
      using pj at(1) at(3) [OF k(2)] by simp
  qed
qed

lemma down_heap:
  assumes "sinking lt h n i" "i < n" "n \<le> length h"
  shows "heap_ok lt (heap_down lt h i n) n"
  using assms
proof (induction "n - i" arbitrary: h i rule: less_induct)
  case less
  from less.prems(2) show ?case
  proof (cases rule: down_cases [where lt = lt and h = h])
    case leaf
    then have "(k - 1) div 2 \<noteq> i" if "0 < k" "k < n" for k
      using that by (auto simp: child_index)
    then show ?thesis
      using less.prems leaf by (simp add: heap_ok_def sinking_def)
  next
    case (stop j)
    then show ?thesis using sinking_done less.prems by simp
  next
    case (sink j)
    then show ?thesis
      using less.hyps [of j "swap h i j"] sinking_step [of h n i j] less.prems by simp
  qed
qed

end

context strict_weak_order
begin

lemma rising_step:
  assumes "rising lt h n j" "0 < j" "j < n" "n \<le> length h" "lt (h ! j) (h ! ((j - 1) div 2))"
  shows "rising lt (swap h ((j - 1) div 2) j) n ((j - 1) div 2)"
proof -
  define i where "i = (j - 1) div 2"
  have ij: "i < j" "i < n"
    using assms(2,3) by (auto simp: i_def)
  have at: "swap h i j ! i = h ! j" "swap h i j ! j = h ! i"
    "\<And>k. k < n \<Longrightarrow> k \<noteq> i \<Longrightarrow> k \<noteq> j \<Longrightarrow> swap h i j ! k = h ! k"
    using ij assms(3,4) by (auto simp: nth_swap)
  have sibling: "\<not> lt (h ! k) (h ! j)" if "0 < k" "k < n" "k \<noteq> j" "(k - 1) div 2 = i" for k
  proof -
    have "\<not> lt (h ! k) (h ! i)"
      using that assms(1) unfolding rising_def by metis
    moreover have "\<not> lt (h ! i) (h ! j)"
      using asym [OF assms(5)] by (simp add: i_def)
    ultimately show ?thesis
      using neg_trans [of "h ! k" "h ! j" "h ! i"] by blast
  qed
  have up: "\<not> lt (h ! i) (h ! ((i - 1) div 2))" if "0 < i"
    using that assms(1) ij by (auto simp: rising_def)
  have "rising lt (swap h i j) n i"
    unfolding rising_def
  proof (intro conjI allI impI)
    fix k assume k: "0 < k" "k < n" "k \<noteq> i"
    consider "k = j" | "k \<noteq> j" "(k - 1) div 2 = i" | "k \<noteq> j" "(k - 1) div 2 = j"
      | "k \<noteq> j" "(k - 1) div 2 \<noteq> i" "(k - 1) div 2 \<noteq> j" by blast
    then show "\<not> lt (swap h i j ! k) (swap h i j ! ((k - 1) div 2))"
    proof cases
      case 1
      moreover have "(j - 1) div 2 = i" by (simp add: i_def)
      ultimately show ?thesis using asym [OF assms(5)] at by simp
    next
      case 2
      then show ?thesis using sibling [OF k(1,2)] at k by simp
    next
      case 3
      then have "\<not> lt (h ! k) (h ! i)"
        using assms(1,2) k by (auto simp: rising_def i_def)
      then show ?thesis using 3 at k by simp
    next
      case 4
      moreover have "(k - 1) div 2 < n" using k by linarith
      ultimately show ?thesis using assms(1) k at(3) by (auto simp: rising_def)
    qed
  next
    fix k assume k: "0 < k" "k < n" "(k - 1) div 2 = i" "0 < i"
    have p: "(i - 1) div 2 < n" "(i - 1) div 2 \<noteq> i" "(i - 1) div 2 \<noteq> j" "k \<noteq> i"
      using k ij by linarith+
    show "\<not> lt (swap h i j ! k) (swap h i j ! ((i - 1) div 2))"
    proof (cases "k = j")
      case True
      then show ?thesis using up k at p by simp
    next
      case False
      then have "\<not> lt (h ! k) (h ! i)"
        using assms(1) k by (auto simp: rising_def)
      then have "\<not> lt (h ! k) (h ! ((i - 1) div 2))"
        using up [OF k(4)] neg_trans [of "h ! k" "h ! ((i - 1) div 2)" "h ! i"] by blast
      then show ?thesis using False at k p by simp
    qed
  qed
  then show ?thesis by (simp add: i_def)
qed

lemma up_heap:
  assumes "rising lt h n j" "j < n" "n \<le> length h"
  shows "heap_ok lt (heap_up lt h j) n"
  using assms
proof (induction j arbitrary: h rule: less_induct)
  case (less j)
  let ?i = "(j - 1) div 2"
  show ?case
  proof (cases "?i = j \<or> \<not> lt (h ! j) (h ! ?i)")
    case True
    have "\<not> lt (h ! k) (h ! ((k - 1) div 2))" if "0 < k" "k < n" for k
      using that True less.prems(1) by (cases "k = j") (auto simp: rising_def)
    then show ?thesis
      using True by (simp add: heap_up.simps [of lt h j] heap_ok_def)
  next
    case False
    then have "0 < j" by (cases j) auto
    then have "rising lt (swap h ?i j) n ?i" "?i < j" "?i < n"
      using rising_step [OF less.prems(1) _ less.prems(2,3)] False less.prems(2) by auto
    then show ?thesis
      using less.IH [of ?i "swap h ?i j"] less.prems(3) False by (simp add: heap_up.simps [of lt h j] Let_def)
  qed
qed

lemma root_least:
  assumes "heap_ok lt h n" "k < n"
  shows "\<not> lt (h ! k) (h ! 0)"
  using assms(2)
proof (induction k rule: less_induct)
  case (less k)
  show ?case
  proof (cases "k = 0")
    case True
    then show ?thesis using asym by blast
  next
    case False
    then have "\<not> lt (h ! k) (h ! ((k - 1) div 2))" "(k - 1) div 2 < k"
      using assms(1) less.prems by (auto simp: heap_ok_def)
    then show ?thesis
      using less.IH [of "(k - 1) div 2"] less.prems neg_trans [of "h ! k" "h ! 0" "h ! ((k - 1) div 2)"] by auto
  qed
qed

end

subsection \<open>The contract of a priority queue\<close>

locale priority_queue = strict_weak_order lt
  for lt :: "'a \<Rightarrow> 'a \<Rightarrow> bool" +
  fixes push :: "'a \<Rightarrow> 'a list \<Rightarrow> 'a list" and pop :: "'a list \<Rightarrow> ('a \<times> 'a list) option"
    and ok :: "'a list \<Rightarrow> bool"
  assumes ok_empty: "ok []"
    and ok_push: "ok h \<Longrightarrow> ok (push x h)"
    and mset_push: "mset (push x h) = add_mset x (mset h)"
    and pop_empty: "pop h = None \<longleftrightarrow> h = []"
    and pop_least: "ok h \<Longrightarrow> pop h = Some (x, h') \<Longrightarrow>
      ok h' \<and> mset h = add_mset x (mset h') \<and> (\<forall>y \<in> set h. \<not> lt y x)"

context strict_weak_order
begin

lemma heap_Push_ok:
  assumes "heap_ok lt h (length h)"
  shows "heap_ok lt (heap_Push lt x h) (length (heap_Push lt x h))"
proof -
  have "rising lt (h @ [x]) (length (h @ [x])) (length h)"
    using assms unfolding rising_def heap_ok_def
  proof (intro conjI allI impI)
    fix k assume k: "0 < k" "k < length (h @ [x])" "k \<noteq> length h"
    then have "k < length h" "(k - 1) div 2 < length h" by auto
    then show "\<not> lt ((h @ [x]) ! k) ((h @ [x]) ! ((k - 1) div 2))"
      using assms k by (simp add: heap_ok_def nth_append)
  next
    fix k assume "0 < k" "k < length (h @ [x])" "(k - 1) div 2 = length h"
    then show "\<not> lt ((h @ [x]) ! k) ((h @ [x]) ! ((length h - 1) div 2))" by simp
  qed
  then have "heap_ok lt (heap_up lt (h @ [x]) (length h)) (length (h @ [x]))"
    by (rule up_heap) simp_all
  then show ?thesis
    using mset_up [of "length h" "h @ [x]" lt] by (simp add: heap_Push_def)
qed

lemma heap_Pop_ok:
  assumes "heap_ok lt h (length h)" "heap_Pop lt h = Some (x, h')"
  shows "heap_ok lt h' (length h') \<and> mset h = add_mset x (mset h') \<and> (\<forall>y \<in> set h. \<not> lt y x)"
proof -
  define n where "n = length h - 1"
  define g where "g = heap_down lt (swap h 0 n) 0 n"
  have h: "h \<noteq> []" "x = g ! n" "h' = take n g" "n < length h"
    using assms(2) by (auto simp: heap_Pop_def n_def g_def Let_def split: if_splits)
  have frame: "mset g = mset h \<and> length g = length h \<and> g ! n = h ! 0 \<and> heap_ok lt g n"
  proof (cases "n = 0")
    case True
    then have "g = h"
      using h(1) by (simp add: g_def swap_def heap_down.simps)
    then show ?thesis
      using True by (simp add: heap_ok_def)
  next
    case False
    have "sinking lt (swap h 0 n) n 0"
      unfolding sinking_def
    proof (intro conjI allI impI)
      fix k assume k: "0 < k" "k < n" "(k - 1) div 2 \<noteq> 0"
      have "(k - 1) div 2 < n" using k by linarith
      then have "swap h 0 n ! k = h ! k" "swap h 0 n ! ((k - 1) div 2) = h ! ((k - 1) div 2)"
        using nth_swap [of 0 h n k] nth_swap [of 0 h n "(k - 1) div 2"] h(1,4) k by auto
      then show "\<not> lt (swap h 0 n ! k) (swap h 0 n ! ((k - 1) div 2))"
        using assms(1) h(4) k by (simp add: heap_ok_def)
    qed simp
    then have "heap_ok lt g n"
      using down_heap [of "swap h 0 n" n 0] h(4) False by (simp add: g_def)
    then show ?thesis
      using down_frame [of n "swap h 0 n" 0 lt] h(1,4) False by (auto simp: g_def nth_swap)
  qed
  have "length g = Suc n"
    using frame h(4) by (simp add: n_def)
  then have "g = h' @ [x]"
    unfolding h(2,3) by (metis lessI order_refl take_Suc_conv_app_nth take_all)
  then have "mset h = add_mset x (mset h')"
    using frame by (metis mset.simps mset_append union_mset_add_mset_right add_0_right)
  moreover have "heap_ok lt h' (length h')"
    using frame h(3,4) by (auto simp: heap_ok_def)
  moreover have "\<forall>y \<in> set h. \<not> lt y x"
    using root_least [OF assms(1)] frame h(2) by (auto simp: in_set_conv_nth)
  ultimately show ?thesis by blast
qed

lemma heap_priority_queue:
  "priority_queue lt (heap_Push lt) (heap_Pop lt) (\<lambda>h. heap_ok lt h (length h))"
proof unfold_locales
  show "heap_ok lt [] (length [])" by (simp add: heap_ok_def)
  show "mset (heap_Push lt x h) = add_mset x (mset h)" for x h
    using mset_up [of "length h" "h @ [x]" lt] by (simp add: heap_Push_def)
  show "heap_Pop lt h = None \<longleftrightarrow> h = []" for h
    by (simp add: heap_Pop_def Let_def)
qed (use heap_Push_ok heap_Pop_ok in blast)+

end

end
