(* ===== verification/Sticky.thy ===== *)
theory Sticky
  imports HttpTypes Hashes
begin

section \<open>Sticky sessions (\<open>pkg/server/service/loadbalancer/sticky.go\<close>)\<close>

text \<open>
  A balancer with sticky sessions sends a cookie that names the chosen handler by a hash, and
  on later requests finds the handler of the cookie again. Modelled: the cookie settings, the
  three maps of \<open>Sticky\<close> and all its methods, with the hash functions of \<open>Hashes\<close>.
  \<open>WriteStickyCookie\<close> returns the cookie it hands to \<open>http.SetCookie\<close>. The clock is an argument.
\<close>

datatype SameSite = SameSiteDefaultMode | SameSiteLaxMode | SameSiteStrictMode | SameSiteNoneMode

record stickyCookie =
  ck_name :: string
  ck_secure :: bool
  ck_httpOnly :: bool
  ck_sameSite :: SameSite
  ck_maxAge :: int
  ck_expires :: "int option"
  ck_path :: string
  ck_domain :: string

text \<open>The configuration \<open>dynamic.Cookie\<close>.\<close>

record cookieConfig =
  cf_Name :: string
  cf_Secure :: bool
  cf_HTTPOnly :: bool
  cf_SameSite :: string
  cf_MaxAge :: int
  cf_Expires :: int
  cf_Path :: "string option"
  cf_Domain :: string

record 'h NamedHandler =
  nh_Handler :: 'h
  nh_Name :: string

record 'h sticky =
  cookie :: stickyCookie
  hashMap :: "string \<rightharpoonup> string"
  stickyMap :: "string \<rightharpoonup> 'h NamedHandler"
  compatibilityStickyMap :: "string \<rightharpoonup> 'h NamedHandler"

definition convertSameSite :: "string \<Rightarrow> SameSite" where
  "convertSameSite s =
     (if s = ''none'' then SameSiteNoneMode
      else if s = ''lax'' then SameSiteLaxMode
      else if s = ''strict'' then SameSiteStrictMode
      else SameSiteDefaultMode)"

definition fnvHash :: "string \<Rightarrow> string" where
  "fnvHash input = FormatUint16 (unat (fnv64 input))"

definition sha256Hash :: "string \<Rightarrow> string" where
  "sha256Hash input =
     (let hashedInput = EncodeToString (sha256 input) in
      if length hashedInput < 16 then hashedInput else take 16 hashedInput)"

definition NewSticky :: "int \<Rightarrow> cookieConfig \<Rightarrow> 'h sticky" where
  "NewSticky now c =
     \<lparr>cookie = \<lparr>ck_name = cf_Name c, ck_secure = cf_Secure c, ck_httpOnly = cf_HTTPOnly c,
        ck_sameSite = convertSameSite (cf_SameSite c), ck_maxAge = cf_MaxAge c,
        ck_expires = (if cf_Expires c > 0 then Some (now + cf_Expires c) else None),
        ck_path = (case cf_Path c of None \<Rightarrow> ''/'' | Some p \<Rightarrow> p), ck_domain = cf_Domain c\<rparr>,
      hashMap = Map.empty, stickyMap = Map.empty, compatibilityStickyMap = Map.empty\<rparr>"

definition AddHandler :: "string \<Rightarrow> 'h \<Rightarrow> 'h sticky \<Rightarrow> 'h sticky" where
  "AddHandler nm h s =
     (let sha256HashedName = sha256Hash nm;
          handler = \<lparr>nh_Handler = h, nh_Name = nm\<rparr>;
          hashedName = fnvHash nm
      in s\<lparr>hashMap := (hashMap s)(nm \<mapsto> sha256HashedName),
           stickyMap := (stickyMap s)(sha256HashedName \<mapsto> handler),
           compatibilityStickyMap := (compatibilityStickyMap s)
             (nm \<mapsto> handler, hashedName \<mapsto> handler, fnvHash hashedName \<mapsto> handler)\<rparr>)"

text \<open>
  \<open>Request.Cookie\<close> fails only with \<open>ErrNoCookie\<close>; the stored handler pointers are never nil. The
  boolean says that the cookie has to be written again.
\<close>

definition StickyHandler :: "'h sticky \<Rightarrow> request \<Rightarrow> 'h NamedHandler option \<times> bool" where
  "StickyHandler s req =
     (case Cookies req (ck_name (cookie s)) of
        None \<Rightarrow> (None, False)
      | Some v \<Rightarrow>
          (case stickyMap s v of
             Some handler \<Rightarrow> (Some handler, False)
           | None \<Rightarrow>
               (case compatibilityStickyMap s v of
                  Some handler \<Rightarrow> (Some handler, True)
                | None \<Rightarrow> (None, False))))"

record httpCookie =
  hc_Value :: string
  hc_settings :: stickyCookie

definition WriteStickyCookie :: "'h sticky \<Rightarrow> string \<Rightarrow> httpCookie outcome" where
  "WriteStickyCookie s nm =
     (case hashMap s nm of
        None \<Rightarrow> Err ''no hash found for handler''
      | Some hash \<Rightarrow> Ok \<lparr>hc_Value = hash, hc_settings = cookie s\<rparr>)"

subsection \<open>Dispatch by cookie\<close>

text \<open>
  The balancers with sticky sessions share the code around the cookie. What serving a request
  comes to: the cookies set on the response before the handler that takes over, or an
  error answer. \<open>stuck_to\<close> is the first part of their \<open>ServeHTTP\<close>: the handler of the cookie, if it is
  up; \<open>fresh_cookies\<close> is the cookie written for a newly chosen handler.
\<close>

datatype 'h served = Forward (cookies: "httpCookie list") (chosen: string) (target: 'h) | Unavailable

definition write_cookie :: "'h sticky \<Rightarrow> string \<Rightarrow> httpCookie list" where
  "write_cookie s nm = (case WriteStickyCookie s nm of Ok c \<Rightarrow> [c] | _ \<Rightarrow> [])"

definition stuck_to :: "'h sticky option \<Rightarrow> string set \<Rightarrow> request \<Rightarrow> 'h served option" where
  "stuck_to pool up req =
     (case pool of None \<Rightarrow> None
      | Some s \<Rightarrow>
          (case StickyHandler s req of
             (Some h, rewrite) \<Rightarrow>
               if nh_Name h \<in> up
               then Some (Forward (if rewrite then write_cookie s (nh_Name h) else []) (nh_Name h) (nh_Handler h))
               else None
           | (None, _) \<Rightarrow> None))"

definition fresh_cookies :: "'h sticky option \<Rightarrow> string \<Rightarrow> httpCookie list" where
  "fresh_cookies pool nm = (case pool of None \<Rightarrow> [] | Some s \<Rightarrow> write_cookie s nm)"

subsection \<open>Round trip\<close>

definition add_handlers :: "(string \<times> 'h) list \<Rightarrow> 'h sticky \<Rightarrow> 'h sticky" where
  "add_handlers hs s = fold (\<lambda>(nm, h). AddHandler nm h) hs s"

lemma length_sha256Hash: "length (sha256Hash s) = 16"
  by (simp add: sha256Hash_def Let_def length_EncodeToString length_sha256)

lemma add_handlers_maps:
  assumes "distinct (map fst hs)" "inj_on sha256Hash (fst ` set hs)" "(nm, h) \<in> set hs"
  shows "hashMap (add_handlers hs s) nm = Some (sha256Hash nm)
    \<and> stickyMap (add_handlers hs s) (sha256Hash nm) = Some \<lparr>nh_Handler = h, nh_Name = nm\<rparr>"
  using assms
proof (induction hs rule: rev_induct)
  case (snoc x hs)
  obtain n g where x: "x = (n, g)" by (cases x)
  show ?case
  proof (cases "n = nm")
    case True
    then have "g = h"
      using snoc.prems x by (force simp: image_iff)
    then show ?thesis
      using True by (simp add: add_handlers_def x AddHandler_def Let_def)
  next
    case False
    then have "(nm, h) \<in> set hs" "inj_on sha256Hash (fst ` set hs)" "distinct (map fst hs)"
      using snoc.prems x by (auto intro: inj_on_subset)
    moreover have "sha256Hash n \<noteq> sha256Hash nm"
      using inj_onD [OF snoc.prems(2), of n nm] snoc.prems(3) False x by (force simp: image_iff)
    ultimately show ?thesis
      using snoc.IH False by (simp add: add_handlers_def x AddHandler_def Let_def)
  qed
qed simp

lemma cookie_add_handlers [simp]: "cookie (add_handlers hs s) = cookie s"
  by (induction hs rule: rev_induct) (auto simp: add_handlers_def AddHandler_def Let_def)

text \<open>
  C28. The sticky cookie leads back to its handler. Whatever handlers have been added, under
  different names without a collision of the truncated hashes, the cookie written for one of them
  has sixteen characters and the settings of the configuration, and a request that carries its
  value gets exactly that handler, without the cookie having to be rewritten.
\<close>

theorem sticky_roundtrip:
  assumes "distinct (map fst hs)" "inj_on sha256Hash (fst ` set hs)" "(nm, h) \<in> set hs"
  shows "\<exists>c. WriteStickyCookie (add_handlers hs s) nm = Ok c \<and> hc_settings c = cookie s \<and> length (hc_Value c) = 16
    \<and> (\<forall>req. Cookies req (ck_name (cookie s)) = Some (hc_Value c) \<longrightarrow>
         StickyHandler (add_handlers hs s) req = (Some \<lparr>nh_Handler = h, nh_Name = nm\<rparr>, False))"
  using add_handlers_maps [OF assms, of s]
  by (simp add: WriteStickyCookie_def StickyHandler_def length_sha256Hash)

definition demo_config :: cookieConfig where
  "demo_config = \<lparr>cf_Name = ''lb'', cf_Secure = True, cf_HTTPOnly = True, cf_SameSite = ''lax'', cf_MaxAge = 0,
     cf_Expires = 0, cf_Path = None, cf_Domain = []\<rparr>"

theorem sticky_roundtrip_witness:
  "\<exists>c. WriteStickyCookie (add_handlers [(''srv'', 7 :: nat)] (NewSticky 0 demo_config)) ''srv'' = Ok c
    \<and> (\<forall>req. Cookies req ''lb'' = Some (hc_Value c) \<longrightarrow>
         StickyHandler (add_handlers [(''srv'', 7 :: nat)] (NewSticky 0 demo_config)) req
           = (Some \<lparr>nh_Handler = 7, nh_Name = ''srv''\<rparr>, False))"
  using sticky_roundtrip [of "[(''srv'', 7 :: nat)]" "''srv''" 7 "NewSticky 0 demo_config"]
  by (auto simp: NewSticky_def demo_config_def)

subsection \<open>Sessions\<close>

text \<open>The maps of a sticky pool know a handler.\<close>

definition knows :: "'h sticky \<Rightarrow> string \<Rightarrow> 'h \<Rightarrow> bool" where
  "knows s nm h \<longleftrightarrow> hashMap s nm = Some (sha256Hash nm) \<and>
     stickyMap s (sha256Hash nm) = Some \<lparr>nh_Handler = h, nh_Name = nm\<rparr>"

lemma knows_AddHandler: "knows (AddHandler nm h s) nm h"
  by (simp add: knows_def AddHandler_def Let_def)

lemma knows_AddHandler_other:
  "knows s nm h \<Longrightarrow> sha256Hash nm \<noteq> sha256Hash nm' \<Longrightarrow> knows (AddHandler nm' h' s) nm h"
  by (auto simp: knows_def AddHandler_def Let_def)

lemma knows_session:
  assumes "knows s nm h" "nm \<in> up"
  shows "\<exists>c. write_cookie s nm = [c] \<and> (\<forall>req. Cookies req (ck_name (cookie s)) = Some (hc_Value c) \<longrightarrow>
    stuck_to (Some s) up req = Some (Forward [] nm h))"
  using assms by (simp add: knows_def write_cookie_def WriteStickyCookie_def stuck_to_def StickyHandler_def)

text \<open>
  What a balancer does with the pool: a request with the cookie of a handler that is up goes
  there and leaves the balancer as \<open>admit\<close> says, any other request that is forwarded goes to a member of
  the pool and gets its cookie.
\<close>

locale sticky_dispatch =
  fixes pool :: "'b \<Rightarrow> 'h sticky option"
    and up :: "'b \<Rightarrow> string set"
    and members :: "'b \<Rightarrow> (string \<times> 'h) set"
    and sound :: "'b \<Rightarrow> bool"
    and admit :: "'h served \<Rightarrow> 'b \<Rightarrow> 'b"
    and serve :: "'b \<Rightarrow> request \<Rightarrow> ('h served \<times> 'b) option"
  assumes serve_stuck: "stuck_to (pool b) (up b) req = Some r \<Longrightarrow> serve b req = Some (r, admit r b)"
    and serve_fresh: "sound b \<Longrightarrow> stuck_to (pool b) (up b) req = None \<Longrightarrow> serve b req = Some (Forward cs nm h, b') \<Longrightarrow>
      (nm, h) \<in> members b \<and> cs = fresh_cookies (pool b) nm"
begin

lemma session:
  assumes "sound b" "pool b = Some s" "\<forall>(nm, h) \<in> members b. knows s nm h"
    and "stuck_to (pool b) (up b) req = None" "serve b req = Some (Forward cs nm h, b')"
    and "pool b2 = Some s" "nm \<in> up b2"
  shows "\<exists>c. cs = [c] \<and> (\<forall>req2. Cookies req2 (ck_name (cookie s)) = Some (hc_Value c) \<longrightarrow>
    serve b2 req2 = Some (Forward [] nm h, admit (Forward [] nm h) b2))"
proof -
  have m: "(nm, h) \<in> members b" "cs = write_cookie s nm"
    using serve_fresh [OF assms(1,4,5)] assms(2) by (auto simp: fresh_cookies_def)
  then have "knows s nm h"
    using assms(3) by auto
  from knows_session [OF this assms(7)] show ?thesis
    using m(2) serve_stuck [of b2] assms(6) by metis
qed

end

end
