(* ===== verification/HttpWrr.thy ===== *)
theory HttpWrr
  imports Float64 BalancerStatus GoHeap Sticky
begin

section \<open>Weighted round robin (\<open>pkg/server/service/loadbalancer/wrr\<close>)\<close>

text \<open>
  The balancer keeps its handlers in a heap ordered by deadline, picks the earliest, moves it
  back by the inverse of its weight, and repeats until the pick is up and not fenced. All the
  operations of the package are modelled. Deadlines and weights are \<open>float64\<close>: every conversion, division and
  addition is rounded by \<open>fl\<close> of \<open>Float64\<close>, so that a deadline drifts from the multiple of the period that it
  stands for, and an addition can leave it where it was.

  The loop of \<open>nextServer\<close> need not end, so it is a partial function: \<^const>\<open>None\<close> is a call that
  does not return (and holds the lock of the balancer for ever).
\<close>

record 'h namedHandler =
  handler :: 'h
  hname :: string
  weight :: rat
  deadline :: rat

record ('u, 'h) Balancer = "'u children" +
  handlers :: "'h namedHandler list"
  fenced :: "string set"
  sticky :: "'h sticky option"
  curDeadline :: rat

definition New :: "int \<Rightarrow> cookieConfig option \<Rightarrow> bool \<Rightarrow> ('u, 'h) Balancer" where
  "New now stickyCookieConfig hc =
     \<lparr>wantsHealthCheck = hc, status = {}, updaters = [], handlers = [], fenced = {},
      sticky = map_option (NewSticky now) stickyCookieConfig, curDeadline = 0\<rparr>"

definition Less :: "'h namedHandler \<Rightarrow> 'h namedHandler \<Rightarrow> bool" where
  "Less g h \<longleftrightarrow> deadline g < deadline h"

definition SetStatus :: "string \<Rightarrow> bool \<Rightarrow> ('u, 'h) Balancer \<Rightarrow> ('u, 'h) Balancer \<times> ('u \<times> bool) list" where
  "SetStatus childName up b = setStatus childName up b"

definition RegisterStatusUpdater :: "'u \<Rightarrow> ('u, 'h) Balancer \<Rightarrow> ('u, 'h) Balancer outcome" where
  "RegisterStatusUpdater fn b = registerStatusUpdater ''healthCheck not enabled in config for this WRR service'' fn b"

definition Add :: "string \<Rightarrow> 'h \<Rightarrow> int option \<Rightarrow> bool \<Rightarrow> ('u, 'h) Balancer \<Rightarrow> ('u, 'h) Balancer" where
  "Add nm hdl w fence b =
     (let w = (case w of None \<Rightarrow> 1 | Some w \<Rightarrow> w) in
      if w \<le> 0 then b
      else let h = \<lparr>handler = hdl, hname = nm, weight = fl (of_int w),
                    deadline = fl (curDeadline b + fl (1 / fl (of_int w)))\<rparr>;
               b1 = b\<lparr>handlers := heap_Push Less h (handlers b),
                      status := insert nm (status b),
                      fenced := if fence then insert nm (fenced b) else fenced b\<rparr>
           in b1\<lparr>sticky := map_option (AddHandler nm hdl) (sticky b1)\<rparr>)"

definition AddServer :: "string \<Rightarrow> 'h \<Rightarrow> dynServer \<Rightarrow> ('u, 'h) Balancer \<Rightarrow> ('u, 'h) Balancer" where
  "AddServer nm hdl server b = Add nm hdl (srvWeight server) (srvFenced server) b"

text \<open>\<open>handler.deadline += 1 / handler.weight\<close>.\<close>

definition reschedule :: "'h namedHandler \<Rightarrow> 'h namedHandler" where
  "reschedule h = h\<lparr>deadline := fl (deadline h + fl (1 / weight h))\<rparr>"

text \<open>One turn of the loop: the handler picked and the balancer with its new deadline.\<close>

definition turn :: "('u, 'h) Balancer \<Rightarrow> ('h namedHandler \<times> ('u, 'h) Balancer) option" where
  "turn b =
     (case heap_Pop Less (handlers b) of
        None \<Rightarrow> None
      | Some (h, hs) \<Rightarrow>
          let h' = reschedule h in
          Some (h', b\<lparr>handlers := heap_Push Less h' hs, curDeadline := deadline h\<rparr>))"

definition selectable :: "('u, 'h) Balancer \<Rightarrow> 'h namedHandler \<Rightarrow> bool" where
  "selectable b h \<longleftrightarrow> hname h \<in> status b \<and> hname h \<notin> fenced b"

partial_function (option) next_loop ::
  "('u, 'h) Balancer \<Rightarrow> ('h namedHandler \<times> ('u, 'h) Balancer) option" where
  "next_loop b =
     (case turn b of
        None \<Rightarrow> None
      | Some (h, b') \<Rightarrow> if selectable b' h then Some (h, b') else next_loop b')"

text \<open>\<open>Some (None, b)\<close> is the error that no server is available.\<close>

definition nextServer :: "('u, 'h) Balancer \<Rightarrow> ('h namedHandler option \<times> ('u, 'h) Balancer) option" where
  "nextServer b =
     (if handlers b = [] \<or> status b = {} \<or> card (fenced b) = length (handlers b) then Some (None, b)
      else map_option (\<lambda>(h, b'). (Some h, b')) (next_loop b))"

definition ServeHTTP :: "('u, 'h) Balancer \<Rightarrow> request \<Rightarrow> ('h served \<times> ('u, 'h) Balancer) option" where
  "ServeHTTP b req =
     (case stuck_to (sticky b) (status b) req of
        Some r \<Rightarrow> Some (r, b)
      | None \<Rightarrow>
          (case nextServer b of
             None \<Rightarrow> None
           | Some (None, b') \<Rightarrow> Some (Unavailable, b')
           | Some (Some h, b') \<Rightarrow>
               Some (Forward (fresh_cookies (sticky b') (hname h)) (hname h) (handler h), b')))"

subsection \<open>The schedule\<close>

interpretation deadline_order: strict_weak_order Less
  by unfold_locales (auto simp: Less_def)

interpretation schedule: priority_queue Less "heap_Push Less" "heap_Pop Less" "\<lambda>h. heap_ok Less h (length h)"
  by (rule deadline_order.heap_priority_queue)

interpretation wrr_status: status_tracker SetStatus status updaters
  unfolding SetStatus_def by (rule children.status_tracker_axioms)

interpretation wrr_in_wrr: status_link SetStatus status updaters SetStatus status updaters
  by unfold_locales

text \<open>
  The invariant: heap order, weights of at least one, every deadline representable and within one (rounded) period of the
  current one, and fenced names are names of handlers.
\<close>

definition on_schedule :: "rat \<Rightarrow> 'h namedHandler \<Rightarrow> bool" where
  "on_schedule cur h \<longleftrightarrow> 1 \<le> weight h \<and> fl (deadline h) = deadline h \<and> cur \<le> deadline h \<and>
     deadline h \<le> fl (cur + fl (1 / weight h))"

definition wrr_inv :: "('u, 'h) Balancer \<Rightarrow> bool" where
  "wrr_inv b \<longleftrightarrow> heap_ok Less (handlers b) (length (handlers b)) \<and> 0 \<le> curDeadline b \<and> fl (curDeadline b) = curDeadline b \<and>
     (\<forall>h \<in> set (handlers b). on_schedule (curDeadline b) h) \<and> fenced b \<subseteq> hname ` set (handlers b)"

lemma reschedule_simps [simp]:
  "hname (reschedule h) = hname h" "weight (reschedule h) = weight h" "handler (reschedule h) = handler h"
  "deadline (reschedule h) = fl (deadline h + fl (1 / weight h))"
  by (simp_all add: reschedule_def)

lemma set_push [simp]: "set (heap_Push Less h hs) = insert h (set hs)"
  using schedule.mset_push [of h hs] by (metis set_mset_add_mset_insert set_mset_mset)

text \<open>A deadline moved by one period is on schedule.\<close>

lemma on_schedule_period:
  assumes "1 \<le> w" "0 \<le> d" "fl d = d"
  shows "on_schedule d (h\<lparr>weight := w, deadline := fl (d + fl (1 / w))\<rparr>)"
  using assms period_bounds [OF assms(1)] fl_add_ge [of d "fl (1 / w)"] by (simp add: on_schedule_def)

lemma wrr_inv_New: "wrr_inv (New now c hc)"
  by (simp add: wrr_inv_def New_def schedule.ok_empty [simplified])

lemma wrr_inv_Add:
  assumes "wrr_inv b"
  shows "wrr_inv (Add nm hdl w fence b)"
proof (cases "0 < (case w of None \<Rightarrow> 1 | Some w \<Rightarrow> w)")
  case True
  define v where "v = (case w of None \<Rightarrow> 1 | Some w \<Rightarrow> w)"
  have "on_schedule (curDeadline b)
      \<lparr>handler = hdl, hname = nm, weight = fl (of_int v), deadline = fl (curDeadline b + fl (1 / fl (of_int v)))\<rparr>"
    using on_schedule_period [OF float_weight, of v "curDeadline b" "\<lparr>handler = hdl, hname = nm, weight = 1, deadline = 1\<rparr>"]
      assms True by (simp add: wrr_inv_def v_def)
  then show ?thesis
    using assms True by (auto simp: wrr_inv_def Add_def Let_def v_def schedule.ok_push)
qed (use assms in \<open>simp add: Add_def Let_def not_less\<close>)

lemma wrr_inv_SetStatus: "wrr_inv b \<Longrightarrow> wrr_inv (fst (SetStatus c s b))"
  by (auto simp: wrr_inv_def SetStatus_def setStatus_def Let_def)

text \<open>A turn reschedules one of the earliest handlers and leaves the others where they are.\<close>

lemma turn_spec:
  assumes "wrr_inv b" "handlers b \<noteq> []"
  obtains h rest b' where "turn b = Some (reschedule h, b')" "mset (handlers b) = add_mset h rest"
    "mset (handlers b') = add_mset (reschedule h) rest"
    "\<forall>g \<in> set (handlers b). deadline h \<le> deadline g" "curDeadline b \<le> curDeadline b'"
    "status b' = status b" "fenced b' = fenced b" "sticky b' = sticky b" "wrr_inv b'"
proof -
  obtain h hs where pop: "heap_Pop Less (handlers b) = Some (h, hs)"
    using schedule.pop_empty [of "handlers b"] assms(2) by (cases "heap_Pop Less (handlers b)") auto
  have least: "heap_ok Less hs (length hs)" "mset (handlers b) = add_mset h (mset hs)"
    "\<forall>g \<in> set (handlers b). deadline h \<le> deadline g"
    using schedule.pop_least [OF _ pop] assms(1) by (auto simp: wrr_inv_def Less_def not_less)
  define b' where "b' = b\<lparr>handlers := heap_Push Less (reschedule h) hs, curDeadline := deadline h\<rparr>"
  have set_b: "set (handlers b) = insert h (set hs)"
    using arg_cong [OF least(2), of set_mset] by simp
  have h: "1 \<le> weight h" "0 \<le> deadline h" "fl (deadline h) = deadline h" "0 \<le> curDeadline b" "curDeadline b \<le> deadline h"
    using assms(1) set_b by (auto simp: wrr_inv_def on_schedule_def)
  have "on_schedule (deadline h) (reschedule h)"
    using on_schedule_period [OF h(1-3), of h] by (simp add: reschedule_def)
  moreover have "on_schedule (deadline h) g" if "g \<in> set hs" for g
  proof -
    have g: "on_schedule (curDeadline b) g" "deadline h \<le> deadline g"
      using assms(1) set_b least(3) that by (auto simp: wrr_inv_def)
    then have "0 \<le> fl (1 / weight g)" using period_bounds by (auto simp: on_schedule_def)
    then have "fl (curDeadline b + fl (1 / weight g)) \<le> fl (deadline h + fl (1 / weight g))"
      using h by (intro fl_mono) simp_all
    then show ?thesis using g by (simp add: on_schedule_def)
  qed
  ultimately have "wrr_inv b'"
    using assms(1) set_b least(1) h by (auto simp: wrr_inv_def b'_def schedule.ok_push)
  moreover have "turn b = Some (reschedule h, b')"
    by (simp add: turn_def pop b'_def Let_def)
  ultimately show ?thesis
    using that [of h b' "mset hs"] least h(5) by (simp add: b'_def schedule.mset_push)
qed

lemma selectable_cong: "status b' = status b \<Longrightarrow> fenced b' = fenced b \<Longrightarrow> selectable b' = selectable b"
  by (simp add: selectable_def fun_eq_iff)

lemma selectable_reschedule [simp]: "selectable b (reschedule h) = selectable b h"
  by (simp add: selectable_def)

subsection \<open>When \<open>nextServer\<close> returns\<close>

text \<open>
  Up to the deadline \<open>D\<close> no addition is absorbed: a period is still more than a unit in the last place. With weights up to a thousand this is the case
  for the first two million million periods.
\<close>

definition young :: "rat \<Rightarrow> ('u, 'h) Balancer \<Rightarrow> bool" where
  "young D b \<longleftrightarrow> (\<forall>h \<in> set (handlers b). (D + 1) * weight h \<le> 2 ^ 51)"

lemma quantum_bound:
  assumes "0 \<le> d"
  shows "quantum d \<le> (d + 1) / 2 ^ 52"
proof (cases "2 powi (- 1022) \<le> d")
  case True
  then have "0 < d" using pow2_pos [of "- 1022"] by linarith
  then show ?thesis using binade_bounds(1) [of d] by (simp add: quantum_rel [OF True])
next
  case False
  have "quantum d \<le> 2 powi (- 54)"
  proof (cases "d = 0")
    case True
    then show ?thesis by (simp add: quantum_def quantum_exp_def binade_def floorlog_def pow2_le)
  next
    case False
    with \<open>\<not> 2 powi (- 1022) \<le> d\<close> assms have "binade d < - 1022" by (intro binade_less) simp_all
    then show ?thesis by (simp add: quantum_def quantum_exp_def pow2_le)
  qed
  also have "(2 :: rat) powi (- 54) \<le> 1 / 2 ^ 52" using power_int_minus_divide [of "2 :: rat" 54] by simp
  also have "\<dots> \<le> (d + 1) / 2 ^ 52" using assms by simp
  finally show ?thesis .
qed

lemma period_err:
  assumes "1 \<le> w" "w \<le> 2 ^ 51"
  shows "\<bar>fl (1 / w) - 1 / w\<bar> \<le> 1 / w / 2 ^ 53" "1 / (2 * w) \<le> fl (1 / w)" "2 powi (- 1022) \<le> fl (1 / w)"
proof -
  have "1 / 2 ^ 51 \<le> 1 / w" using assms by (intro divide_left_mono) simp_all
  moreover have small: "(2 :: rat) powi (- 1022) \<le> 2 powi (- 52)" "(2 :: rat) powi (- 52) = 1 / 2 / 2 ^ 51"
    using power_int_minus_divide [of "2 :: rat" 52] by (simp_all add: pow2_le)
  ultimately have w: "2 powi (- 1022) \<le> 1 / w" by simp
  show err: "\<bar>fl (1 / w) - 1 / w\<bar> \<le> 1 / w / 2 ^ 53" by (rule fl_rel(1) [OF w])
  have "1 / w / 2 ^ 53 \<le> 1 / w / 2" using assms(1) by (intro divide_left_mono) simp_all
  then show "1 / (2 * w) \<le> fl (1 / w)" using err by (simp add: abs_le_iff)
  then show "2 powi (- 1022) \<le> fl (1 / w)" using \<open>1 / 2 ^ 51 \<le> 1 / w\<close> small by simp
qed

lemma moves:
  assumes "fl d = d" "0 \<le> d" "1 \<le> w" "(d + 1) * w \<le> 2 ^ 51"
  shows "d + quantum d \<le> fl (d + fl (1 / w))"
proof -
  have "w \<le> (d + 1) * w" using mult_right_mono [of 1 "d + 1" w] assms(2,3) by simp
  then have "w \<le> 2 ^ 51" using assms(4) by simp
  have "(d + 1) / 2 ^ 52 \<le> 1 / (2 * w)" using assms(3,4) by (simp add: field_simps)
  then have "quantum d \<le> fl (1 / w)"
    using quantum_bound [OF assms(2)] period_err(2) [OF assms(3) \<open>w \<le> 2 ^ 51\<close>] by linarith
  then show ?thesis by (rule fl_add_quantum [OF assms(1,2)])
qed

text \<open>An upper bound of how often a handler may still be picked before the deadline \<open>D\<close> has passed.\<close>

definition credit :: "rat \<Rightarrow> rat \<Rightarrow> 'h namedHandler \<Rightarrow> nat" where
  "credit q D h = (if deadline h \<le> D then nat \<lfloor>(D - deadline h) / q\<rfloor> + 1 else 0)"

lemma credit_less:
  assumes "0 < q" "deadline h + q \<le> deadline h'" "deadline h \<le> D"
  shows "credit q D h' < credit q D h"
proof (cases "deadline h' \<le> D")
  case True
  have "(D - deadline h') / q \<le> (D - deadline h - q) / q" using assms by (intro divide_right_mono) simp_all
  also have "\<dots> = (D - deadline h) / q - 1" using assms(1) by (simp add: diff_divide_distrib)
  finally have "\<lfloor>(D - deadline h') / q\<rfloor> \<le> \<lfloor>(D - deadline h) / q - 1\<rfloor>" by (rule floor_mono)
  then have "\<lfloor>(D - deadline h') / q\<rfloor> < \<lfloor>(D - deadline h) / q\<rfloor>" by simp
  moreover have "0 \<le> \<lfloor>(D - deadline h') / q\<rfloor>" using True assms(1) by simp
  ultimately have "nat \<lfloor>(D - deadline h') / q\<rfloor> < nat \<lfloor>(D - deadline h) / q\<rfloor>" by (simp only: nat_less_eq_zless)
  then show ?thesis using True assms(3) by (simp add: credit_def)
qed (use assms in \<open>simp add: credit_def\<close>)

lemma young_weights: "young D b \<longleftrightarrow> (\<forall>w \<in> weight ` set (handlers b). (D + 1) * w \<le> 2 ^ 51)"
  by (simp add: young_def)

lemma young_cong:
  assumes "image_mset weight (mset (handlers b')) = image_mset weight (mset (handlers b))"
  shows "young D b' \<longleftrightarrow> young D b"
proof -
  have "weight ` set (handlers b') = weight ` set (handlers b)" using arg_cong [OF assms, of set_mset] by simp
  then show ?thesis by (simp only: young_weights)
qed

lemma young_mono:
  assumes "young D b" "D' \<le> D" "wrr_inv b"
  shows "young D' b"
  unfolding young_def
proof
  fix h assume h: "h \<in> set (handlers b)"
  then have "0 \<le> weight h" using assms(3) by (auto simp: wrr_inv_def on_schedule_def)
  then have "(D' + 1) * weight h \<le> (D + 1) * weight h" using assms(2) by (intro mult_right_mono) simp_all
  then show "(D' + 1) * weight h \<le> 2 ^ 51" using assms(1) h by (auto simp: young_def)
qed

lemma reschedule_moves:
  assumes "on_schedule c h" "0 \<le> c" "(D + 1) * weight h \<le> 2 ^ 51" "deadline h \<le> D"
  shows "deadline h + min_quantum \<le> deadline (reschedule h)"
proof -
  have h: "fl (deadline h) = deadline h" "0 \<le> deadline h" "1 \<le> weight h" using assms(1,2) by (auto simp: on_schedule_def)
  have "(deadline h + 1) * weight h \<le> (D + 1) * weight h" using assms(4) h(3) by (intro mult_right_mono) simp_all
  then have "deadline h + quantum (deadline h) \<le> deadline (reschedule h)"
    using moves [OF h] assms(3) by simp
  moreover have "min_quantum \<le> quantum (deadline h)" by (rule min_quantum(2))
  ultimately show ?thesis by simp
qed

lemma next_loop_returns:
  assumes "wrr_inv b" "e \<in> set (handlers b)" "selectable b e" "young (deadline e) b"
  shows "\<exists>r. next_loop b = Some r"
  using assms
proof (induction "sum_mset (image_mset (credit min_quantum (deadline e)) (mset (handlers b)))" arbitrary: b rule: less_induct)
  case less
  have "handlers b \<noteq> []" using less.prems(2) by auto
  with less.prems(1) obtain h rest b' where t: "turn b = Some (reschedule h, b')" "mset (handlers b) = add_mset h rest"
    "mset (handlers b') = add_mset (reschedule h) rest"
    "\<forall>g \<in> set (handlers b). deadline h \<le> deadline g" "curDeadline b \<le> curDeadline b'"
    "status b' = status b" "fenced b' = fenced b" "sticky b' = sticky b" "wrr_inv b'"
    by (rule turn_spec)
  have sel: "selectable b' = selectable b" by (rule selectable_cong [OF t(6,7)])
  show ?case
  proof (cases "selectable b h")
    case True
    then show ?thesis by (simp add: next_loop.simps [of b] t(1) sel)
  next
    case False
    have h: "h \<in> set (handlers b)"
      using t(2) by (metis set_mset_mset union_single_eq_member)
    have e: "e \<in> set (handlers b')"
      using less.prems(2,3) False t(2,3) by (metis insert_iff set_mset_add_mset_insert set_mset_mset)
    have late: "deadline h \<le> deadline e" using t(4) less.prems(2) by blast
    have "deadline h + min_quantum \<le> deadline (reschedule h)"
      using less.prems(1,4) h late by (intro reschedule_moves [of "curDeadline b" h "deadline e"]) (auto simp: wrr_inv_def young_def)
    then have "credit min_quantum (deadline e) (reschedule h) < credit min_quantum (deadline e) h"
      by (intro credit_less late min_quantum(1))
    then have "sum_mset (image_mset (credit min_quantum (deadline e)) (mset (handlers b')))
        < sum_mset (image_mset (credit min_quantum (deadline e)) (mset (handlers b)))"
      by (simp add: t(2,3))
    moreover have "young (deadline e) b'"
      using less.prems(4) young_cong [of b' b] by (simp add: t(2,3))
    ultimately show ?thesis
      using less.hyps [of b'] e less.prems(3) t(9) False by (simp add: next_loop.simps [of b] t(1) sel)
  qed
qed

text \<open>
  What a call leaves behind: the handler chosen was selectable, its deadline moved by one period,
  and the deadlines of the other selectable handlers are as before.
\<close>

definition picked :: "('u, 'h) Balancer \<Rightarrow> 'h namedHandler \<Rightarrow> ('u, 'h) Balancer \<Rightarrow> bool" where
  "picked b h' b' \<longleftrightarrow> wrr_inv b' \<and> curDeadline b \<le> curDeadline b' \<and> status b' = status b \<and> fenced b' = fenced b \<and> sticky b' = sticky b
     \<and> selectable b h' \<and> image_mset hname (mset (handlers b')) = image_mset hname (mset (handlers b))
     \<and> image_mset weight (mset (handlers b')) = image_mset weight (mset (handlers b))
     \<and> (\<exists>h rest. filter_mset (selectable b) (mset (handlers b)) = add_mset h rest
          \<and> filter_mset (selectable b) (mset (handlers b')) = add_mset h' rest
          \<and> h' = reschedule h)"

lemma next_loop_picked:
  assumes "next_loop b = Some (h, b')" "wrr_inv b"
  shows "picked b h b'"
proof -
  have "wrr_inv b \<longrightarrow> picked b (fst (h, b')) (snd (h, b'))"
  proof (rule next_loop.raw_induct [where P = "\<lambda>b r. wrr_inv b \<longrightarrow> picked b (fst r) (snd r)", OF _ assms(1)])
    fix loop b r
    assume 1: "\<And>b r. loop b = Some r \<Longrightarrow> wrr_inv b \<longrightarrow> picked b (fst r) (snd r)"
      "(case turn b of None \<Rightarrow> None | Some (h, b') \<Rightarrow> if selectable b' h then Some (h, b') else loop b') = Some r"
    show "wrr_inv b \<longrightarrow> picked b (fst r) (snd r)"
    proof
      assume inv: "wrr_inv b"
      have "handlers b \<noteq> []"
        using 1(2) schedule.pop_empty [of "handlers b"] by (auto simp: turn_def split: option.splits)
      with inv obtain g rest b1 where t: "turn b = Some (reschedule g, b1)" "mset (handlers b) = add_mset g rest"
        "mset (handlers b1) = add_mset (reschedule g) rest"
        "\<forall>x \<in> set (handlers b). deadline g \<le> deadline x" "curDeadline b \<le> curDeadline b1"
        "status b1 = status b" "fenced b1 = fenced b" "sticky b1 = sticky b" "wrr_inv b1"
        by (rule turn_spec)
      have same: "selectable b1 = selectable b"
        by (rule selectable_cong [OF t(6,7)])
      show "picked b (fst r) (snd r)"
      proof (cases "selectable b g")
        case True
        then have "r = (reschedule g, b1)" using 1(2) same by (simp add: t(1))
        then show ?thesis
          using True t by (auto simp: picked_def)
      next
        case False
        then have "loop b1 = Some r" using 1(2) same by (simp add: t(1))
        then have "picked b1 (fst r) (snd r)" using 1(1) t(9) by blast
        moreover have "filter_mset (selectable b) (mset (handlers b1)) = filter_mset (selectable b) (mset (handlers b))"
          using False by (simp add: t(2,3))
        moreover have "image_mset hname (mset (handlers b1)) = image_mset hname (mset (handlers b))"
          "image_mset weight (mset (handlers b1)) = image_mset weight (mset (handlers b))"
          by (simp_all add: t(2,3))
        ultimately show ?thesis
          using t(5) by (auto simp: picked_def same t(6-8))
      qed
    qed
  qed
  with assms(2) show ?thesis by simp
qed

lemma next_loop_stuck:
  assumes "wrr_inv b" "\<not> (\<exists>h \<in> set (handlers b). selectable b h)"
  shows "next_loop b = None"
proof (cases "next_loop b")
  case (Some r)
  obtain h b' where "next_loop b = Some (h, b')" using Some by (cases r) auto
  from next_loop_picked [OF this assms(1)] obtain g rest
    where "filter_mset (selectable b) (mset (handlers b)) = add_mset g rest"
    by (auto simp: picked_def)
  then have "g \<in># filter_mset (selectable b) (mset (handlers b))" by simp
  then show ?thesis using assms(2) by auto
qed

text \<open>The guard before the loop lets a call through whenever some handler can be selected.\<close>

lemma guard_passes:
  assumes "wrr_inv b" "e \<in> set (handlers b)" "selectable b e"
  shows "\<not> (handlers b = [] \<or> status b = {} \<or> card (fenced b) = length (handlers b))"
proof -
  have "fenced b \<subseteq> hname ` set (handlers b) - {hname e}"
    using assms by (auto simp: wrr_inv_def selectable_def)
  then have "card (fenced b) \<le> card (hname ` set (handlers b) - {hname e})"
    by (intro card_mono) simp_all
  also have "\<dots> < card (hname ` set (handlers b))"
    using assms(2) by (intro psubset_card_mono) auto
  also have "\<dots> \<le> length (handlers b)"
    by (metis card_image_le card_length le_trans List.finite_set)
  finally show ?thesis
    using assms(2,3) by (auto simp: selectable_def)
qed


text \<open>
  C25. A call of \<open>nextServer\<close> may never return. The guard before the loop counts the fenced
  handlers, but not those that are down: if a child is up, not all handlers are fenced, and yet
  every handler that is up is fenced, the loop turns for ever, holding the lock.
\<close>

theorem nextServer_hangs:
  assumes "wrr_inv b" "handlers b \<noteq> []" "status b \<noteq> {}" "card (fenced b) \<noteq> length (handlers b)"
    and "\<forall>h \<in> set (handlers b). hname h \<in> status b \<longrightarrow> hname h \<in> fenced b"
  shows "nextServer b = None"
  using assms next_loop_stuck [OF assms(1)] by (auto simp: nextServer_def selectable_def)

text \<open>One fenced server that is up and one other that is down.\<close>

definition demo_hang :: "(unit, nat) Balancer" where
  "demo_hang = fst (SetStatus ''b'' False (Add ''b'' 2 None False (Add ''a'' 1 None True (New 0 None True))))"

definition demo_wrr :: "(unit, nat) Balancer" where
  "demo_wrr = Add ''b'' 2 (Some 1) False (Add ''a'' 1 (Some 3) False (New 0 None True))"

lemma demo_inv: "wrr_inv demo_hang" "wrr_inv demo_wrr"
  by (simp_all add: demo_hang_def demo_wrr_def wrr_inv_New wrr_inv_Add wrr_inv_SetStatus)

lemma demo_third: "fl 3 = 3" "\<not> 1 < fl (1 / 3)" "fl (fl (1 / 3)) = fl (1 / 3)"
  using fl_of_int [of 3] period_bounds [of 3] by simp_all

lemma demo_values:
  "demo_hang = \<lparr>wantsHealthCheck = True, status = {''a''}, updaters = [],
     handlers = [\<lparr>handler = 1, hname = ''a'', weight = 1, deadline = 1\<rparr>, \<lparr>handler = 2, hname = ''b'', weight = 1, deadline = 1\<rparr>],
     fenced = {''a''}, sticky = None, curDeadline = 0\<rparr>"
  "demo_wrr = \<lparr>wantsHealthCheck = True, status = {''a'', ''b''}, updaters = [],
     handlers = [\<lparr>handler = 1, hname = ''a'', weight = 3, deadline = fl (1 / 3)\<rparr>, \<lparr>handler = 2, hname = ''b'', weight = 1, deadline = 1\<rparr>],
     fenced = {}, sticky = None, curDeadline = 0\<rparr>"
  by (simp_all add: demo_hang_def demo_wrr_def SetStatus_def setStatus_def Add_def New_def Let_def heap_Push_def
      heap_up_first Less_def insert_commute demo_third)

theorem nextServer_hangs_witness: "nextServer demo_hang = None"
  by (rule nextServer_hangs [OF demo_inv(1)]) (simp_all add: demo_values)


subsection \<open>When rounding absorbs a period\<close>

text \<open>
  The loop stays for ever with a handler that cannot be selected and whose deadline no longer moves: it is at the top of the heap, before
  all handlers that could be selected.
\<close>

definition absorbed :: "'h namedHandler \<Rightarrow> ('u, 'h) Balancer \<Rightarrow> bool" where
  "absorbed h b \<longleftrightarrow> wrr_inv b \<and> h \<in> set (handlers b) \<and> \<not> selectable b h \<and> reschedule h = h \<and>
     (\<forall>g \<in> set (handlers b). selectable b g \<longrightarrow> deadline h < deadline g)"

lemma turn_absorbed:
  assumes "absorbed h b"
  obtains g b' where "turn b = Some (g, b')" "\<not> selectable b' g" "absorbed h b'"
proof -
  have inv: "wrr_inv b" "handlers b \<noteq> []" using assms by (auto simp: absorbed_def)
  then obtain g rest b' where t: "turn b = Some (reschedule g, b')" "mset (handlers b) = add_mset g rest"
    "mset (handlers b') = add_mset (reschedule g) rest"
    "\<forall>x \<in> set (handlers b). deadline g \<le> deadline x" "curDeadline b \<le> curDeadline b'"
    "status b' = status b" "fenced b' = fenced b" "sticky b' = sticky b" "wrr_inv b'"
    by (rule turn_spec)
  have same: "selectable b' = selectable b" by (rule selectable_cong [OF t(6,7)])
  have sets: "set (handlers b) = insert g (set_mset rest)" "set (handlers b') = insert (reschedule g) (set_mset rest)"
    using arg_cong [OF t(2), of set_mset] arg_cong [OF t(3), of set_mset] by simp_all
  have "deadline g \<le> deadline h" using t(4) assms by (simp add: absorbed_def)
  then have g: "\<not> selectable b g" using assms sets(1) by (auto simp: absorbed_def)
  have "h \<in> set (handlers b')" using assms sets by (auto simp: absorbed_def)
  then have "absorbed h b'" using assms sets g t(9) by (auto simp: absorbed_def same)
  then show ?thesis using that t(1) g same by simp
qed

lemma next_loop_absorbed:
  assumes "absorbed h b"
  shows "next_loop b = None"
proof (rule ccontr)
  assume "next_loop b \<noteq> None"
  then obtain r where r: "next_loop b = Some r" by auto
  have "\<not> absorbed h b"
  proof (rule next_loop.raw_induct [where P = "\<lambda>b r. \<not> absorbed h b", OF _ r])
    fix loop b r
    assume 1: "\<And>b r. loop b = Some r \<Longrightarrow> \<not> absorbed h b"
      "(case turn b of None \<Rightarrow> None | Some (h, b') \<Rightarrow> if selectable b' h then Some (h, b') else loop b') = Some r"
    show "\<not> absorbed h b"
    proof
      assume "absorbed h b"
      then obtain g b' where "turn b = Some (g, b')" "\<not> selectable b' g" "absorbed h b'" by (rule turn_absorbed)
      then show False using 1 by auto
    qed
  qed
  with assms show False by simp
qed

text \<open>
  A call of \<open>nextServer\<close> may also not return although a server could be chosen: when a server that is down has a weight so large that
  the rounded sum of its deadline and its period is the deadline itself.
\<close>

theorem nextServer_absorbed:
  assumes "absorbed h b" "e \<in> set (handlers b)" "selectable b e"
  shows "nextServer b = None"
  using next_loop_absorbed [OF assms(1)] guard_passes [OF _ assms(2,3)] assms(1)
  by (auto simp: nextServer_def absorbed_def)

subsection \<open>Weighted fairness\<close>

text \<open>The names chosen by \<open>n\<close> calls in a row.\<close>

fun picks :: "nat \<Rightarrow> ('u, 'h) Balancer \<Rightarrow> (string list \<times> ('u, 'h) Balancer) option" where
  "picks 0 b = Some ([], b)"
| "picks (Suc n) b =
     (case nextServer b of
        Some (Some h, b') \<Rightarrow> map_option (\<lambda>(ns, b''). (hname h # ns, b'')) (picks n b')
      | _ \<Rightarrow> None)"

text \<open>A handler after \<open>k\<close> picks.\<close>

definition advanced :: "nat \<Rightarrow> 'h namedHandler \<Rightarrow> 'h namedHandler" where
  "advanced k h = (reschedule ^^ k) h"

lemma advanced_simps [simp]:
  "hname (advanced k h) = hname h" "weight (advanced k h) = weight h" "advanced 0 h = h" "advanced (Suc 0) h = reschedule h"
  "advanced k (advanced j h) = advanced (j + k) h"
proof -
  show "hname (advanced k h) = hname h" "weight (advanced k h) = weight h"
    unfolding advanced_def by (induction k) simp_all
  show "advanced k (advanced j h) = advanced (j + k) h"
    unfolding advanced_def by (simp add: add.commute [of j] funpow_add)
qed (simp_all add: advanced_def)

lemma picked_others:
  assumes "picked b h b'" "distinct (map hname (handlers b))" "g \<in> set (handlers b)" "selectable b g"
  shows "advanced (if hname g = hname h then 1 else 0) g \<in> set (handlers b')"
proof -
  obtain h0 rest where p: "filter_mset (selectable b) (mset (handlers b)) = add_mset h0 rest"
    "filter_mset (selectable b) (mset (handlers b')) = add_mset h rest" "h = reschedule h0"
    using assms(1) by (auto simp: picked_def)
  have h0: "h0 \<in> set (handlers b)" "h \<in> set (handlers b')"
    using arg_cong [OF p(1), of set_mset] arg_cong [OF p(2), of set_mset] by auto
  show ?thesis
  proof (cases "hname g = hname h")
    case True
    then have "g = h0"
      using h0(1) assms(2,3) p(3) by (auto simp: distinct_map dest: inj_onD)
    then show ?thesis using True h0(2) p(3) by simp
  next
    case False
    then have "g \<in># add_mset h0 rest" "g \<noteq> h0"
      using assms(3,4) p(3) unfolding p(1) [symmetric] by auto
    then have "g \<in># filter_mset (selectable b) (mset (handlers b'))"
      by (simp add: p(2))
    then show ?thesis using False by simp
  qed
qed

text \<open>One pick moves a deadline by at most one.\<close>

lemma reschedule_step:
  assumes "1 \<le> weight h" "0 \<le> deadline h" "deadline h \<le> of_nat m" "int m < 2 ^ 53"
  shows "deadline (reschedule h) \<le> of_nat (Suc m)"
proof -
  have "fl (deadline h + fl (1 / weight h)) \<le> fl (of_int (int (Suc m)))"
    using period_bounds [OF assms(1)] assms(2,3) by (intro fl_mono) simp_all
  also have "\<dots> = of_int (int (Suc m))" using assms(4) by (intro fl_of_int) simp_all
  finally show ?thesis by simp
qed

lemma young_small:
  assumes "young (of_nat k) b" "wrr_inv b" "e \<in> set (handlers b)"
  shows "k < 2 ^ 51" "weight e \<le> 2 ^ 51"
proof -
  have e: "1 \<le> weight e" "(of_nat k + 1) * weight e \<le> 2 ^ 51"
    using assms by (auto simp: young_def wrr_inv_def on_schedule_def)
  have "weight e \<le> (of_nat k + 1) * weight e" using e(1) mult_right_mono [of 1 "of_nat k + 1" "weight e"] by simp
  then show "weight e \<le> 2 ^ 51" using e(2) by simp
  have "(of_nat (k + 1) :: rat) \<le> (of_nat k + 1) * weight e" using e(1) mult_left_mono [of 1 "weight e" "of_nat k + 1"] by (simp add: add.commute)
  then have "(of_nat (k + 1) :: rat) \<le> of_nat (2 ^ 51)" using e(2) by simp
  then have "k + 1 \<le> 2 ^ 51" by (simp only: of_nat_le_iff)
  then show "k < 2 ^ 51" by simp
qed

lemma picks_advance:
  assumes "wrr_inv b" "distinct (map hname (handlers b))" "e \<in> set (handlers b)" "selectable b e"
    and "deadline e \<le> of_nat m" "young (of_nat (m + n)) b"
  shows "\<exists>ns b'. picks n b = Some (ns, b') \<and> length ns = n \<and> wrr_inv b' \<and> curDeadline b \<le> curDeadline b' \<and> curDeadline b' \<le> of_nat (m + n) \<and>
    (\<forall>g \<in> set (handlers b). selectable b g \<longrightarrow> advanced (count_list ns (hname g)) g \<in> set (handlers b'))"
  using assms
proof (induction n arbitrary: b e m)
  case 0
  then have "curDeadline b \<le> deadline e" by (auto simp: wrr_inv_def on_schedule_def)
  then show ?case using 0 by simp
next
  case (Suc n)
  note e = Suc.prems(3,4)
  have on: "on_schedule (curDeadline b) e" "0 \<le> curDeadline b" using Suc.prems(1) e(1) by (auto simp: wrr_inv_def)
  have "deadline e \<le> of_nat (m + Suc n)" using Suc.prems(5) by simp
  then have young: "young (deadline e) b" by (rule young_mono [OF Suc.prems(6) _ Suc.prems(1)])
  obtain h b1 where r: "next_loop b = Some (h, b1)"
    using next_loop_returns [OF Suc.prems(1) e young] by auto
  note p = next_loop_picked [OF r Suc.prems(1)]
  have nxt: "nextServer b = Some (Some h, b1)"
    using guard_passes [OF Suc.prems(1) e] r by (simp add: nextServer_def)
  have b1: "wrr_inv b1" "selectable b1 = selectable b" "young (of_nat (Suc m + n)) b1"
    using p Suc.prems(6) selectable_cong [of b1 b] young_cong [of b1 b] by (auto simp: picked_def)
  have dist: "distinct (map hname (handlers b1))"
    using p Suc.prems(2) by (metis mset_map mset_eq_imp_distinct_iff picked_def)
  have step: "advanced (if hname g = hname h then 1 else 0) g \<in> set (handlers b1)"
    if "g \<in> set (handlers b)" "selectable b g" for g
    by (rule picked_others [OF p Suc.prems(2) that])
  have sel: "selectable b1 (advanced k g) = selectable b g" for k g
    by (simp add: b1(2) selectable_def)
  let ?e = "advanced (if hname e = hname h then 1 else 0) e"
  have "deadline ?e \<le> of_nat (Suc m)"
    using reschedule_step [of e m] on Suc.prems(5) young_small(1) [OF Suc.prems(6,1) e(1)] by (auto simp: on_schedule_def)
  then obtain ns b' where rest: "picks n b1 = Some (ns, b')" "length ns = n" "wrr_inv b'" "curDeadline b1 \<le> curDeadline b'"
    "curDeadline b' \<le> of_nat (Suc m + n)"
    "\<forall>g \<in> set (handlers b1). selectable b1 g \<longrightarrow> advanced (count_list ns (hname g)) g \<in> set (handlers b')"
    using Suc.IH [OF b1(1) dist step [OF e] _ _ b1(3)] sel e(2) by blast
  have "advanced (count_list (hname h # ns) (hname g)) g \<in> set (handlers b')"
    if g: "g \<in> set (handlers b)" "selectable b g" for g
    using rest(6) [rule_format, OF step [OF g]] g(2) sel by (auto simp: add.commute split: if_splits)
  moreover have "curDeadline b \<le> curDeadline b1" using p by (simp add: picked_def)
  ultimately show ?case
    using nxt rest(1-5) by auto
qed

text \<open>How far a deadline drifts from the multiple of the exact period.\<close>

lemma reschedule_err:
  assumes "1 \<le> weight h" "weight h \<le> 2 ^ 51" "0 \<le> deadline h"
  shows "\<bar>deadline (reschedule h) - (deadline h + 1 / weight h)\<bar> \<le> (deadline (reschedule h) + 1) / 2 ^ 53"
proof -
  note p = period_err [OF assms(1,2)]
  have "2 powi (- 1022) \<le> deadline h + fl (1 / weight h)" using p(3) assms(3) by linarith
  from fl_rel(2) [OF this]
  have "\<bar>deadline (reschedule h) - (deadline h + fl (1 / weight h))\<bar> \<le> deadline (reschedule h) / 2 ^ 53" by simp
  moreover have "1 / weight h / 2 ^ 53 \<le> 1 / 2 ^ 53" using assms(1) by (intro divide_right_mono) simp_all
  ultimately show ?thesis using p(1) by (simp only: add_divide_distrib abs_le_iff) linarith
qed

lemma advanced_err:
  assumes "1 \<le> weight h" "weight h \<le> 2 ^ 51" "0 \<le> deadline h" "fl (deadline h) = deadline h" "deadline (advanced k h) \<le> X"
  shows "deadline h \<le> deadline (advanced k h) \<and> fl (deadline (advanced k h)) = deadline (advanced k h) \<and>
    \<bar>deadline (advanced k h) - (deadline h + of_nat k / weight h)\<bar> \<le> of_nat k * ((X + 1) / 2 ^ 53)"
  using assms(5)
proof (induction k)
  case (Suc k)
  let ?g = "advanced k h"
  have S: "advanced (Suc k) h = reschedule ?g" by (simp add: advanced_def)
  have p: "0 \<le> fl (1 / weight h)" using period_bounds [OF assms(1)] by simp
  have pre: "0 \<le> deadline ?g \<and> fl (deadline ?g) = deadline ?g"
    unfolding advanced_def by (induction k) (use assms(3,4) p in \<open>simp_all add: advanced_def [symmetric] fl_nonneg\<close>)
  then have ge: "deadline ?g \<le> deadline (reschedule ?g)" using fl_add_ge [of "deadline ?g"] p by simp
  then have IH: "deadline h \<le> deadline ?g"
    "\<bar>deadline ?g - (deadline h + of_nat k / weight h)\<bar> \<le> of_nat k * ((X + 1) / 2 ^ 53)"
    using Suc by (simp_all add: S)
  have "\<bar>deadline (reschedule ?g) - (deadline ?g + 1 / weight h)\<bar> \<le> (deadline (reschedule ?g) + 1) / 2 ^ 53"
    using reschedule_err [of ?g] assms(1,2) pre by simp
  also have "\<dots> \<le> (X + 1) / 2 ^ 53" using Suc.prems by (intro divide_right_mono) (simp_all add: S)
  finally have step: "\<bar>deadline (reschedule ?g) - (deadline ?g + 1 / weight h)\<bar> \<le> (X + 1) / 2 ^ 53" .
  have "of_nat (Suc k) / weight h = of_nat k / weight h + 1 / weight h" by (simp add: add_divide_distrib)
  moreover have "of_nat (Suc k) * ((X + 1) / 2 ^ 53) = of_nat k * ((X + 1) / 2 ^ 53) + (X + 1) / 2 ^ 53"
    by (simp only: of_nat_Suc distrib_right)
  ultimately have "\<bar>deadline (reschedule ?g) - (deadline h + of_nat (Suc k) / weight h)\<bar> \<le> of_nat (Suc k) * ((X + 1) / 2 ^ 53)"
    using IH(2) step by (simp only: abs_le_iff) linarith
  moreover have "fl (deadline (reschedule ?g)) = deadline (reschedule ?g)" using pre p by simp
  ultimately show ?case using order_trans [OF IH(1) ge] by (simp only: S)
qed (simp add: assms)

text \<open>The number of picks against the progress of the schedule.\<close>

lemma picks_share:
  assumes "wrr_inv b" "wrr_inv b'" "x \<in> set (handlers b)" "advanced k x \<in> set (handlers b')"
    and "curDeadline b \<le> curDeadline b'" "curDeadline b' \<le> 2 ^ 51" "weight x \<le> 2 ^ 51"
  shows "\<bar>of_nat k / weight x - (curDeadline b' - curDeadline b)\<bar> \<le> 1 / weight x + of_nat (k + 1) * ((curDeadline b' + 3) / 2 ^ 53)"
proof -
  let ?c = "curDeadline b" and ?c' = "curDeadline b'" and ?p = "fl (1 / weight x)" and ?y = "advanced k x"
  have x: "1 \<le> weight x" "fl (deadline x) = deadline x" "?c \<le> deadline x" "deadline x \<le> fl (?c + ?p)" "0 \<le> ?c"
    using assms(1,3) by (auto simp: wrr_inv_def on_schedule_def)
  have y: "?c' \<le> deadline ?y" "deadline ?y \<le> fl (?c' + ?p)"
    using assms(2,4) by (auto simp: wrr_inv_def on_schedule_def)
  note p = period_err [OF x(1) assms(7)] and p1 = period_bounds [OF x(1)]
  define u where "u = (?c' + 3) / 2 ^ 53"
  have top: "\<bar>fl (c + ?p) - (c + ?p)\<bar> \<le> u - 1 / 2 ^ 53 \<and> fl (c + ?p) \<le> ?c' + 2" if "0 \<le> c" "c \<le> ?c'" for c
  proof -
    have "2 powi (- 1022) \<le> c + ?p" using p(3) that by linarith
    note rel = fl_rel [OF this]
    have "(c + ?p) / 2 ^ 53 \<le> (?c' + 1) / 2 ^ 53" using that(2) p1 by (intro divide_right_mono) simp_all
    moreover have "(?c' + 1) / 2 ^ 53 \<le> 1" using assms(6) by simp
    moreover have "(?c' + 1) / 2 ^ 53 \<le> u - 1 / 2 ^ 53" by (simp add: u_def add_divide_distrib)
    ultimately show ?thesis using rel(1) that(2) p1 by (simp only: abs_le_iff) linarith
  qed
  have "1 / weight x / 2 ^ 53 \<le> 1 / 2 ^ 53" using x(1) by (intro divide_right_mono) simp_all
  then have q: "\<bar>?p - 1 / weight x\<bar> \<le> 1 / 2 ^ 53" using p(1) by linarith
  note low = conjunct1 [OF top [OF x(5) assms(5)]] and high = top [OF order_trans [OF x(5) assms(5)] order_refl]
  have "deadline ?y \<le> ?c' + 2" using y(2) high by linarith
  then have "\<bar>deadline ?y - (deadline x + of_nat k / weight x)\<bar> \<le> of_nat k * u"
    using advanced_err [of x k "?c' + 2"] x assms(7) by (simp add: u_def add.assoc)
  moreover have "of_nat (k + 1) * u = of_nat k * u + u" by (simp add: distrib_right)
  ultimately have "\<bar>of_nat k / weight x - (?c' - ?c)\<bar> \<le> 1 / weight x + of_nat (k + 1) * u"
    using x(3,4) y low conjunct1 [OF high] q by (simp only: abs_le_iff) linarith
  then show ?thesis by (simp only: u_def)
qed

text \<open>
  C22. Servers are used in proportion to their weights, up to the drift of rounded additions. From any state
  that satisfies the invariant, with distinct names, \<open>n\<close> calls in a row
  return as long as no period is absorbed within \<open>n\<close> more periods; and for two servers that are up and not fenced, the numbers of times they were chosen,
  each divided by the weight, differ by at most the sum of the inverses of the weights, plus, for each call, a rounding error of
  the size of the current deadline divided by 2 to the power 53, whatever other servers are down.
\<close>

theorem wrr_fair:
  assumes "wrr_inv b" "distinct (map hname (handlers b))"
    and "g \<in> set (handlers b)" "selectable b g" "h \<in> set (handlers b)" "selectable b h"
    and "deadline g \<le> of_nat m" "young (of_nat (m + n)) b"
  shows "\<exists>ns b'. picks n b = Some (ns, b') \<and> length ns = n \<and> curDeadline b' \<le> of_nat (m + n) \<and>
    \<bar>of_nat (count_list ns (hname g)) / weight g - of_nat (count_list ns (hname h)) / weight h\<bar>
      \<le> 1 / weight g + 1 / weight h + of_nat (n + 2) * ((curDeadline b' + 3) / 2 ^ 53)"
proof -
  obtain ns b' where p: "picks n b = Some (ns, b')" "length ns = n" "wrr_inv b'" "curDeadline b \<le> curDeadline b'"
    "curDeadline b' \<le> of_nat (m + n)"
    and adv: "\<And>x. x \<in> set (handlers b) \<Longrightarrow> selectable b x \<Longrightarrow>
      advanced (count_list ns (hname x)) x \<in> set (handlers b')"
    using picks_advance [OF assms(1-4,7,8)] by blast
  let ?u = "(curDeadline b' + 3) / 2 ^ 53" and ?k = "\<lambda>x. count_list ns (hname x)"
  have "0 \<le> curDeadline b'" using p(3) by (simp add: wrr_inv_def)
  then have u: "0 \<le> ?u" by simp
  have "(of_nat (m + n) :: rat) \<le> of_nat (2 ^ 51)" using young_small(1) [OF assms(8,1,3)] by (simp only: of_nat_le_iff)
  then have c: "curDeadline b' \<le> 2 ^ 51" using p(5) by simp
  have share: "\<bar>of_nat (?k x) / weight x - (curDeadline b' - curDeadline b)\<bar> \<le> 1 / weight x + of_nat (?k x + 1) * ?u"
    if "x \<in> set (handlers b)" "selectable b x" for x
    using picks_share [OF assms(1) p(3) that(1) adv [OF that] p(4) c young_small(2) [OF assms(8,1) that(1)]] .
  have "\<bar>of_nat (?k g) / weight g - of_nat (?k h) / weight h\<bar> \<le> 1 / weight g + 1 / weight h + of_nat (n + 2) * ?u"
  proof (cases "hname g = hname h")
    case True
    then have "g = h" using assms(2,3,5) by (auto simp: distinct_map dest: inj_onD)
    moreover have "0 \<le> 1 / weight h" using assms(1,5) by (auto simp: wrr_inv_def on_schedule_def)
    ultimately show ?thesis using u by simp
  next
    case False
    have "?k g + ?k h \<le> n" unfolding p(2) [symmetric] using False by (induction ns) auto
    then have "(of_nat (?k g + 1 + (?k h + 1)) :: rat) \<le> of_nat (n + 2)" by (simp only: of_nat_le_iff)
    from mult_right_mono [OF this u]
    have "of_nat (?k g + 1) * ?u + of_nat (?k h + 1) * ?u \<le> of_nat (n + 2) * ?u"
      by (simp only: of_nat_add [of "?k g + 1"] distrib_right)
    then show ?thesis using share [OF assms(3,4)] share [OF assms(5,6)] by (simp only: abs_le_iff) linarith
  qed
  then show ?thesis using p by blast
qed

theorem wrr_fair_witness:
  "\<exists>ns b'. picks 8 demo_wrr = Some (ns, b') \<and> length ns = 8 \<and> curDeadline b' \<le> 9 \<and>
    \<bar>of_nat (count_list ns ''a'') / 3 - of_nat (count_list ns ''b'')\<bar> \<le> 1 / 3 + 1 + 10 * ((curDeadline b' + 3) / 2 ^ 53)"
  using wrr_fair [OF demo_inv(2), of "\<lparr>handler = 1, hname = ''a'', weight = 3, deadline = fl (1 / 3)\<rparr>"
      "\<lparr>handler = 2, hname = ''b'', weight = 1, deadline = 1\<rparr>" 1 8] demo_third(2)
  by (auto simp: demo_values selectable_def young_def not_less)


subsection \<open>Sticky sessions through the balancer\<close>

definition members :: "('u, 'h) Balancer \<Rightarrow> (string \<times> 'h) set" where
  "members b = (\<lambda>h. (hname h, handler h)) ` set (handlers b)"

text \<open>The maps of the sticky pool know every handler of the balancer.\<close>

definition sticky_ok :: "('u, 'h) Balancer \<Rightarrow> bool" where
  "sticky_ok b \<longleftrightarrow> (\<forall>s. sticky b = Some s \<longrightarrow> (\<forall>(nm, h) \<in> members b. knows s nm h))"

lemma sticky_ok_New: "sticky_ok (New now c hc)"
  by (simp add: sticky_ok_def members_def New_def)

lemma sticky_ok_Add:
  assumes "sticky_ok b" "\<forall>h \<in> set (handlers b). sha256Hash (hname h) \<noteq> sha256Hash nm"
  shows "sticky_ok (Add nm hdl w fence b)"
  using assms by (auto simp: sticky_ok_def members_def Add_def Let_def knows_AddHandler knows_AddHandler_other)

lemma ServeHTTP_fresh:
  assumes "wrr_inv b" "stuck_to (sticky b) (status b) req = None" "ServeHTTP b req = Some (Forward cs nm t, b')"
  shows "(nm, t) \<in> members b \<and> cs = fresh_cookies (sticky b) nm"
proof -
  obtain h where h: "nextServer b = Some (Some h, b')" "nm = hname h" "t = handler h"
    "cs = fresh_cookies (sticky b') nm"
    using assms(2,3) by (auto simp: ServeHTTP_def split: option.splits prod.splits)
  have p: "picked b h b'"
    using h(1) by (intro next_loop_picked [OF _ assms(1)]) (auto simp: nextServer_def split: if_splits)
  then obtain g rest where g: "filter_mset (selectable b) (mset (handlers b)) = add_mset g rest"
    "h = reschedule g"
    by (auto simp: picked_def)
  have "g \<in> set (handlers b)"
    using arg_cong [OF g(1), of set_mset] by auto
  then show ?thesis
    using g(2) h(2-4) p by (auto simp: members_def picked_def)
qed

interpretation wrr_sticky: sticky_dispatch sticky status members wrr_inv "\<lambda>_ b. b" ServeHTTP
  by unfold_locales (simp_all add: ServeHTTP_fresh, simp add: ServeHTTP_def)

text \<open>
  C24. A client that keeps its cookie keeps its server. When a request without a valid cookie is
  served, the answer carries one cookie; a later request with that cookie goes to the
  same server, without consulting the schedule, as long as the server is up and the set of servers
  has not changed: also when the server is fenced, and whatever happened to the schedule and to
  the health of the others.
\<close>

theorem sticky_session:
  fixes b b2 :: "('u, 'h) Balancer"
  assumes "wrr_inv b" "sticky_ok b" "sticky b = Some s" "stuck_to (sticky b) (status b) req = None"
    and "ServeHTTP b req = Some (Forward cs nm t, b')"
    and "sticky b2 = Some s" "nm \<in> status b2"
  shows "\<exists>c. cs = [c] \<and> (\<forall>req2. Cookies req2 (ck_name (cookie s)) = Some (hc_Value c) \<longrightarrow>
    ServeHTTP b2 req2 = Some (Forward [] nm t, b2))"
  using assms(2,3) by (intro wrr_sticky.session [OF assms(1,3) _ assms(4-7)]) (simp add: sticky_ok_def)

definition demo_sticky :: "(unit, nat) Balancer" where
  "demo_sticky = Add ''a'' 1 None False (New 0 (Some demo_config) True)"

theorem sticky_session_witness:
  "\<exists>s req c b'. sticky demo_sticky = Some s \<and> ServeHTTP demo_sticky req = Some (Forward [c] ''a'' 1, b') \<and>
    (\<forall>req2. Cookies req2 (ck_name (cookie s)) = Some (hc_Value c) \<longrightarrow>
       ServeHTTP demo_sticky req2 = Some (Forward [] ''a'' 1, demo_sticky))"
proof -
  have "handlers (New 0 (Some demo_config) True :: (unit, nat) Balancer) = []"
    by (simp add: New_def)
  then have inv: "wrr_inv demo_sticky" "sticky_ok demo_sticky"
    by (simp_all add: demo_sticky_def wrr_inv_New wrr_inv_Add sticky_ok_Add sticky_ok_New)
  obtain s where s: "sticky demo_sticky = Some s" "cookie s = cookie (NewSticky 0 demo_config :: nat sticky)"
    by (simp add: demo_sticky_def New_def Add_def AddHandler_def Let_def)
  define req where "req = \<lparr>Method = ''GET'', EscapedPath = ''/'', URLQuery = Map.empty, Header = (\<lambda>k. []),
     RemoteAddr = [], Cookies = Map.empty, ctxRoutingPath = None, ctxCanonicalHost = None, ctxFlattenHost = None\<rparr>"
  have stuck: "stuck_to (sticky demo_sticky) (status demo_sticky) req = None"
    by (simp add: stuck_to_def s StickyHandler_def req_def)
  have hs: "handlers demo_sticky = [\<lparr>handler = 1, hname = ''a'', weight = 1, deadline = 1\<rparr>]"
    "status demo_sticky = {''a''}" "fenced demo_sticky = {}"
    by (simp_all add: demo_sticky_def New_def Add_def Let_def heap_Push_def heap_up_first)
  have "fl 2 = 2" using fl_of_int [of 2] by simp
  then have "turn demo_sticky = Some (\<lparr>handler = 1, hname = ''a'', weight = 1, deadline = 2\<rparr>,
      demo_sticky\<lparr>handlers := [\<lparr>handler = 1, hname = ''a'', weight = 1, deadline = 2\<rparr>], curDeadline := 1\<rparr>)"
    by (simp add: turn_def reschedule_def hs heap_Pop_def heap_down.simps [of Less _ 0 0] swap_def Let_def heap_Push_def heap_up_first)
  then obtain b' where "nextServer demo_sticky = Some (Some \<lparr>handler = 1, hname = ''a'', weight = 1, deadline = 2\<rparr>, b')"
    by (simp add: nextServer_def hs next_loop.simps [of demo_sticky] selectable_def)
  then obtain cs where "ServeHTTP demo_sticky req = Some (Forward cs ''a'' 1, b')"
    using stuck by (simp add: ServeHTTP_def)
  with sticky_session [OF inv s(1) stuck this s(1)] s(1) hs(2) show ?thesis by auto
qed

subsection \<open>Reachable balancers\<close>

inductive reachable :: "('u, 'h) Balancer \<Rightarrow> bool" where
  new: "reachable (New now c hc)"
| add: "reachable b \<Longrightarrow> reachable (Add nm hdl w fence b)"
| report: "reachable b \<Longrightarrow> reachable (fst (SetStatus c s b))"
| register: "reachable b \<Longrightarrow> RegisterStatusUpdater u b = Ok b' \<Longrightarrow> reachable b'"
| serve: "reachable b \<Longrightarrow> ServeHTTP b req = Some (r, b') \<Longrightarrow> reachable b'"

lemma nextServer_inv: "nextServer b = Some (r, b') \<Longrightarrow> wrr_inv b \<Longrightarrow> wrr_inv b'"
  using next_loop_picked [of b] by (auto simp: nextServer_def picked_def split: if_splits)

lemma reachable_wrr_inv: "reachable b \<Longrightarrow> wrr_inv b"
proof (induction rule: reachable.induct)
  case (register b u b')
  then show ?case
    by (auto simp: wrr_inv_def RegisterStatusUpdater_def registerStatusUpdater_def split: if_splits)
next
  case (serve b req r b')
  then show ?case
    by (auto simp: ServeHTTP_def nextServer_inv split: option.splits prod.splits)
qed (simp_all add: wrr_inv_New wrr_inv_Add wrr_inv_SetStatus)

text \<open>
  C26. The schedule is sound in every state a balancer can be in. Through any sequence of
  additions, health reports, registrations and requests the handlers stay in heap order with
  positive weights, every deadline stays within one period of the current deadline, and only
  handlers that exist are fenced.
\<close>

theorem wrr_reachable_inv:
  assumes "reachable b"
  shows "wrr_inv b"
  using assms by (rule reachable_wrr_inv)

theorem wrr_reachable_inv_witness: "reachable demo_hang \<and> wrr_inv demo_hang"
proof -
  have "reachable demo_hang"
    unfolding demo_hang_def by (intro reachable.intros)
  with wrr_reachable_inv [OF this] show ?thesis by blast
qed

text \<open>
  A reachable balancer whose next call does not return although a server is up: one server has been used alone for 2 to the power 33
  requests, then one with a weight of 2 to the power 21 is added and goes down at once.
\<close>

definition solo :: "nat \<Rightarrow> (unit, nat) Balancer" where
  "solo n = \<lparr>wantsHealthCheck = True, status = {''a''}, updaters = [],
     handlers = [\<lparr>handler = 1, hname = ''a'', weight = 1, deadline = of_nat (Suc n)\<rparr>],
     fenced = {}, sticky = None, curDeadline = of_nat n\<rparr>"

lemma solo_nextServer:
  assumes "n < 2 ^ 52"
  shows "\<exists>h. nextServer (solo n) = Some (Some h, solo (Suc n))"
proof -
  have "int n + 2 \<le> 2 ^ 53" using assms by simp
  then have r: "fl (of_nat n + 2) = of_nat n + 2" using fl_of_int [of "int n + 2"] by simp
  have "turn (solo n) = Some (\<lparr>handler = 1, hname = ''a'', weight = 1, deadline = of_nat (Suc (Suc n))\<rparr>, solo (Suc n))"
    by (simp add: turn_def reschedule_def solo_def heap_Pop_def heap_down.simps [of Less _ 0 0] swap_def Let_def heap_Push_def
        heap_up_first r add.commute)
  then show ?thesis
    by (simp add: nextServer_def next_loop.simps [of "solo n"] selectable_def) (simp add: solo_def)
qed

lemma solo_reachable: "n \<le> 2 ^ 52 \<Longrightarrow> reachable (solo n)"
proof (induction n)
  case 0
  have "solo 0 = Add ''a'' 1 None False (New 0 None True)"
    by (simp add: solo_def Add_def New_def Let_def heap_Push_def heap_up_first)
  then show ?case using reachable.add [OF reachable.new] by simp
next
  case (Suc n)
  obtain h where "nextServer (solo n) = Some (Some h, solo (Suc n))" using solo_nextServer [of n] Suc.prems by auto
  then have "\<exists>r. ServeHTTP (solo n) req = Some (r, solo (Suc n))" for req
    by (simp add: ServeHTTP_def stuck_to_def) (simp add: solo_def)
  then obtain r where "ServeHTTP (solo n) undefined = Some (r, solo (Suc n))" by blast
  moreover have "reachable (solo n)" using Suc by simp
  ultimately show ?case using reachable.serve by blast
qed

definition demo_absorbed :: "(unit, nat) Balancer" where
  "demo_absorbed = fst (SetStatus ''b'' False (Add ''b'' 2 (Some (2 ^ 21)) False (solo (2 ^ 33))))"

lemma demo_absorbed_values:
  "status demo_absorbed = {''a''}" "fenced demo_absorbed = {}"
  "set (handlers demo_absorbed) = {\<lparr>handler = 2, hname = ''b'', weight = 2 ^ 21, deadline = 2 ^ 33\<rparr>,
     \<lparr>handler = 1, hname = ''a'', weight = 1, deadline = 2 ^ 33 + 1\<rparr>}"
proof -
  have "fl (2 ^ 21) = 2 ^ 21" "fl (1 / 2 ^ 21) = 1 / 2 ^ 21"
    using fl_of_int [of "2 ^ 21"] fl_pow2 [of "- 21"] power_int_minus_divide [of "2 :: rat" 21] by simp_all
  then have f: "fl 2097152 = 2097152" "fl (1 / 2097152) = 1 / 2097152" "fl (18014398509481985 / 2097152) = 8589934592"
    using fl_absorbs by simp_all
  show "status demo_absorbed = {''a''}" "fenced demo_absorbed = {}"
    by (simp_all add: demo_absorbed_def SetStatus_def setStatus_def Add_def Let_def solo_def)
  show "set (handlers demo_absorbed) = {\<lparr>handler = 2, hname = ''b'', weight = 2 ^ 21, deadline = 2 ^ 33\<rparr>,
     \<lparr>handler = 1, hname = ''a'', weight = 1, deadline = 2 ^ 33 + 1\<rparr>}"
    by (simp add: demo_absorbed_def SetStatus_def setStatus_def Add_def Let_def solo_def f)
qed

theorem nextServer_absorbed_reachable:
  "reachable demo_absorbed \<and> ''a'' \<in> status demo_absorbed \<and> ''a'' \<notin> fenced demo_absorbed \<and> nextServer demo_absorbed = None"
proof -
  let ?a = "\<lparr>handler = 1, hname = ''a'', weight = 1, deadline = 2 ^ 33 + 1\<rparr> :: nat namedHandler"
    and ?b = "\<lparr>handler = 2, hname = ''b'', weight = 2 ^ 21, deadline = 2 ^ 33\<rparr> :: nat namedHandler"
  have r: "reachable demo_absorbed"
    unfolding demo_absorbed_def by (rule reachable.report, rule reachable.add, rule solo_reachable) simp
  have "fl (1 / 2 ^ 21) = 1 / 2 ^ 21" using fl_pow2 [of "- 21"] power_int_minus_divide [of "2 :: rat" 21] by simp
  then have "reschedule ?b = ?b" using fl_absorbs by (simp only: reschedule_def namedHandler.simps)
  then have "absorbed ?b demo_absorbed"
    unfolding absorbed_def demo_absorbed_values selectable_def
    using reachable_wrr_inv [OF r] by (simp only: ball_simps namedHandler.simps insert_iff) simp
  moreover have "?a \<in> set (handlers demo_absorbed)" "selectable demo_absorbed ?a"
    by (simp_all only: demo_absorbed_values selectable_def) simp_all
  ultimately have "nextServer demo_absorbed = None" by (rule nextServer_absorbed)
  then show ?thesis using r by (simp only: demo_absorbed_values) simp
qed

text \<open>
  C27. A parent's view of a child balancer never goes stale. If the hook of the parent is
  registered on the child and their views agree, then after any sequence of health reports of
  the child's own children, delivered through the hook as they happen, the child counts as up at
  the parent exactly when one of its own children is up.
\<close>

theorem parent_tracks_child:
  assumes "u \<in> set (updaters b)" "nm \<in> status p \<longleftrightarrow> status b \<noteq> {}"
  shows "nm \<in> status (wrr_in_wrr.deliver u nm (snd (wrr_status.reports es b)) p)
    \<longleftrightarrow> status (fst (wrr_status.reports es b)) \<noteq> {}"
  by (rule wrr_in_wrr.parent_in_sync [OF assms])

definition demo_child :: "(nat, nat) Balancer" where
  "demo_child = (Add ''x'' 1 None False (New 0 None True))\<lparr>updaters := [7]\<rparr>"

definition demo_parent :: "(nat, nat) Balancer" where
  "demo_parent = Add ''child'' 2 None False (New 0 None True)"

theorem parent_tracks_child_witness:
  "\<not> (''child'' \<in> status (wrr_in_wrr.deliver 7 ''child'' (snd (wrr_status.reports [(''x'', False)] demo_child)) demo_parent))"
proof -
  have "7 \<in> set (updaters demo_child)" "status demo_child = {''x''}" "status demo_parent = {''child''}"
    by (simp_all add: demo_child_def demo_parent_def Add_def New_def Let_def)
  moreover from this have "status (fst (wrr_status.reports [(''x'', False)] demo_child)) = {}"
    by (simp add: wrr_status.reports.simps SetStatus_def setStatus_def Let_def)
  ultimately show ?thesis
    using parent_tracks_child [of 7 demo_child "''child''" demo_parent "[(''x'', False)]"] by simp
qed

end
