(* ===== verification/P2C.thy ===== *)
theory P2C
  imports BalancerStatus Sticky
begin

section \<open>Power of two random choices (\<open>pkg/server/service/loadbalancer/p2c\<close>)\<close>

text \<open>
  The balancer draws two different usable handlers and takes the one with fewer requests in
  flight. All operations are modelled. Handlers are shared by pointer between the slice and the
  sticky pool; since the slice only grows, the pointer is the index in the slice, and so the
  pool holds indexes. The source of random numbers is the interface \<open>rnd\<close> of the code: its state is a
  field, and \<open>Intn\<close> an argument of the operations that draw, assumed to answer in range
  (\<open>in_range\<close>).

  A request is two steps: \<open>ServeHTTP\<close> chooses and counts the request in, \<open>finish\<close> is the deferred
  decrement when the handler returns. Requests of other clients may run in between.
\<close>

record 'h namedHandler =
  handler :: 'h
  hname :: string
  inflight :: int

record ('u, 'h, 'r) Balancer = "'u children" +
  handlers :: "'h namedHandler list"
  fenced :: "string set"
  sticky :: "nat sticky option"
  rand :: 'r

definition New :: "int \<Rightarrow> 'r \<Rightarrow> cookieConfig option \<Rightarrow> bool \<Rightarrow> ('u, 'h, 'r) Balancer" where
  "New now r stickyCookieConfig hc =
     \<lparr>wantsHealthCheck = hc, status = {}, updaters = [], handlers = [], fenced = {},
      sticky = map_option (NewSticky now) stickyCookieConfig, rand = r\<rparr>"

definition SetStatus :: "string \<Rightarrow> bool \<Rightarrow> ('u, 'h, 'r) Balancer \<Rightarrow> ('u, 'h, 'r) Balancer \<times> ('u \<times> bool) list" where
  "SetStatus childName up b = setStatus childName up b"

definition RegisterStatusUpdater :: "'u \<Rightarrow> ('u, 'h, 'r) Balancer \<Rightarrow> ('u, 'h, 'r) Balancer outcome" where
  "RegisterStatusUpdater fn b = registerStatusUpdater ''healthCheck not enabled in config for this P2C service'' fn b"

definition AddServer :: "string \<Rightarrow> 'h \<Rightarrow> dynServer \<Rightarrow> ('u, 'h, 'r) Balancer \<Rightarrow> ('u, 'h, 'r) Balancer" where
  "AddServer nm hdl server b =
     (let h = length (handlers b);
          b1 = b\<lparr>handlers := handlers b @ [\<lparr>handler = hdl, hname = nm, inflight = 0\<rparr>],
                 status := insert nm (status b),
                 fenced := if srvFenced server then insert nm (fenced b) else fenced b\<rparr>
      in b1\<lparr>sticky := map_option (AddHandler nm h) (sticky b1)\<rparr>)"

definition healthy :: "('u, 'h, 'r) Balancer \<Rightarrow> nat list" where
  "healthy b = filter (\<lambda>i. usable b (fenced b) (hname (handlers b ! i))) [0..<length (handlers b)]"

text \<open>The second draw is moved on by one, with wrap-around, when it hits the first.\<close>

definition second :: "nat \<Rightarrow> nat \<Rightarrow> nat \<Rightarrow> nat" where
  "second n n1 n2 = (if n2 = n1 then (n2 + 1) mod n else n2)"

definition nextServer ::
  "('r \<Rightarrow> nat \<Rightarrow> nat \<times> 'r) \<Rightarrow> ('u, 'h, 'r) Balancer \<Rightarrow> nat option \<times> ('u, 'h, 'r) Balancer" where
  "nextServer Intn b =
     (let hs = healthy b; n = length hs in
      if n = 0 then (None, b)
      else if n = 1 then (Some (hs ! 0), b)
      else let (n1, r1) = Intn (rand b) n; (n2, r2) = Intn r1 n;
               h1 = hs ! n1; h2 = hs ! second n n1 n2
           in (Some (if inflight (handlers b ! h2) < inflight (handlers b ! h1) then h2 else h1),
               b\<lparr>rand := r2\<rparr>))"

text \<open>\<open>namedHandler.ServeHTTP\<close> counts the request while the handler runs.\<close>

definition add_inflight :: "nat \<Rightarrow> int \<Rightarrow> ('u, 'h, 'r) Balancer \<Rightarrow> ('u, 'h, 'r) Balancer" where
  "add_inflight i d b =
     b\<lparr>handlers := (handlers b)[i := (handlers b ! i)\<lparr>inflight := inflight (handlers b ! i) + d\<rparr>]\<rparr>"

definition finish :: "nat \<Rightarrow> ('u, 'h, 'r) Balancer \<Rightarrow> ('u, 'h, 'r) Balancer" where
  "finish i b = add_inflight i (-1) b"

fun admit :: "nat served \<Rightarrow> ('u, 'h, 'r) Balancer \<Rightarrow> ('u, 'h, 'r) Balancer" where
  "admit (Forward cs nm i) b = add_inflight i 1 b"
| "admit Unavailable b = b"

definition ServeHTTP ::
  "('r \<Rightarrow> nat \<Rightarrow> nat \<times> 'r) \<Rightarrow> ('u, 'h, 'r) Balancer \<Rightarrow> request \<Rightarrow> nat served \<times> ('u, 'h, 'r) Balancer" where
  "ServeHTTP Intn b req =
     (case stuck_to (sticky b) (status b) req of
        Some r \<Rightarrow> (r, admit r b)
      | None \<Rightarrow>
          (case nextServer Intn b of
             (None, b') \<Rightarrow> (Unavailable, b')
           | (Some i, b') \<Rightarrow>
               let r = Forward (fresh_cookies (sticky b') (hname (handlers b' ! i))) (hname (handlers b' ! i)) i
               in (r, admit r b')))"

subsection \<open>The choice\<close>

text \<open>The contract of \<open>rnd.Intn\<close>.\<close>

definition in_range :: "('r \<Rightarrow> nat \<Rightarrow> nat \<times> 'r) \<Rightarrow> bool" where
  "in_range Intn \<longleftrightarrow> (\<forall>r n. 0 < n \<longrightarrow> fst (Intn r n) < n)"

lemma second_less: "1 < n \<Longrightarrow> n2 < n \<Longrightarrow> second n n1 n2 < n"
  by (simp add: second_def)

lemma second_other: "1 < n \<Longrightarrow> n1 < n \<Longrightarrow> second n n1 n2 \<noteq> n1"
  by (auto simp: second_def mod_Suc)

lemma nextServer_fields:
  assumes "nextServer Intn b = (r, b')"
  shows "handlers b' = handlers b" "status b' = status b" "fenced b' = fenced b" "sticky b' = sticky b"
  using assms by (auto simp: nextServer_def Let_def split: if_splits prod.splits)

lemma nextServer_two:
  assumes "in_range Intn" "1 < length (healthy b)"
  obtains i j b' where "nextServer Intn b = (Some i, b')" "i \<in> set (healthy b)" "j \<in> set (healthy b)" "i \<noteq> j"
    "inflight (handlers b ! i) \<le> inflight (handlers b ! j)"
proof -
  let ?n = "length (healthy b)"
  obtain n1 r1 where d1: "Intn (rand b) ?n = (n1, r1)" by fastforce
  obtain n2 r2 where d2: "Intn r1 ?n = (n2, r2)" by fastforce
  have n: "n1 < ?n" "n2 < ?n"
    using assms(1) assms(2) d1 d2 unfolding in_range_def by (metis fst_conv gr_implies_not0 neq0_conv)+
  let ?m = "second ?n n1 n2"
  have m: "?m < ?n" "?m \<noteq> n1"
    using second_less [OF assms(2) n(2)] second_other [OF assms(2) n(1)] by auto
  have ne: "healthy b ! n1 \<noteq> healthy b ! ?m"
    using m n(1) by (subst nth_eq_iff_index_eq) (auto simp: healthy_def)
  have r: "nextServer Intn b = (Some (if inflight (handlers b ! (healthy b ! ?m)) < inflight (handlers b ! (healthy b ! n1))
      then healthy b ! ?m else healthy b ! n1), b\<lparr>rand := r2\<rparr>)"
    using assms(2) d1 d2 by (auto simp: nextServer_def Let_def)
  show ?thesis
  proof (cases "inflight (handlers b ! (healthy b ! ?m)) < inflight (handlers b ! (healthy b ! n1))")
    case True
    then show ?thesis using that [OF r, of "healthy b ! n1"] n(1) m(1) ne by simp
  next
    case False
    then show ?thesis using that [OF r, of "healthy b ! ?m"] n(1) m(1) ne by simp
  qed
qed

lemma nextServer_None: "fst (nextServer Intn b) = None \<longleftrightarrow> healthy b = []"
  by (auto simp: nextServer_def Let_def split: prod.splits)

lemma nextServer_healthy:
  assumes "in_range Intn" "fst (nextServer Intn b) = Some i"
  shows "i \<in> set (healthy b)"
proof (cases "1 < length (healthy b)")
  case True
  then show ?thesis
    using nextServer_two [OF assms(1) True] assms(2) by (metis fst_conv option.inject)
next
  case False
  moreover have "healthy b \<noteq> []"
    using assms(2) nextServer_None [of Intn b] by auto
  ultimately obtain h where "healthy b = [h]"
    by (cases "healthy b") auto
  then show ?thesis
    using assms(2) by (simp add: nextServer_def)
qed

text \<open>
  C32. The choice is usable and never the busiest. For any generator of random numbers, \<open>nextServer\<close>
  fails exactly when no handler is up and not fenced; otherwise it returns such a handler, and
  if there are two or more of them there is another one, not the same, with at least as many requests
  in flight.
\<close>

theorem p2c_choice:
  assumes "in_range Intn"
  shows "case fst (nextServer Intn b) of
      None \<Rightarrow> healthy b = []
    | Some i \<Rightarrow> i < length (handlers b) \<and> usable b (fenced b) (hname (handlers b ! i)) \<and>
        (1 < length (healthy b) \<longrightarrow> (\<exists>j \<in> set (healthy b). j \<noteq> i \<and> inflight (handlers b ! i) \<le> inflight (handlers b ! j)))"
proof (cases "fst (nextServer Intn b)")
  case (Some i)
  then have "i \<in> set (healthy b)"
    by (rule nextServer_healthy [OF assms])
  moreover have "\<exists>j \<in> set (healthy b). j \<noteq> i \<and> inflight (handlers b ! i) \<le> inflight (handlers b ! j)"
    if "1 < length (healthy b)"
    using nextServer_two [OF assms that] Some by (metis fst_conv option.inject)
  ultimately show ?thesis
    using Some by (auto simp: healthy_def)
next
  case None
  then show ?thesis by (simp add: nextServer_None [symmetric, of _ Intn])
qed

definition demo_draw :: "nat \<Rightarrow> nat \<Rightarrow> nat \<times> nat" where
  "demo_draw r n = (r mod n, r + 1)"

definition demo_p2c :: "(unit, char, nat) Balancer" where
  "demo_p2c = add_inflight 0 1 (AddServer ''b'' CHR ''b'' \<lparr>srvWeight = None, srvFenced = False\<rparr>
     (AddServer ''a'' CHR ''a'' \<lparr>srvWeight = None, srvFenced = False\<rparr> (New 0 0 None True)))"

theorem p2c_choice_witness:
  "fst (nextServer demo_draw demo_p2c) = Some 1 \<and> usable demo_p2c (fenced demo_p2c) (hname (handlers demo_p2c ! 1))"
proof -
  have "in_range demo_draw"
    by (simp add: in_range_def demo_draw_def)
  from p2c_choice [OF this, of demo_p2c] show ?thesis
    by (simp add: nextServer_def healthy_def usable_def demo_draw_def second_def Let_def
        demo_p2c_def add_inflight_def AddServer_def New_def numeral_2_eq_2)
qed

text \<open>
  The two draws do not pick all pairs alike. Given the first draw, the numbers of second draws that
  lead to each other handler are one, but two for the next handler in the list: both draws range over
  the whole list, and a repetition moves on by one. With the second draw from one number fewer and a
  shift, as described in the comment of the code, each pair would come from exactly one draw.
\<close>

theorem p2c_pair_draws:
  assumes "1 < n" "i < n" "j < n" "i \<noteq> j"
  shows "card {n2. n2 < n \<and> second n i n2 = j} = (if j = (i + 1) mod n then 2 else 1)"
proof (cases "j = (i + 1) mod n")
  case True
  then have "{n2. n2 < n \<and> second n i n2 = j} = {i, j}"
    using assms by (auto simp: second_def)
  then show ?thesis using True assms(4) by simp
next
  case False
  then have "{n2. n2 < n \<and> second n i n2 = j} = {j}"
    using assms by (auto simp: second_def)
  then show ?thesis using False by simp
qed

theorem p2c_pair_draws_witness:
  "card {n2. n2 < 3 \<and> second 3 0 n2 = 1} = 2 \<and> card {n2. n2 < 3 \<and> second 3 0 n2 = 2} = 1"
  using p2c_pair_draws [of 3 0 1] p2c_pair_draws [of 3 0 2] by simp

subsection \<open>Requests in flight\<close>

text \<open>The pool and the slice agree on the pointers.\<close>

definition pool_ok :: "('u, 'h, 'r) Balancer \<Rightarrow> bool" where
  "pool_ok b \<longleftrightarrow> (\<forall>s h. sticky b = Some s \<longrightarrow> h \<in> ran (stickyMap s) \<union> ran (compatibilityStickyMap s) \<longrightarrow>
     nh_Handler h < length (handlers b))"

text \<open>Balancers with the requests they are serving, by handler.\<close>

inductive reachable :: "('r \<Rightarrow> nat \<Rightarrow> nat \<times> 'r) \<Rightarrow> ('u, 'h, 'r) Balancer \<Rightarrow> nat list \<Rightarrow> bool" for Intn where
  new: "reachable Intn (New now r c hc) []"
| add: "reachable Intn b act \<Longrightarrow> reachable Intn (AddServer nm hdl server b) act"
| report: "reachable Intn b act \<Longrightarrow> reachable Intn (fst (SetStatus c s b)) act"
| register: "reachable Intn b act \<Longrightarrow> RegisterStatusUpdater u b = Ok b' \<Longrightarrow> reachable Intn b' act"
| serve: "reachable Intn b act \<Longrightarrow> ServeHTTP Intn b req = (Forward cs nm i, b') \<Longrightarrow> reachable Intn b' (i # act)"
| refuse: "reachable Intn b act \<Longrightarrow> ServeHTTP Intn b req = (Unavailable, b') \<Longrightarrow> reachable Intn b' act"
| finish: "reachable Intn b (as @ i # bs) \<Longrightarrow> reachable Intn (finish i b) (as @ bs)"

definition inflight_ok :: "('u, 'h, 'r) Balancer \<Rightarrow> nat list \<Rightarrow> bool" where
  "inflight_ok b act \<longleftrightarrow> set act \<subseteq> {..<length (handlers b)} \<and>
     (\<forall>i < length (handlers b). inflight (handlers b ! i) = int (count_list act i))"

lemma stuck_in_pool:
  assumes "pool_ok b" "stuck_to (sticky b) (status b) req = Some r"
  shows "\<exists>cs nm i. r = Forward cs nm i \<and> i < length (handlers b)"
  using assms by (fastforce simp: stuck_to_def StickyHandler_def pool_ok_def ran_def split: option.splits if_splits)

lemma add_inflight_simps [simp]:
  "sticky (add_inflight i d b) = sticky b" "length (handlers (add_inflight i d b)) = length (handlers b)"
  "i < length (handlers b) \<Longrightarrow> inflight (handlers (add_inflight i d b) ! j) = inflight (handlers b ! j) + (if j = i then d else 0)"
  by (auto simp: add_inflight_def nth_list_update)

lemma ServeHTTP_cases:
  assumes "in_range Intn" "pool_ok b" "ServeHTTP Intn b req = (r, b')"
  obtains (forward) cs nm i b1 where "r = Forward cs nm i" "i < length (handlers b)" "b' = add_inflight i 1 b1"
      "handlers b1 = handlers b" "sticky b1 = sticky b"
    | (refuse) "r = Unavailable" "handlers b' = handlers b" "sticky b' = sticky b"
proof (cases "stuck_to (sticky b) (status b) req")
  case (Some r')
  then obtain cs nm i where "r' = Forward cs nm i" "i < length (handlers b)"
    using stuck_in_pool [OF assms(2)] by blast
  with Some that(1) [of cs nm i b] assms(3) show ?thesis
    by (simp add: ServeHTTP_def)
next
  case None
  obtain x b1 where n: "nextServer Intn b = (x, b1)" by fastforce
  note f = nextServer_fields [OF n]
  have "i < length (handlers b)" if "x = Some i" for i
    using nextServer_healthy [OF assms(1), of b i] n that by (simp add: healthy_def)
  then show ?thesis
    using that(1) [of _ _ _ b1] that(2) f assms(3) None n by (auto simp: ServeHTTP_def Let_def split: option.splits)
qed

lemma reachable_ok:
  assumes "reachable Intn b act" "in_range Intn"
  shows "pool_ok b \<and> inflight_ok b act"
  using assms
proof (induction rule: reachable.induct)
  case (new now r c hc)
  then show ?case
    by (auto simp: New_def pool_ok_def inflight_ok_def NewSticky_def)
next
  case (add b act nm hdl server)
  then have "pool_ok b" "inflight_ok b act" by auto
  then show ?case
    by (fastforce simp: AddServer_def pool_ok_def inflight_ok_def AddHandler_def Let_def nth_append ran_def
        count_list_0_iff less_Suc_eq split: if_splits)
next
  case (report b act c s)
  then show ?case
    by (auto simp: SetStatus_def setStatus_def Let_def pool_ok_def inflight_ok_def)
next
  case (register b act u b')
  then show ?case
    by (auto simp: RegisterStatusUpdater_def registerStatusUpdater_def pool_ok_def inflight_ok_def split: if_splits)
next
  case (serve b act req cs nm i b')
  then have ok: "pool_ok b" "inflight_ok b act" by auto
  show ?case
    using ServeHTTP_cases [OF serve.prems ok(1) serve.hyps(2)] ok
    by cases (auto simp: pool_ok_def inflight_ok_def)
next
  case (refuse b act req b')
  then have ok: "pool_ok b" "inflight_ok b act" by auto
  show ?case
    using ServeHTTP_cases [OF refuse.prems ok(1) refuse.hyps(2)] ok
    by cases (auto simp: pool_ok_def inflight_ok_def)
next
  case (finish b as i bs)
  then have "pool_ok b" "inflight_ok b (as @ i # bs)" by auto
  then show ?case
    by (auto simp: finish_def pool_ok_def inflight_ok_def)
qed

text \<open>
  C33. The counters are exact. After any sequence of additions, health reports, registrations, and
  requests that start and finish in any order, also those routed by a cookie, the counter of every
  handler is the number of requests it is serving.
\<close>

theorem p2c_counts:
  assumes "reachable Intn b act" "in_range Intn" "i < length (handlers b)"
  shows "inflight (handlers b ! i) = int (count_list act i)"
  using reachable_ok [OF assms(1,2)] assms(3) by (simp add: inflight_ok_def)

definition demo_request :: request where
  "demo_request = \<lparr>Method = ''GET'', EscapedPath = ''/'', URLQuery = Map.empty, Header = (\<lambda>k. []),
     RemoteAddr = [], Cookies = Map.empty, ctxRoutingPath = None, ctxCanonicalHost = None, ctxFlattenHost = None\<rparr>"

definition demo_single :: "(unit, char, nat) Balancer" where
  "demo_single = AddServer ''a'' CHR ''a'' \<lparr>srvWeight = None, srvFenced = False\<rparr> (New 0 0 None True)"

theorem p2c_counts_witness:
  "inflight (handlers (snd (ServeHTTP demo_draw demo_single demo_request)) ! 0) = 1"
proof -
  have serve: "ServeHTTP demo_draw demo_single demo_request = (Forward [] ''a'' 0, add_inflight 0 1 demo_single)"
    by (simp add: ServeHTTP_def stuck_to_def fresh_cookies_def nextServer_def healthy_def usable_def Let_def
        demo_single_def AddServer_def New_def)
  have "reachable demo_draw demo_single []"
    unfolding demo_single_def by (intro reachable.intros)
  from reachable.serve [OF this serve] have "reachable demo_draw (add_inflight 0 1 demo_single) [0]" .
  moreover have "in_range demo_draw" "0 < length (handlers (add_inflight 0 1 demo_single))"
    by (simp_all add: in_range_def demo_draw_def demo_single_def AddServer_def New_def Let_def)
  ultimately show ?thesis
    using p2c_counts [of demo_draw "add_inflight 0 1 demo_single" "[0]" 0] by (simp add: serve)
qed

subsection \<open>Sessions and health\<close>

definition members :: "('u, 'h, 'r) Balancer \<Rightarrow> (string \<times> nat) set" where
  "members b = (\<lambda>i. (hname (handlers b ! i), i)) ` {..<length (handlers b)}"

interpretation p2c_sticky: sticky_dispatch sticky status members "\<lambda>_. in_range Intn" admit
  "\<lambda>b req. Some (ServeHTTP Intn b req)" for Intn :: "'r \<Rightarrow> nat \<Rightarrow> nat \<times> 'r"
proof unfold_locales
  fix b :: "('u, 'h, 'r) Balancer" and req cs nm h b'
  assume a: "in_range Intn" "stuck_to (sticky b) (status b) req = None"
    "Some (ServeHTTP Intn b req) = Some (Forward cs nm h, b')"
  obtain x b1 where n: "nextServer Intn b = (x, b1)" by fastforce
  have "h < length (handlers b)" if "x = Some h"
    using nextServer_healthy [OF a(1), of b h] n that by (simp add: healthy_def)
  then show "(nm, h) \<in> members b \<and> cs = fresh_cookies (sticky b) nm"
    using a n nextServer_fields [OF n] by (auto simp: ServeHTTP_def members_def Let_def split: option.splits)
qed (simp add: ServeHTTP_def)

interpretation p2c_status: status_tracker SetStatus status updaters
  unfolding SetStatus_def by (rule children.status_tracker_axioms)

end
