(* ===== verification/Hrw.thy ===== *)
theory Hrw
  imports Float64 BalancerStatus IpCheck Hashes "HOL-Library.Sublist" "HOL-Library.Code_Target_Nat"
begin

section \<open>Rendezvous hashing (\<open>pkg/server/service/loadbalancer/hrw\<close>)\<close>

text \<open>
  The balancer gives each client the handler with the highest score of the hash of client address
  and handler name. All operations are modelled. The conversion of the hash to \<open>float64\<close> is
  written out; \<open>math.Log\<close> is an argument, on positive numbers; what the code does
  with the infinities it yields at the two ends of the range is written out. The
  division by a power of two is exact, the other operations are rounded by \<open>fl\<close> of \<open>Float64\<close>.
\<close>

record 'h namedHandler =
  handler :: 'h
  hname :: string
  weight :: rat

record ('u, 'h) Balancer = "'u children" +
  handlers :: "'h namedHandler list"
  fenced :: "string set"

definition New :: "bool \<Rightarrow> ('u, 'h) Balancer" where
  "New hc = \<lparr>wantsHealthCheck = hc, status = {}, updaters = [], handlers = [], fenced = {}\<rparr>"

subsection \<open>Scores\<close>

fun bit_length :: "nat \<Rightarrow> nat" where
  "bit_length n = (if n = 0 then 0 else Suc (bit_length (n div 2)))"

declare bit_length.simps [simp del]

text \<open>Conversion of an unsigned integer to \<open>float64\<close>: 53 bits, rounded to nearest, ties to even.\<close>

definition float64_of_uint :: "nat \<Rightarrow> nat" where
  "float64_of_uint n =
     (let s = bit_length n - 53; q = n div 2 ^ s; r = 2 * (n mod 2 ^ s) in
      (if r > 2 ^ s \<or> r = 2 ^ s \<and> odd q then q + 1 else q) * 2 ^ s)"

datatype float64 = NegInf | Fin rat

text \<open>
  \<open>math.Log\<close> is minus infinity at 0, which makes the score 0, and 0 at 1, which makes it \<open>1.0 / -0\<close>, minus
  infinity.
\<close>

definition getNodeScore :: "(rat \<Rightarrow> rat) \<Rightarrow> 'h namedHandler \<Rightarrow> string \<Rightarrow> float64" where
  "getNodeScore Log h src =
     (let score = of_nat (float64_of_uint (unat (fnv64a (src @ hname h)))) / 2 ^ 64 in
      if score = 0 then Fin 0
      else if score = 1 then NegInf
      else Fin (fl (fl (1 / - Log score) * weight h)))"

definition SetStatus :: "string \<Rightarrow> bool \<Rightarrow> ('u, 'h) Balancer \<Rightarrow> ('u, 'h) Balancer \<times> ('u \<times> bool) list" where
  "SetStatus childName up b = setStatus childName up b"

definition RegisterStatusUpdater :: "'u \<Rightarrow> ('u, 'h) Balancer \<Rightarrow> ('u, 'h) Balancer outcome" where
  "RegisterStatusUpdater fn b = registerStatusUpdater ''healthCheck not enabled in config for this HRW service'' fn b"

definition Add :: "string \<Rightarrow> 'h \<Rightarrow> int option \<Rightarrow> bool \<Rightarrow> ('u, 'h) Balancer \<Rightarrow> ('u, 'h) Balancer" where
  "Add nm hdl w fence b =
     (let w = (case w of None \<Rightarrow> 1 | Some w \<Rightarrow> w) in
      if w \<le> 0 then b
      else b\<lparr>handlers := handlers b @ [\<lparr>handler = hdl, hname = nm, weight = fl (of_int w)\<rparr>],
             status := insert nm (status b),
             fenced := if fence then insert nm (fenced b) else fenced b\<rparr>)"

definition AddServer :: "string \<Rightarrow> 'h \<Rightarrow> dynServer \<Rightarrow> ('u, 'h) Balancer \<Rightarrow> ('u, 'h) Balancer" where
  "AddServer nm hdl server b = Add nm hdl (srvWeight server) (srvFenced server) b"

definition healthy :: "('u, 'h) Balancer \<Rightarrow> 'h namedHandler list" where
  "healthy b = filter (\<lambda>h. usable b (fenced b) (hname h)) (handlers b)"

fun pick :: "('a \<Rightarrow> float64) \<Rightarrow> 'a list \<Rightarrow> 'a option \<Rightarrow> rat \<Rightarrow> 'a option" where
  "pick f [] best score = best"
| "pick f (h # hs) best score =
     (case f h of
        NegInf \<Rightarrow> pick f hs best score
      | Fin s \<Rightarrow> if s > score then pick f hs (Some h) s else pick f hs best score)"

text \<open>The result is used without a test for nil.\<close>

definition nextServer :: "(rat \<Rightarrow> rat) \<Rightarrow> ('u, 'h) Balancer \<Rightarrow> string \<Rightarrow> 'h namedHandler outcome" where
  "nextServer Log b src =
     (if healthy b = [] then Err ''no available server''
      else case pick (\<lambda>h. getNodeScore Log h src) (healthy b) None 0 of
        None \<Rightarrow> Panic
      | Some h \<Rightarrow> Ok h)"

text \<open>\<open>Ok None\<close> is the answer 503, \<open>Ok (Some h)\<close> a request handed to \<open>h\<close>.\<close>

definition ServeHTTP :: "ipLib \<Rightarrow> (rat \<Rightarrow> rat) \<Rightarrow> ('u, 'h) Balancer \<Rightarrow> request \<Rightarrow> 'h namedHandler option outcome" where
  "ServeHTTP L Log b req =
     (case nextServer Log b (RemoteAddrStrategy_GetIP L None req) of
        Ok h \<Rightarrow> Ok (Some h)
      | Err _ \<Rightarrow> Ok None
      | Panic \<Rightarrow> Panic)"

interpretation hrw_status: status_tracker SetStatus status updaters
  unfolding SetStatus_def by (rule children.status_tracker_axioms)

subsection \<open>The handler with the highest score\<close>

text \<open>A score as a number; minus infinity never wins and may be any negative one.\<close>

definition value_of :: "float64 \<Rightarrow> rat" where
  "value_of x = (case x of NegInf \<Rightarrow> - 1 | Fin s \<Rightarrow> s)"

lemma pick_Cons:
  "0 \<le> score \<Longrightarrow> pick f (h # hs) best score =
     (if value_of (f h) > score then pick f hs (Some h) (value_of (f h)) else pick f hs best score)"
  by (auto simp: value_of_def split: float64.split)

declare pick.simps(2) [simp del]

text \<open>The loop finds the first of the handlers with the highest score above the initial one.\<close>

definition first_best :: "('a \<Rightarrow> float64) \<Rightarrow> 'a list \<Rightarrow> rat \<Rightarrow> 'a \<Rightarrow> bool" where
  "first_best f hs score h \<longleftrightarrow> score < value_of (f h) \<and>
     (\<exists>as bs. hs = as @ h # bs \<and> (\<forall>g \<in> set as. value_of (f g) < value_of (f h)) \<and>
        (\<forall>g \<in> set bs. value_of (f g) \<le> value_of (f h)))"

lemma first_best_Cons:
  assumes "first_best f hs t h" "value_of (f x) < value_of (f h)" "score < value_of (f h)"
  shows "first_best f (x # hs) score h"
proof -
  obtain as bs where "hs = as @ h # bs" "\<forall>g \<in> set as. value_of (f g) < value_of (f h)"
    "\<forall>g \<in> set bs. value_of (f g) \<le> value_of (f h)"
    using assms(1) by (auto simp: first_best_def)
  then show ?thesis
    unfolding first_best_def using assms(2,3) by (intro conjI exI [of _ "x # as"] exI [of _ bs]) auto
qed

lemma pick_first_best:
  "0 \<le> score \<Longrightarrow> pick f hs best score = best \<and> (\<forall>g \<in> set hs. value_of (f g) \<le> score)
     \<or> (\<exists>h. pick f hs best score = Some h \<and> first_best f hs score h)"
proof (induction hs arbitrary: best score)
  case (Cons x hs)
  show ?case
  proof (cases "value_of (f x) > score")
    case True
    then have "0 \<le> value_of (f x)" using Cons.prems by simp
    from Cons.IH [OF this, of "Some x"] show ?thesis
    proof (elim disjE exE conjE)
      assume "pick f hs (Some x) (value_of (f x)) = Some x" "\<forall>g \<in> set hs. value_of (f g) \<le> value_of (f x)"
      then have "first_best f (x # hs) score x"
        unfolding first_best_def using True by (intro conjI exI [of _ "[]"] exI [of _ hs]) auto
      with True Cons.prems \<open>pick f hs (Some x) _ = _\<close> show ?thesis by (simp add: pick_Cons)
    next
      fix h
      assume "pick f hs (Some x) (value_of (f x)) = Some h" "first_best f hs (value_of (f x)) h"
      moreover from this(2) True have "first_best f (x # hs) score h"
        by (intro first_best_Cons) (auto simp: first_best_def)
      ultimately show ?thesis using True Cons.prems by (simp add: pick_Cons)
    qed
  next
    case False
    from Cons.IH [OF Cons.prems, of best] show ?thesis
    proof (elim disjE exE conjE)
      fix h
      assume "pick f hs best score = Some h" "first_best f hs score h"
      moreover from this(2) False have "first_best f (x # hs) score h"
        by (intro first_best_Cons) (auto simp: first_best_def)
      ultimately show ?thesis using False Cons.prems by (simp add: pick_Cons)
    qed (use False Cons.prems in \<open>simp add: pick_Cons\<close>)
  qed
qed simp

lemma first_bestD:
  assumes "first_best f hs score h"
  shows "h \<in> set hs" "score < value_of (f h)" "g \<in> set hs \<Longrightarrow> value_of (f g) \<le> value_of (f h)"
  using assms unfolding first_best_def by (auto, force)

text \<open>Handlers with the highest score keep their order in a part of the list.\<close>

lemma subseq_set: "subseq xs ys \<Longrightarrow> set xs \<subseteq> set ys"
  by (auto simp: subseq_conv_nths dest: in_set_nthsD)

lemma first_best_filter:
  assumes "first_best f hs score h"
  shows "\<exists>rest. filter (\<lambda>g. value_of (f g) = value_of (f h)) hs = h # rest"
proof -
  obtain as bs where "hs = as @ h # bs" "\<forall>g \<in> set as. value_of (f g) < value_of (f h)"
    using assms by (auto simp: first_best_def)
  moreover from this(2) have "filter (\<lambda>g. value_of (f g) = value_of (f h)) as = []"
    by (auto simp: filter_empty_conv)
  ultimately show ?thesis by simp
qed

lemma first_best_subseq:
  assumes "first_best f hs score h" "first_best f hs' score h'" "subseq hs' hs" "h \<in> set hs'" "distinct hs"
  shows "h' = h"
proof -
  have "h' \<in> set hs"
    using first_bestD(1) [OF assms(2)] subseq_set [OF assms(3)] by blast
  then have eq: "value_of (f h') = value_of (f h)"
    using first_bestD(3) [OF assms(1)] first_bestD(3) [OF assms(2) assms(4)] by (simp add: antisym)
  let ?P = "\<lambda>g. value_of (f g) = value_of (f h)"
  have hd: "\<exists>rest. filter ?P hs = h # rest" "\<exists>rest. filter ?P hs' = h' # rest"
    using first_best_filter [OF assms(1)] first_best_filter [OF assms(2)] eq by auto
  then obtain r r' where r: "filter ?P hs = h # r" "filter ?P hs' = h' # r'" by blast
  have sub: "subseq (h' # r') (h # r)"
    using subseq_filter [OF assms(3), of ?P] r by simp
  have "h \<in> set (h' # r')"
    unfolding r(2) [symmetric] using assms(4) by simp
  moreover have "h \<notin> set r"
    using distinct_filter [OF assms(5), of ?P] r(1) by simp
  ultimately show ?thesis
    using subseq_set [OF subseq_Cons2_neq [OF sub]] by blast
qed

subsection \<open>Properties of the choice\<close>

text \<open>Between the least positive hash and 1 the logarithm is negative, and not less than minus 64.\<close>

definition log_contract :: "(rat \<Rightarrow> rat) \<Rightarrow> bool" where
  "log_contract Log \<longleftrightarrow> (\<forall>x. 1 / 2 ^ 64 \<le> x \<longrightarrow> x < 1 \<longrightarrow> - 64 \<le> Log x \<and> Log x < 0)"

text \<open>The hash of client and handler is not at one of the two ends of its range.\<close>

definition regular :: "string \<Rightarrow> 'h namedHandler \<Rightarrow> bool" where
  "regular src h \<longleftrightarrow> float64_of_uint (unat (fnv64a (src @ hname h))) \<notin> {0, 2 ^ 64}"

definition weights_ok :: "('u, 'h) Balancer \<Rightarrow> bool" where
  "weights_ok b \<longleftrightarrow> (\<forall>h \<in> set (handlers b). 1 \<le> weight h)"

lemma weights_ok_New: "weights_ok (New hc)"
  by (simp add: weights_ok_def New_def)

lemma weights_ok_Add: "weights_ok b \<Longrightarrow> weights_ok (Add nm hdl w fence b)"
  using float_weight [of "case w of None \<Rightarrow> 1 | Some w \<Rightarrow> w"] by (auto simp: weights_ok_def Add_def Let_def)

lemma weights_ok_SetStatus: "weights_ok b \<Longrightarrow> weights_ok (fst (SetStatus c s b))"
  by (simp add: weights_ok_def SetStatus_def setStatus_def Let_def)

lemma bit_length_bounds: "0 < n \<Longrightarrow> 2 ^ (bit_length n - 1) \<le> n \<and> n < 2 ^ bit_length n"
proof (induction n rule: bit_length.induct)
  case (1 n)
  show ?case
  proof (cases "n < 2")
    case True
    then have "n = 1" using 1 by simp
    then show ?thesis by (simp add: bit_length.simps [of "Suc 0"] bit_length.simps [of 0])
  next
    case False
    have ih: "2 ^ (bit_length (n div 2) - 1) \<le> n div 2 \<and> n div 2 < 2 ^ bit_length (n div 2)"
      using 1 False by simp
    have "0 < bit_length (n div 2)"
      using False by (subst bit_length.simps) simp
    then obtain k where k: "bit_length (n div 2) = Suc k"
      by (cases "bit_length (n div 2)") auto
    show ?thesis
      using False ih by (subst (1 2) bit_length.simps) (simp add: k, linarith)
  qed
qed

lemma bit_length_le:
  assumes "n < 2 ^ k"
  shows "bit_length n \<le> k"
proof (rule ccontr)
  assume "\<not> bit_length n \<le> k"
  then have "k \<le> bit_length n - 1" "n \<noteq> 0"
    by (simp, metis bit_length.simps le0)
  then have "2 ^ k \<le> n"
    using bit_length_bounds [of n] power_increasing [of k "bit_length n - 1" "2 :: nat"] by linarith
  with assms show False by simp
qed

lemma float64_le:
  assumes "n < 2 ^ 64"
  shows "float64_of_uint n \<le> 2 ^ 64"
proof -
  define s where "s = bit_length n - 53"
  have s: "s \<le> 11"
    using bit_length_le [OF assms] by (simp add: s_def)
  then have "(2 :: nat) ^ 64 = 2 ^ (64 - s) * 2 ^ s"
    by (simp flip: power_add)
  then have "n div 2 ^ s < 2 ^ (64 - s)"
    using assms by (simp add: less_mult_imp_div_less)
  then have "(if b then n div 2 ^ s + 1 else n div 2 ^ s) * 2 ^ s \<le> 2 ^ (64 - s) * 2 ^ s" for b
    by (intro mult_right_mono) auto
  then show ?thesis
    unfolding float64_of_uint_def Let_def s_def [symmetric] \<open>2 ^ 64 = _\<close> .
qed

lemma score_regular:
  assumes "log_contract Log" "1 \<le> weight h" "regular src h"
  shows "0 < value_of (getNodeScore Log h src)"
proof -
  let ?n = "float64_of_uint (unat (fnv64a (src @ hname h)))"
  have "?n \<le> 2 ^ 64"
    by (intro float64_le) (use unsigned_less [of "fnv64a (src @ hname h)"] in simp)
  then have n: "0 < ?n" "?n < 2 ^ 64"
    using assms(3) by (auto simp: regular_def)
  define s where "s = (of_nat ?n / 2 ^ 64 :: rat)"
  have "(of_nat 1 :: rat) \<le> of_nat ?n" "(of_nat ?n :: rat) < of_nat (2 ^ 64)"
    using n by (simp_all only: of_nat_less_iff of_nat_le_iff)
  then have s: "1 / 2 ^ 64 \<le> s" "s < 1" by (simp_all add: s_def)
  then have L: "- 64 \<le> Log s" "Log s < 0" using assms(1) by (auto simp: log_contract_def)
  have p: "(2 :: rat) powi (- 6) = 1 / 64" using power_int_minus_divide [of "2 :: rat" 6] by simp
  have "1 / 64 \<le> 1 / - Log s" using L by (intro divide_left_mono) simp_all
  then have "1 / 64 \<le> fl (1 / - Log s)" using fl_ge_pow2 [of "- 6" "1 / - Log s"] p by simp
  then have "1 / 64 * 1 \<le> fl (1 / - Log s) * weight h" using assms(2) by (intro mult_mono) simp_all
  then have "1 / 64 \<le> fl (fl (1 / - Log s) * weight h)" using fl_ge_pow2 [of "- 6" "fl (1 / - Log s) * weight h"] p by simp
  moreover have "s \<noteq> 0" "s \<noteq> 1" using s by auto
  then have "getNodeScore Log h src = Fin (fl (fl (1 / - Log s) * weight h))"
    unfolding getNodeScore_def Let_def s_def [symmetric] by simp
  ultimately show ?thesis by (simp add: value_of_def)
qed

lemma nextServer_Ok:
  assumes "nextServer Log b src = Ok h"
  shows "first_best (\<lambda>h. getNodeScore Log h src) (healthy b) 0 h"
  using assms pick_first_best [of 0 "\<lambda>h. getNodeScore Log h src" "healthy b" None]
  by (auto simp: nextServer_def split: if_splits option.splits)

text \<open>
  A client gets the usable handler with the highest score. For positive weights, if the hash of the
  client with some usable handler is regular, \<open>nextServer\<close> returns a handler that is up and not
  fenced, and no other such handler has a higher score for the client.
\<close>

theorem hrw_choice:
  assumes "log_contract Log" "weights_ok b" "e \<in> set (healthy b)" "regular src e"
  shows "\<exists>h. nextServer Log b src = Ok h \<and> h \<in> set (handlers b) \<and> usable b (fenced b) (hname h) \<and>
    (\<forall>g \<in> set (healthy b). value_of (getNodeScore Log g src) \<le> value_of (getNodeScore Log h src))"
proof -
  have "0 < value_of (getNodeScore Log e src)"
    using assms by (intro score_regular) (auto simp: weights_ok_def healthy_def)
  then obtain h where h: "pick (\<lambda>h. getNodeScore Log h src) (healthy b) None 0 = Some h"
    "first_best (\<lambda>h. getNodeScore Log h src) (healthy b) 0 h"
    using pick_first_best [of 0 "\<lambda>h. getNodeScore Log h src" "healthy b" None] assms(3) by force
  then show ?thesis
    using first_bestD [OF h(2)] assms(3) by (auto simp: nextServer_def healthy_def)
qed

text \<open>
  C34. Clients move only when they must. When handlers go down, are fenced or are missing from a second
  balancer with otherwise the same handlers in the same order, every client whose handler is still
  usable keeps it; read the other way round, when handlers come back or are added, a client
  either keeps its handler or moves to one that is new.
\<close>

theorem hrw_stable:
  assumes "distinct (map hname (handlers b))" "subseq (healthy b') (healthy b)"
    and "nextServer Log b src = Ok h" "h \<in> set (healthy b')"
  shows "nextServer Log b' src = Ok h"
proof -
  let ?f = "\<lambda>h. getNodeScore Log h src"
  have best: "first_best ?f (healthy b) 0 h"
    by (rule nextServer_Ok [OF assms(3)])
  have "\<not> (\<forall>g \<in> set (healthy b'). value_of (?f g) \<le> 0)"
    using first_bestD(2) [OF best] assms(4) by force
  then obtain h' where h': "pick ?f (healthy b') None 0 = Some h'" "first_best ?f (healthy b') 0 h'"
    using pick_first_best [of 0 ?f "healthy b'" None] by auto
  have "distinct (healthy b)"
    using assms(1) by (auto simp: healthy_def simp: distinct_map)
  then have "h' = h"
    by (rule first_best_subseq [OF best h'(2) assms(2,4)])
  then show ?thesis
    using h'(1) assms(4) by (auto simp: nextServer_def)
qed

text \<open>
  The loop may find no handler. If there are usable handlers and the hash of each with the client
  is at one of the ends of its range, no score is above the initial one, and the
  use of the result is a nil dereference.
\<close>

theorem hrw_panics:
  assumes "healthy b \<noteq> []" "list_all (\<lambda>h. \<not> regular src h) (healthy b)"
  shows "nextServer Log b src = Panic"
proof -
  let ?f = "\<lambda>h. getNodeScore Log h src"
  have "value_of (?f g) \<le> 0" if "\<not> regular src g" for g :: "'h namedHandler"
    using that by (auto simp: regular_def getNodeScore_def Let_def value_of_def)
  then have "\<forall>g \<in> set (healthy b). value_of (?f g) \<le> 0"
    using assms(2) by (auto simp: list_all_iff)
  then have "\<nexists>h. first_best ?f (healthy b) 0 h"
    using first_bestD(1,2) by (metis not_le)
  then show ?thesis
    using pick_first_best [of 0 ?f "healthy b" None] assms(1) by (auto simp: nextServer_def)
qed

definition demo_Log :: "rat \<Rightarrow> rat" where
  "demo_Log x = x - 1"

definition demo_hrw :: "(unit, nat) Balancer" where
  "demo_hrw = Add ''b'' 2 (Some 3) False (Add ''a'' 1 None False (New True))"

definition demo_zero :: "(unit, nat) Balancer" where
  "demo_zero = Add ''!0IC=VloaY'' 1 None False (New True)"

lemma demo_hrw_values:
  "handlers demo_hrw = [\<lparr>handler = 1, hname = ''a'', weight = 1\<rparr>, \<lparr>handler = 2, hname = ''b'', weight = 3\<rparr>]"
  "status demo_hrw = {''a'', ''b''}" "fenced demo_hrw = {}"
  "healthy demo_hrw = handlers demo_hrw" "healthy demo_zero = [\<lparr>handler = 1, hname = ''!0IC=VloaY'', weight = 1\<rparr>]"
  using fl_of_int [of 3] by (auto simp: demo_hrw_def demo_zero_def Add_def New_def healthy_def usable_def)

lemma demo_hashes:
  "regular ''10.0.0.1'' \<lparr>handler = 1 :: nat, hname = ''a'', weight = 1\<rparr>"
  "\<not> regular [] \<lparr>handler = 1 :: nat, hname = ''!0IC=VloaY'', weight = 1\<rparr>"
  unfolding regular_def by code_simp+

theorem hrw_choice_witness:
  "\<exists>h. nextServer demo_Log demo_hrw ''10.0.0.1'' = Ok h \<and> h \<in> set (handlers demo_hrw)"
  using hrw_choice [of demo_Log demo_hrw "\<lparr>handler = 1, hname = ''a'', weight = 1\<rparr>" "''10.0.0.1''"] demo_hashes(1)
  by (auto simp: log_contract_def demo_Log_def demo_hrw_values weights_ok_def)

theorem hrw_stable_witness:
  "\<exists>c h. nextServer demo_Log demo_hrw ''10.0.0.1'' = Ok h \<and> c \<noteq> hname h \<and> c \<in> status demo_hrw \<and>
    nextServer demo_Log (fst (SetStatus c False demo_hrw)) ''10.0.0.1'' = Ok h"
proof -
  have f: "float64_of_uint (unat (fnv64a ''10.0.0.1a'')) = 8810070582537373696" "float64_of_uint (unat (fnv64a ''10.0.0.1b'')) = 8810073881072258048"
    by code_simp+
  define x y :: rat where "x = 8810070582537373696 / 2 ^ 64" and "y = 8810073881072258048 / 2 ^ 64"
  have r: "x \<le> 1" "x \<noteq> 0" "x \<noteq> 1" "y \<noteq> 0" "y \<noteq> 1" "1 \<le> 1 / (1 - x)" "1 / (1 - x) \<le> 2" "1 \<le> 1 / (1 - y)"
    by (simp_all add: x_def y_def)
  have a: "1 \<le> fl (1 / (1 - x))" "fl (1 / (1 - x)) \<le> 2" "fl (fl (1 / (1 - x))) = fl (1 / (1 - x))"
    using fl_mono [of 1 "1 / (1 - x)"] fl_le_2 [of "1 / (1 - x)" 1] r by simp_all
  have "3 \<le> fl (1 / (1 - y)) * 3" using fl_mono [of 1 "1 / (1 - y)"] r by simp
  then have b: "3 \<le> fl (fl (1 / (1 - y)) * 3)" using fl_mono [of 3 "fl (1 / (1 - y)) * 3"] fl_of_int [of 3] by simp
  have "getNodeScore demo_Log \<lparr>handler = 1 :: nat, hname = ''a'', weight = 1\<rparr> ''10.0.0.1'' = Fin (fl (1 / (1 - x)))"
    "getNodeScore demo_Log \<lparr>handler = 2 :: nat, hname = ''b'', weight = 3\<rparr> ''10.0.0.1'' = Fin (fl (fl (1 / (1 - y)) * 3))"
    by (simp_all add: getNodeScore_def f demo_Log_def x_def y_def)
  then have "pick (\<lambda>h. getNodeScore demo_Log h ''10.0.0.1'') (handlers demo_hrw) None 0 =
      Some \<lparr>handler = 2, hname = ''b'', weight = 3\<rparr>"
    using a b by (simp add: demo_hrw_values pick.simps)
  then have "nextServer demo_Log demo_hrw ''10.0.0.1'' = Ok \<lparr>handler = 2, hname = ''b'', weight = 3\<rparr>"
    by (simp add: nextServer_def demo_hrw_values)
  moreover have "healthy (fst (SetStatus ''a'' False demo_hrw)) = [\<lparr>handler = 2, hname = ''b'', weight = 3\<rparr>]"
    by (simp add: healthy_def usable_def SetStatus_def setStatus_def Let_def demo_hrw_values)
  ultimately show ?thesis
    using hrw_stable [of demo_hrw "fst (SetStatus ''a'' False demo_hrw)" demo_Log "''10.0.0.1''"
        "\<lparr>handler = 2, hname = ''b'', weight = 3\<rparr>"]
    by (intro exI [of _ "''a''"] exI [of _ "\<lparr>handler = 2, hname = ''b'', weight = 3\<rparr>"]) (simp add: demo_hrw_values)
qed

theorem hrw_panics_witness: "nextServer demo_Log demo_zero [] = Panic"
  using hrw_panics [of demo_zero "[]" demo_Log] demo_hashes(2) by (simp add: demo_hrw_values)

end
