(* ===== verification/LeastTime.thy ===== *)
theory LeastTime
  imports Float64 BalancerStatus Sticky
begin

section \<open>Least response time (\<open>pkg/server/service/loadbalancer/leasttime\<close>)\<close>

text \<open>
  The balancer prefers the handler with the lowest product of average response time and
  load, and breaks ties by weighted round robin. All operations are modelled. Handlers are
  mutable and shared by pointer; the slice only grows, so a pointer is an index. Times are whole
  milliseconds of a 64 bit duration, less than 2 to the power 44, so that the \<open>float64\<close> sums of a hundred of them are exact, and integers
  here; averages, scores and deadlines are rounded by \<open>fl\<close> of \<open>Float64\<close> at every operation.

  A request is several steps, between which other requests may run: \<open>ServeHTTP\<close> chooses and counts
  the request in, \<open>first_byte\<close> is the trace hook for the first byte of the response, \<open>finish\<close> the deferred
  decrement. The pool for sticky sessions holds the plain handlers.
\<close>

definition sampleSize :: nat where
  "sampleSize = 100"

definition MaxFloat64 :: rat where
  "MaxFloat64 = (2 ^ 53 - 1) * 2 ^ 971"

record 'h namedHandler =
  handler :: 'h
  hname :: string
  weight :: rat
  deadline :: rat
  inflightCount :: int
  responseTimes :: "int list"
  responseTimeIdx :: nat
  responseTimeSum :: int
  sampleCount :: nat

text \<open>\<open>time.Duration.Milliseconds\<close>: nanoseconds, divided with truncation.\<close>

definition Milliseconds :: "int \<Rightarrow> int" where
  "Milliseconds d = (if 0 \<le> d then d div 1000000 else - ((- d) div 1000000))"

definition updateResponseTime :: "int \<Rightarrow> 'h namedHandler \<Rightarrow> 'h namedHandler" where
  "updateResponseTime elapsed s =
     (let ms = Milliseconds elapsed;
          s1 = (if sampleCount s < sampleSize
                then s\<lparr>responseTimes := (responseTimes s)[responseTimeIdx s := ms],
                       responseTimeSum := responseTimeSum s + ms,
                       sampleCount := sampleCount s + 1\<rparr>
                else let oldValue = responseTimes s ! responseTimeIdx s in
                     s\<lparr>responseTimes := (responseTimes s)[responseTimeIdx s := ms],
                       responseTimeSum := responseTimeSum s - oldValue + ms\<rparr>)
      in s1\<lparr>responseTimeIdx := (responseTimeIdx s1 + 1) mod sampleSize\<rparr>)"

definition getAvgResponseTime :: "'h namedHandler \<Rightarrow> rat" where
  "getAvgResponseTime s =
     (if sampleCount s = 0 then 0 else fl (of_int (responseTimeSum s) / of_nat (sampleCount s)))"

record ('u, 'h) Balancer = "'u children" +
  handlers :: "'h namedHandler list"
  fenced :: "string set"
  sticky :: "'h sticky option"
  curDeadline :: rat

definition New :: "int \<Rightarrow> cookieConfig option \<Rightarrow> bool \<Rightarrow> ('u, 'h) Balancer" where
  "New now stickyCookieConfig hc =
     \<lparr>wantsHealthCheck = hc, status = {}, updaters = [], handlers = [], fenced = {},
      sticky = map_option (NewSticky now) stickyCookieConfig, curDeadline = 0\<rparr>"

definition SetStatus :: "string \<Rightarrow> bool \<Rightarrow> ('u, 'h) Balancer \<Rightarrow> ('u, 'h) Balancer \<times> ('u \<times> bool) list" where
  "SetStatus childName up b = setStatus childName up b"

definition RegisterStatusUpdater :: "'u \<Rightarrow> ('u, 'h) Balancer \<Rightarrow> ('u, 'h) Balancer outcome" where
  "RegisterStatusUpdater fn b = registerStatusUpdater ''healthCheck not enabled in config for this LeastTime service'' fn b"

definition update_handler :: "nat \<Rightarrow> ('h namedHandler \<Rightarrow> 'h namedHandler) \<Rightarrow> ('u, 'h) Balancer \<Rightarrow> ('u, 'h) Balancer" where
  "update_handler i f b = b\<lparr>handlers := (handlers b)[i := f (handlers b ! i)]\<rparr>"

definition setDeadline :: "nat \<Rightarrow> rat \<Rightarrow> ('u, 'h) Balancer \<Rightarrow> ('u, 'h) Balancer" where
  "setDeadline i d = update_handler i (deadline_update (\<lambda>_. d))"

definition new_handler :: "string \<Rightarrow> 'h \<Rightarrow> int \<Rightarrow> 'h namedHandler" where
  "new_handler nm hdl w =
     \<lparr>handler = hdl, hname = nm, weight = fl (of_int w), deadline = 0, inflightCount = 0,
      responseTimes = replicate sampleSize 0, responseTimeIdx = 0, responseTimeSum = 0, sampleCount = 0\<rparr>"

definition Add :: "string \<Rightarrow> 'h \<Rightarrow> int option \<Rightarrow> bool \<Rightarrow> ('u, 'h) Balancer \<Rightarrow> ('u, 'h) Balancer" where
  "Add nm hdl w fence b =
     (let w = (case w of None \<Rightarrow> 1 | Some w \<Rightarrow> w) in
      if w \<le> 0 then b
      else let h = new_handler nm hdl w;
               d = fl (curDeadline b + fl (1 / weight h));
               b1 = b\<lparr>curDeadline := d, handlers := handlers b @ [h\<lparr>deadline := d\<rparr>],
                      status := insert nm (status b),
                      fenced := if fence then insert nm (fenced b) else fenced b\<rparr>
           in b1\<lparr>sticky := map_option (AddHandler nm hdl) (sticky b1)\<rparr>)"

definition AddServer :: "string \<Rightarrow> 'h \<Rightarrow> dynServer \<Rightarrow> ('u, 'h) Balancer \<Rightarrow> ('u, 'h) Balancer" where
  "AddServer nm hdl server b = Add nm hdl (srvWeight server) (srvFenced server) b"

definition getHealthyServers :: "('u, 'h) Balancer \<Rightarrow> nat list" where
  "getHealthyServers b = filter (\<lambda>i. usable b (fenced b) (hname (handlers b ! i))) [0..<length (handlers b)]"

fun earliest :: "(nat \<Rightarrow> rat) \<Rightarrow> nat list \<Rightarrow> nat \<times> rat \<Rightarrow> nat \<times> rat" where
  "earliest d [] (selected, minDeadline) = (selected, minDeadline)"
| "earliest d (h # hs) (selected, minDeadline) =
     (if d h < minDeadline then earliest d hs (h, d h) else earliest d hs (selected, minDeadline))"

definition selectWRR :: "nat list \<Rightarrow> ('u, 'h) Balancer \<Rightarrow> nat option \<times> ('u, 'h) Balancer" where
  "selectWRR candidates b =
     (if candidates = [] then (None, b)
      else let (selected, minDeadline) =
                 earliest (\<lambda>i. deadline (handlers b ! i)) candidates (candidates ! 0, MaxFloat64);
               newDeadline = fl (minDeadline + fl (1 / weight (handlers b ! selected)));
               b1 = setDeadline selected newDeadline b
           in (Some selected, if newDeadline > curDeadline b1 then b1\<lparr>curDeadline := newDeadline\<rparr> else b1))"

definition score :: "'h namedHandler \<Rightarrow> rat" where
  "score h = fl (fl (getAvgResponseTime h * fl (1 + fl (of_int (inflightCount h)))) / weight h)"

fun lowest :: "(nat \<Rightarrow> rat) \<Rightarrow> nat list \<Rightarrow> rat \<Rightarrow> nat list \<Rightarrow> nat list" where
  "lowest f [] minScore candidates = candidates"
| "lowest f (h # hs) minScore candidates =
     (if f h < minScore then lowest f hs (f h) [h]
      else if f h = minScore then lowest f hs minScore (candidates @ [h])
      else lowest f hs minScore candidates)"

definition nextServer :: "('u, 'h) Balancer \<Rightarrow> nat option \<times> ('u, 'h) Balancer" where
  "nextServer b =
     (let healthy = getHealthyServers b in
      if length healthy = 0 then (None, b)
      else if length healthy = 1 then (Some (healthy ! 0), b)
      else let candidates = lowest (\<lambda>i. score (handlers b ! i)) healthy MaxFloat64 [] in
           if length candidates = 1 then (Some (candidates ! 0), b)
           else selectWRR candidates b)"

definition add_inflight :: "nat \<Rightarrow> int \<Rightarrow> ('u, 'h) Balancer \<Rightarrow> ('u, 'h) Balancer" where
  "add_inflight i d = update_handler i (inflightCount_update (\<lambda>n. n + d))"

definition first_byte :: "nat \<Rightarrow> int \<Rightarrow> ('u, 'h) Balancer \<Rightarrow> ('u, 'h) Balancer" where
  "first_byte i elapsed = update_handler i (updateResponseTime elapsed)"

definition finish :: "nat \<Rightarrow> ('u, 'h) Balancer \<Rightarrow> ('u, 'h) Balancer" where
  "finish i = add_inflight i (-1)"

text \<open>With the answer comes the handler that tracks the request, if one does.\<close>

definition ServeHTTP :: "('u, 'h) Balancer \<Rightarrow> request \<Rightarrow> 'h served \<times> nat option \<times> ('u, 'h) Balancer" where
  "ServeHTTP b req =
     (case stuck_to (sticky b) (status b) req of
        Some r \<Rightarrow> (r, None, b)
      | None \<Rightarrow>
          (case nextServer b of
             (None, b') \<Rightarrow> (Unavailable, None, b')
           | (Some i, b') \<Rightarrow>
               let h = handlers b' ! i in
               (Forward (fresh_cookies (sticky b') (hname h)) (hname h) (handler h), Some i, add_inflight i 1 b')))"

subsection \<open>The ring buffer\<close>

text \<open>A handler that has seen the samples \<open>xs\<close>, oldest first, keeps the last hundred.\<close>

definition latest :: "'a list \<Rightarrow> 'a list" where
  "latest xs = drop (length xs - sampleSize) xs"

definition seen :: "int list \<Rightarrow> 'h namedHandler \<Rightarrow> bool" where
  "seen xs s \<longleftrightarrow> length (responseTimes s) = sampleSize \<and> responseTimeIdx s = length xs mod sampleSize \<and>
     sampleCount s = min (length xs) sampleSize \<and> responseTimeSum s = sum_list (latest xs) \<and>
     (\<forall>j < length xs. length xs \<le> j + sampleSize \<longrightarrow> responseTimes s ! (j mod sampleSize) = xs ! j)"

lemma seen_new: "seen [] (new_handler nm hdl w)"
  by (simp add: seen_def new_handler_def latest_def)

lemma mod_window:
  assumes "j < n" "n < j + m"
  shows "j mod m \<noteq> n mod (m :: nat)"
proof
  assume "j mod m = n mod m"
  then have "m dvd n - j" using assms(1) by (metis mod_eq_dvd_iff_nat less_imp_le)
  then show False using assms by (auto dest: dvd_imp_le)
qed

lemma seen_update:
  assumes "seen xs s"
  shows "seen (xs @ [Milliseconds d]) (updateResponseTime d s)"
proof -
  let ?n = "length xs"
  have pos: "0 < sampleSize" "Suc 0 - sampleSize = 0" by (simp_all add: sampleSize_def)
  have sum: "responseTimeSum (updateResponseTime d s) = sum_list (latest (xs @ [Milliseconds d]))"
  proof (cases "?n < sampleSize")
    case True
    then show ?thesis using assms by (simp add: seen_def updateResponseTime_def Let_def latest_def)
  next
    case False
    have idx: "(?n - sampleSize) mod sampleSize = ?n mod sampleSize"
      using False by (metis le_mod_geq not_less)
    have "responseTimes s ! (?n mod sampleSize) = xs ! (?n - sampleSize)"
      using assms False pos unfolding seen_def by (metis diff_less idx le_add_diff_inverse2 less_le_trans not_less order_refl)
    moreover have "latest xs = xs ! (?n - sampleSize) # drop (Suc (?n - sampleSize)) xs"
      unfolding latest_def using False pos by (intro Cons_nth_drop_Suc [symmetric]) simp
    ultimately show ?thesis
      using assms False by (simp add: seen_def updateResponseTime_def Let_def latest_def Suc_diff_le pos(2))
  qed
  have idx: "responseTimeIdx (updateResponseTime d s) = Suc ?n mod sampleSize"
    using assms by (simp add: seen_def updateResponseTime_def Let_def mod_Suc_eq)
  have buf: "responseTimes (updateResponseTime d s) = (responseTimes s)[?n mod sampleSize := Milliseconds d]"
    using assms by (simp add: seen_def updateResponseTime_def Let_def)
  have "responseTimes (updateResponseTime d s) ! (j mod sampleSize) = (xs @ [Milliseconds d]) ! j"
    if "j < Suc ?n" "Suc ?n \<le> j + sampleSize" for j
  proof (cases "j = ?n")
    case True
    then show ?thesis using assms pos by (simp add: buf seen_def)
  next
    case False
    then show ?thesis
      using that assms mod_window [of j ?n sampleSize] by (simp add: buf seen_def nth_append)
  qed
  then show ?thesis
    using sum idx buf assms by (auto simp: seen_def updateResponseTime_def Let_def)
qed

lemma seen_fold: "seen (xs @ map Milliseconds ds) (fold updateResponseTime ds s)" if "seen xs s"
  using that
proof (induction ds arbitrary: xs s)
  case (Cons d ds)
  from Cons.IH [OF seen_update [OF Cons.prems, of d]] show ?case by simp
qed simp

text \<open>
  C36. The average is that of the last hundred response times. After any sequence of measurements the
  running sum in the ring buffer, with its replacement of the oldest entry, gives the mean of the
  most recent hundred of them, or of all of them while there are fewer, rounded once, and 0 before the first.
\<close>

theorem lt_average:
  "getAvgResponseTime (fold updateResponseTime ds (new_handler nm hdl w)) =
     (let recent = map Milliseconds (drop (length ds - 100) ds) in
      if ds = [] then 0 else fl (of_int (sum_list recent) / of_nat (length recent)))"
proof -
  have "seen (map Milliseconds ds) (fold updateResponseTime ds (new_handler nm hdl w))"
    using seen_fold [OF seen_new, of ds] by simp
  moreover have "min (length ds) 100 = 0 \<longleftrightarrow> ds = []" "length ds - (length ds - 100) = min (length ds) 100"
    by (auto simp: min_def)
  ultimately show ?thesis
    by (simp add: getAvgResponseTime_def seen_def latest_def sampleSize_def drop_map Let_def)
qed

subsection \<open>Reachable balancers\<close>

text \<open>Balancers with the requests that are being tracked, by handler.\<close>

inductive reachable :: "('u, 'h) Balancer \<Rightarrow> nat list \<Rightarrow> bool" where
  new: "reachable (New now c hc) []"
| add: "reachable b act \<Longrightarrow> reachable (Add nm hdl w fence b) act"
| report: "reachable b act \<Longrightarrow> reachable (fst (SetStatus c s b)) act"
| register: "reachable b act \<Longrightarrow> RegisterStatusUpdater u b = Ok b' \<Longrightarrow> reachable b' act"
| track: "reachable b act \<Longrightarrow> ServeHTTP b req = (r, Some i, b') \<Longrightarrow> reachable b' (i # act)"
| other: "reachable b act \<Longrightarrow> ServeHTTP b req = (r, None, b') \<Longrightarrow> reachable b' act"
| byte: "reachable b act \<Longrightarrow> i \<in> set act \<Longrightarrow> 0 \<le> elapsed \<Longrightarrow> elapsed < 2 ^ 63 \<Longrightarrow>
    reachable (first_byte i elapsed b) act"
| finish: "reachable b (as @ i # bs) \<Longrightarrow> reachable (finish i b) (as @ bs)"

definition handler_ok :: "rat \<Rightarrow> int \<Rightarrow> 'h namedHandler \<Rightarrow> bool" where
  "handler_ok cur n h \<longleftrightarrow> 1 \<le> weight h \<and> 0 \<le> deadline h \<and> deadline h \<le> cur \<and> inflightCount h = n \<and>
     (\<exists>xs. seen xs h \<and> (\<forall>x \<in> set xs. 0 \<le> x \<and> x < 2 ^ 63))"

definition lt_inv :: "('u, 'h) Balancer \<Rightarrow> nat list \<Rightarrow> bool" where
  "lt_inv b act \<longleftrightarrow> set act \<subseteq> {..<length (handlers b)} \<and> 0 \<le> curDeadline b \<and> fl (curDeadline b) = curDeadline b \<and>
     (\<forall>i < length (handlers b). handler_ok (curDeadline b) (int (count_list act i)) (handlers b ! i))"

lemma handler_ok_new:
  "0 < w \<Longrightarrow> 0 \<le> d \<Longrightarrow> handler_ok d 0 (new_handler nm hdl w\<lparr>deadline := d\<rparr>)"
  using seen_new [of nm hdl w] float_weight [of w] by (auto simp: handler_ok_def seen_def new_handler_def intro!: exI [of _ "[]"])

lemma handler_ok_mono: "handler_ok c n h \<Longrightarrow> c \<le> c' \<Longrightarrow> handler_ok c' n h"
  by (auto simp: handler_ok_def)

lemma handler_ok_deadline: "handler_ok c n h \<Longrightarrow> 0 \<le> d \<Longrightarrow> d \<le> c' \<Longrightarrow> handler_ok c' n (h\<lparr>deadline := d\<rparr>)"
  by (auto simp: handler_ok_def seen_def)

lemma handler_ok_inflight: "handler_ok c n h \<Longrightarrow> handler_ok c (n + d) (inflightCount_update (\<lambda>n. n + d) h)"
  by (auto simp: handler_ok_def seen_def)

lemma handler_ok_sample:
  assumes "handler_ok c n h" "0 \<le> elapsed" "elapsed < 2 ^ 63"
  shows "handler_ok c n (updateResponseTime elapsed h)"
proof -
  obtain xs where xs: "seen xs h" "\<forall>x \<in> set xs. 0 \<le> x \<and> x < 2 ^ 63"
    using assms(1) by (auto simp: handler_ok_def)
  have "0 \<le> Milliseconds elapsed" "Milliseconds elapsed < 2 ^ 63"
    using assms(2,3) by (auto simp: Milliseconds_def)
  then have "\<exists>ys. seen ys (updateResponseTime elapsed h) \<and> (\<forall>x \<in> set ys. 0 \<le> x \<and> x < 2 ^ 63)"
    using seen_update [OF xs(1), of elapsed] xs(2) by (intro exI [of _ "xs @ [Milliseconds elapsed]"]) auto
  moreover have "weight (updateResponseTime elapsed h) = weight h" "deadline (updateResponseTime elapsed h) = deadline h"
    "inflightCount (updateResponseTime elapsed h) = inflightCount h"
    by (auto simp: updateResponseTime_def Let_def)
  ultimately show ?thesis
    using assms(1) by (auto simp: handler_ok_def)
qed

subsection \<open>The choice\<close>

lemma earliest_least:
  "earliest d hs (s, m) = (s', m') \<Longrightarrow>
     m' \<le> m \<and> (\<forall>h \<in> set hs. m' \<le> d h) \<and> (s' = s \<and> m' = m \<or> s' \<in> set hs \<and> m' = d s')"
proof (induction hs arbitrary: s m)
  case (Cons h hs)
  show ?case
  proof (cases "d h < m")
    case True
    then show ?thesis using Cons.IH [of h "d h"] Cons.prems by auto
  next
    case False
    then show ?thesis using Cons.IH [of s m] Cons.prems by auto
  qed
qed simp

text \<open>The loop over the scores collects the handlers with the lowest.\<close>

lemma lowest_set:
  assumes "\<forall>h \<in> set cs. f h = m"
  shows "set (lowest f hs m cs) = {h \<in> set cs \<union> set hs. f h \<le> m \<and> (\<forall>g \<in> set hs. f h \<le> f g)}"
  using assms
proof (induction hs arbitrary: m cs)
  case (Cons h hs)
  consider "f h < m" | "f h = m" | "f h > m" by linarith
  then show ?case
  proof cases
    case 1
    then have "set (lowest f (h # hs) m cs) = {x \<in> {h} \<union> set hs. f x \<le> f h \<and> (\<forall>g \<in> set hs. f x \<le> f g)}"
      using Cons.IH [of "[h]" "f h"] by simp
    also have "\<dots> = {x \<in> set cs \<union> set (h # hs). f x \<le> m \<and> (\<forall>g \<in> set (h # hs). f x \<le> f g)}"
      using 1 Cons.prems by auto
    finally show ?thesis .
  next
    case 2
    then show ?thesis using Cons.IH [of "cs @ [h]" m] Cons.prems by auto
  next
    case 3
    then have "set (lowest f (h # hs) m cs) = {x \<in> set cs \<union> set hs. f x \<le> m \<and> (\<forall>g \<in> set hs. f x \<le> f g)}"
      using Cons.IH [of cs m] Cons.prems by simp
    also have "\<dots> = {x \<in> set cs \<union> set (h # hs). f x \<le> m \<and> (\<forall>g \<in> set (h # hs). f x \<le> f g)}"
      using 3 by auto
    finally show ?thesis .
  qed
qed auto

lemma selectWRR_shape:
  assumes "cs \<noteq> []"
  obtains i d where "selectWRR cs b = (Some i, (setDeadline i d b)\<lparr>curDeadline := max d (curDeadline b)\<rparr>)" "i \<in> set cs"
    "(\<forall>j \<in> set cs. 1 \<le> weight (handlers b ! j) \<and> 0 \<le> deadline (handlers b ! j)) \<longrightarrow> 0 \<le> d \<and> fl d = d"
proof -
  obtain i m where e: "earliest (\<lambda>i. deadline (handlers b ! i)) cs (cs ! 0, MaxFloat64) = (i, m)"
    by fastforce
  have i: "i \<in> set cs"
    using earliest_least [OF e] assms by (cases cs) auto
  have "0 \<le> m + fl (1 / weight (handlers b ! i))"
    if "\<forall>j \<in> set cs. 1 \<le> weight (handlers b ! j) \<and> 0 \<le> deadline (handlers b ! j)"
  proof -
    have "0 \<le> m" using earliest_least [OF e] that by (auto simp: MaxFloat64_def)
    then show ?thesis using that i fl_nonneg [of "1 / weight (handlers b ! i)"] by fastforce
  qed
  then show ?thesis
    using that [of i "fl (m + fl (1 / weight (handlers b ! i)))"] assms e i fl_nonneg
    by (auto simp: selectWRR_def Let_def setDeadline_def update_handler_def max_def)
qed

lemma selectWRR_None: "fst (selectWRR cs b) = None \<longleftrightarrow> cs = []"
  by (simp add: selectWRR_def Let_def split: prod.split)

lemma selectWRR_least:
  assumes "cs \<noteq> []" "\<forall>i \<in> set cs. deadline (handlers b ! i) < MaxFloat64" "fst (selectWRR cs b) = Some i"
  shows "\<forall>j \<in> set cs. deadline (handlers b ! i) \<le> deadline (handlers b ! j)"
proof -
  obtain i' m where e: "earliest (\<lambda>i. deadline (handlers b ! i)) cs (cs ! 0, MaxFloat64) = (i', m)"
    by fastforce
  then have i': "i' = i"
    using assms(1,3) by (simp add: selectWRR_def Let_def)
  have "cs ! 0 \<in> set cs" using assms(1) by (cases cs) auto
  then have "m < MaxFloat64"
    using earliest_least [OF e] assms(2) by (meson le_less_trans)
  then show ?thesis
    using earliest_least [OF e] i' by auto
qed

lemma healthy_index: "i \<in> set (getHealthyServers b) \<Longrightarrow> i < length (handlers b)"
  by (simp add: getHealthyServers_def)

lemma nextServer_cases:
  obtains (none) "nextServer b = (None, b)"
    | (direct) i where "nextServer b = (Some i, b)" "i \<in> set (getHealthyServers b)"
    | (tie) i d where "nextServer b = (Some i, (setDeadline i d b)\<lparr>curDeadline := max d (curDeadline b)\<rparr>)"
        "i \<in> set (getHealthyServers b)"
        "(\<forall>j \<in> set (getHealthyServers b). 1 \<le> weight (handlers b ! j) \<and> 0 \<le> deadline (handlers b ! j)) \<longrightarrow> 0 \<le> d \<and> fl d = d"
proof -
  define hs where "hs = getHealthyServers b"
  define cs where "cs = lowest (\<lambda>i. score (handlers b ! i)) hs MaxFloat64 []"
  have sub: "set cs \<subseteq> set hs"
    using lowest_set [of "[]" "\<lambda>i. score (handlers b ! i)" MaxFloat64 hs] by (auto simp: cs_def)
  have eq: "nextServer b = (if hs = [] then (None, b) else if length hs = 1 then (Some (hs ! 0), b)
      else if length cs = 1 then (Some (cs ! 0), b) else selectWRR cs b)"
    by (simp add: nextServer_def Let_def hs_def cs_def)
  consider "hs = []" | "length hs = 1" | "hs \<noteq> []" "length hs \<noteq> 1" "length cs = 1"
    | "hs \<noteq> []" "length hs \<noteq> 1" "cs = []" | "hs \<noteq> []" "length hs \<noteq> 1" "length cs \<noteq> 1" "cs \<noteq> []"
    by auto
  then show ?thesis
  proof cases
    case 2
    then have "hs ! 0 \<in> set hs" by (cases hs) auto
    moreover have "nextServer b = (Some (hs ! 0), b)" using 2 eq by auto
    ultimately show ?thesis using that(2) hs_def by blast
  next
    case 3
    then have "cs ! 0 \<in> set hs" using sub by (cases cs) auto
    moreover have "nextServer b = (Some (cs ! 0), b)" using 3 eq by auto
    ultimately show ?thesis using that(2) hs_def by blast
  next
    case 5
    obtain i d where "selectWRR cs b = (Some i, (setDeadline i d b)\<lparr>curDeadline := max d (curDeadline b)\<rparr>)" "i \<in> set cs"
      "(\<forall>j \<in> set cs. 1 \<le> weight (handlers b ! j) \<and> 0 \<le> deadline (handlers b ! j)) \<longrightarrow> 0 \<le> d \<and> fl d = d"
      by (rule selectWRR_shape [OF 5(4)])
    moreover from this(1,2) have "nextServer b = (Some i, (setDeadline i d b)\<lparr>curDeadline := max d (curDeadline b)\<rparr>)"
      using 5 eq by auto
    ultimately show ?thesis using that(3) sub hs_def by blast
  qed (use that(1) eq in \<open>simp_all add: selectWRR_def\<close>)
qed

subsection \<open>The invariant\<close>

lemma lt_inv_update:
  assumes "lt_inv b act" "i < length (handlers b)"
    and "handler_ok (curDeadline b) n (f (handlers b ! i))" "n = int (count_list act' i)"
    and "\<forall>j. j \<noteq> i \<longrightarrow> count_list act' j = count_list act j" "set act' \<subseteq> insert i (set act)"
  shows "lt_inv (update_handler i f b) act'"
  using assms by (auto simp: lt_inv_def update_handler_def nth_list_update)

lemma lt_inv_cong:
  "lt_inv b act \<Longrightarrow> handlers b' = handlers b \<Longrightarrow> curDeadline b' = curDeadline b \<Longrightarrow> lt_inv b' act"
  by (simp add: lt_inv_def)

lemma lt_inv_Add: "lt_inv b act \<Longrightarrow> lt_inv (Add nm hdl w fence b) act"
proof -
  assume inv: "lt_inv b act"
  define v where "v = (case w of None \<Rightarrow> 1 | Some w \<Rightarrow> w)"
  show ?thesis
  proof (cases "v \<le> 0")
    case True
    then show ?thesis using inv by (simp add: Add_def v_def Let_def)
  next
    case False
    let ?p = "fl (1 / fl (of_int v))" and ?d = "fl (curDeadline b + fl (1 / fl (of_int v)))"
    have cur: "0 \<le> curDeadline b" "fl (curDeadline b) = curDeadline b" using inv by (simp_all add: lt_inv_def)
    have p: "0 \<le> ?p" using period_bounds [OF float_weight] False by simp
    then have "curDeadline b \<le> ?d" using cur by (intro fl_add_ge)
    moreover have "0 \<le> ?d" "fl ?d = ?d" using cur p by (simp_all add: fl_nonneg)
    moreover have "count_list act (length (handlers b)) = 0"
      using inv by (auto simp: lt_inv_def count_list_0_iff)
    ultimately show ?thesis
      using inv False handler_ok_new [of v ?d nm hdl]
      by (auto simp: Add_def v_def [symmetric] Let_def lt_inv_def nth_append less_Suc_eq
          new_handler_def intro: handler_ok_mono)
  qed
qed

lemma lt_inv_nextServer:
  assumes "lt_inv b act" "nextServer b = (r, b')"
  shows "lt_inv b' act" "sticky b' = sticky b" "r = Some i \<Longrightarrow> i < length (handlers b')"
proof -
  have "lt_inv b' act \<and> sticky b' = sticky b \<and> (\<forall>i. r = Some i \<longrightarrow> i < length (handlers b'))"
  proof (cases b rule: nextServer_cases)
    case (tie i d)
    have i: "i < length (handlers b)" using tie(2) by (rule healthy_index)
    have d: "0 \<le> d" "fl d = d"
      using tie(3) assms(1) healthy_index [of _ b] by (auto simp: lt_inv_def handler_ok_def)
    then have "0 \<le> max d (curDeadline b)" "fl (max d (curDeadline b)) = max d (curDeadline b)"
      using assms(1) by (auto simp: max_def lt_inv_def)
    then have "lt_inv (b\<lparr>curDeadline := max d (curDeadline b)\<rparr>) act"
      using assms(1) by (auto simp: lt_inv_def intro: handler_ok_mono)
    moreover have "handler_ok (max d (curDeadline b)) (int (count_list act i)) ((handlers b ! i)\<lparr>deadline := d\<rparr>)"
      using assms(1) i d by (auto simp: lt_inv_def intro: handler_ok_deadline)
    ultimately have "lt_inv (setDeadline i d (b\<lparr>curDeadline := max d (curDeadline b)\<rparr>)) act"
      unfolding setDeadline_def using i by (intro lt_inv_update) auto
    then have "lt_inv ((setDeadline i d b)\<lparr>curDeadline := max d (curDeadline b)\<rparr>) act"
      by (rule lt_inv_cong) (simp_all add: setDeadline_def update_handler_def)
    then show ?thesis
      using tie assms(2) i by (auto simp: setDeadline_def update_handler_def)
  qed (use assms in \<open>auto dest: healthy_index\<close>)
  then show "lt_inv b' act" "sticky b' = sticky b" "r = Some i \<Longrightarrow> i < length (handlers b')" by auto
qed

lemma lt_inv_inflight:
  assumes "lt_inv b act" "i < length (handlers b)" "int (count_list act' i) = int (count_list act i) + d"
    and "\<forall>j. j \<noteq> i \<longrightarrow> count_list act' j = count_list act j" "set act' \<subseteq> insert i (set act)"
  shows "lt_inv (add_inflight i d b) act'"
proof -
  have "handler_ok (curDeadline b) (int (count_list act i)) (handlers b ! i)"
    using assms(1,2) by (simp add: lt_inv_def)
  from handler_ok_inflight [OF this, of d] show ?thesis
    unfolding add_inflight_def using assms(3-5) by (intro lt_inv_update [OF assms(1,2)]) auto
qed

lemma reachable_lt_inv: "reachable b act \<Longrightarrow> lt_inv b act"
proof (induction rule: reachable.induct)
  case (new now c hc)
  then show ?case by (simp add: lt_inv_def New_def)
next
  case (report b act c s)
  show ?case by (rule lt_inv_cong [OF report.IH]) (simp_all add: SetStatus_def setStatus_def Let_def)
next
  case (register b act u b')
  show ?case
    using register.hyps(2)
    by (intro lt_inv_cong [OF register.IH]) (auto simp: RegisterStatusUpdater_def registerStatusUpdater_def split: if_splits)
next
  case (track b act req r i b')
  then obtain b1 where n: "nextServer b = (Some i, b1)" "b' = add_inflight i 1 b1"
    by (auto simp: ServeHTTP_def Let_def split: option.splits prod.splits)
  show ?case
    unfolding n(2) by (rule lt_inv_inflight [OF lt_inv_nextServer(1,3) [OF track.IH n(1)]]) auto
next
  case (other b act req r b')
  then show ?case
    using lt_inv_nextServer(1) [OF other.IH] by (auto simp: ServeHTTP_def Let_def split: option.splits prod.splits)
next
  case (byte b act i elapsed)
  then have i: "i < length (handlers b)" "handler_ok (curDeadline b) (int (count_list act i)) (handlers b ! i)"
    by (auto simp: lt_inv_def)
  from handler_ok_sample [OF i(2) byte.hyps(3,4)] show ?case
    unfolding first_byte_def using i(1) by (intro lt_inv_update [OF byte.IH]) auto
next
  case (finish b as i bs)
  then show ?case
    unfolding finish_def by (intro lt_inv_inflight [OF finish.IH]) (auto simp: lt_inv_def)
qed (rule lt_inv_Add)

lemma sum_list_bounds:
  "\<forall>x \<in> set xs. 0 \<le> x \<and> x < B \<Longrightarrow> 0 \<le> sum_list xs \<and> sum_list xs \<le> int (length xs) * B"
  by (induction xs) (auto simp: algebra_simps)

lemma average_bounds:
  assumes "seen xs h" "\<forall>x \<in> set xs. 0 \<le> x \<and> x < 2 ^ 63"
  shows "0 \<le> getAvgResponseTime h" "getAvgResponseTime h \<le> 2 ^ 63"
proof -
  have cnt: "length (latest xs) = sampleCount h" "responseTimeSum h = sum_list (latest xs)"
    using assms(1) by (auto simp: seen_def latest_def min_def)
  have "set (latest xs) \<subseteq> set xs" by (simp add: latest_def set_drop_subset)
  then have "0 \<le> responseTimeSum h" "responseTimeSum h \<le> int (sampleCount h) * 2 ^ 63"
    using sum_list_bounds [of "latest xs" "2 ^ 63"] assms(2) cnt by auto
  then have "0 \<le> (of_int (responseTimeSum h) :: rat)" "(of_int (responseTimeSum h) :: rat) \<le> of_int (int (sampleCount h) * 2 ^ 63)"
    by (simp, simp only: of_int_le_iff)
  then have "0 \<le> (of_int (responseTimeSum h) :: rat) / of_nat (sampleCount h)"
    "sampleCount h \<noteq> 0 \<Longrightarrow> (of_int (responseTimeSum h) :: rat) / of_nat (sampleCount h) \<le> 2 ^ 63"
    by (auto simp: divide_le_eq mult.commute)
  then show "0 \<le> getAvgResponseTime h" "getAvgResponseTime h \<le> 2 ^ 63"
    using fl_le_2 [of "of_int (responseTimeSum h) / of_nat (sampleCount h)" 63] by (auto simp: getAvgResponseTime_def fl_nonneg)
qed

lemma score_bounds:
  assumes "handler_ok c n h" "0 \<le> n" "n < 2 ^ 63"
  shows "score h < MaxFloat64"
proof -
  obtain xs where xs: "seen xs h" "\<forall>x \<in> set xs. 0 \<le> x \<and> x < 2 ^ 63"
    using assms(1) by (auto simp: handler_ok_def)
  note avg = average_bounds [OF xs]
  have w: "1 \<le> weight h" "0 \<le> inflightCount h" "inflightCount h \<le> 2 ^ 63" using assms by (auto simp: handler_ok_def)
  have "(of_int (inflightCount h) :: rat) \<le> of_int (2 ^ 63)" using w(3) by (simp only: of_int_le_iff)
  then have "0 \<le> fl (of_int (inflightCount h))" "fl (of_int (inflightCount h)) \<le> 2 ^ 63"
    using w(2) by (intro fl_nonneg fl_le_2; simp)+
  then have "0 \<le> fl (1 + fl (of_int (inflightCount h)))" "fl (1 + fl (of_int (inflightCount h))) \<le> 2 ^ 64"
    by (intro fl_nonneg fl_le_2; simp)+
  then have "0 \<le> getAvgResponseTime h * fl (1 + fl (of_int (inflightCount h)))"
    "getAvgResponseTime h * fl (1 + fl (of_int (inflightCount h))) \<le> 2 ^ 63 * 2 ^ 64"
    using avg by (simp, intro mult_mono) simp_all
  then have p: "0 \<le> fl (getAvgResponseTime h * fl (1 + fl (of_int (inflightCount h))))"
    "fl (getAvgResponseTime h * fl (1 + fl (of_int (inflightCount h)))) \<le> 2 ^ 127"
    by (intro fl_nonneg fl_le_2; simp)+
  then have "fl (getAvgResponseTime h * fl (1 + fl (of_int (inflightCount h)))) / weight h \<le> 2 ^ 127"
    using w(1) mult_mono [of 1 "weight h" "fl (getAvgResponseTime h * fl (1 + fl (of_int (inflightCount h))))" "2 ^ 127"]
    by (simp add: divide_le_eq mult.commute)
  then have "score h \<le> 2 ^ 127" using p(1) w(1) unfolding score_def by (intro fl_le_2) simp_all
  also have "(2 ^ 127 :: rat) < MaxFloat64" by (simp add: MaxFloat64_def)
  finally show ?thesis .
qed

lemma candidates_set:
  assumes "\<forall>i \<in> set hs. f i < m"
  shows "set (lowest f hs m []) = {i \<in> set hs. \<forall>j \<in> set hs. f i \<le> f j}"
  using lowest_set [of "[]" f m hs] assms by (auto simp: less_imp_le)

lemma candidates_ne:
  assumes "hs \<noteq> []" "\<forall>i \<in> set hs. f i < m"
  shows "lowest f hs m [] \<noteq> []"
proof -
  have "Min (f ` set hs) \<in> f ` set hs"
    using assms(1) by (intro Min_in) auto
  then obtain i where i: "i \<in> set hs" "f i = Min (f ` set hs)" by auto
  then have "\<forall>j \<in> set hs. f i \<le> f j" by simp
  then have "i \<in> set (lowest f hs m [])"
    using i(1) candidates_set [OF assms(2)] by simp
  then show ?thesis by auto
qed

abbreviation candidates :: "('u, 'h) Balancer \<Rightarrow> nat list" where
  "candidates b \<equiv> lowest (\<lambda>i. score (handlers b ! i)) (getHealthyServers b) MaxFloat64 []"

lemma nextServer_best:
  assumes "\<forall>i \<in> set (getHealthyServers b). score (handlers b ! i) < MaxFloat64 \<and> deadline (handlers b ! i) < MaxFloat64"
    and r: "fst (nextServer b) = Some i"
  shows "i \<in> set (candidates b) \<and> (\<forall>j \<in> set (candidates b). deadline (handlers b ! i) \<le> deadline (handlers b ! j))"
proof -
  define hs where "hs = getHealthyServers b"
  define cs where "cs = candidates b"
  have cs: "set cs = {i \<in> set hs. \<forall>j \<in> set hs. score (handlers b ! i) \<le> score (handlers b ! j)}"
    unfolding cs_def hs_def using assms(1) by (intro candidates_set) auto
  have eq: "nextServer b = (if hs = [] then (None, b) else if length hs = 1 then (Some (hs ! 0), b)
      else if length cs = 1 then (Some (cs ! 0), b) else selectWRR cs b)"
    by (simp add: nextServer_def Let_def hs_def cs_def)
  consider "length hs = 1" | "length hs \<noteq> 1" "hs \<noteq> []" "length cs = 1" | "length hs \<noteq> 1" "hs \<noteq> []" "length cs \<noteq> 1"
    using r eq by (cases "hs = []") auto
  then have "i \<in> set cs \<and> (\<forall>j \<in> set cs. deadline (handlers b ! i) \<le> deadline (handlers b ! j))"
  proof cases
    case 1
    then have "hs = [i]" using r eq by (cases hs) auto
    then show ?thesis using cs by simp
  next
    case 2
    then have "cs = [i]" using r eq by (cases cs) auto
    then show ?thesis by simp
  next
    case 3
    then have sel: "fst (selectWRR cs b) = Some i" using r eq by simp
    then have ne: "cs \<noteq> []" by (auto simp: selectWRR_def)
    have "\<forall>j \<in> set cs. deadline (handlers b ! j) < MaxFloat64"
      using cs assms(1) by (simp add: hs_def)
    moreover have "i \<in> set cs"
      using selectWRR_shape [OF ne, of b] sel by (metis fst_conv option.inject)
    ultimately show ?thesis using selectWRR_least [OF ne _ sel] by blast
  qed
  then show ?thesis by (simp add: cs_def)
qed

lemma reachable_finite:
  assumes "reachable b act" "length act < 2 ^ 63" "curDeadline b < MaxFloat64" "i \<in> set (getHealthyServers b)"
  shows "score (handlers b ! i) < MaxFloat64 \<and> deadline (handlers b ! i) < MaxFloat64"
proof -
  have ok: "handler_ok (curDeadline b) (int (count_list act i)) (handlers b ! i)"
    using reachable_lt_inv [OF assms(1)] healthy_index [OF assms(4)] by (simp add: lt_inv_def)
  have "count_list act i < 2 ^ 63"
    using count_le_length [of act i] assms(2) by (rule le_less_trans)
  then have "int (count_list act i) < 2 ^ 63"
    by simp
  then show ?thesis
    using score_bounds [OF ok] ok assms(3) by (auto simp: handler_ok_def)
qed

text \<open>
  C35. The handler with the lowest score is chosen, and among several the one whose turn it is. In every
  state the balancer can reach, with fewer requests in flight and deadlines smaller than
  the ranges of their types, \<open>nextServer\<close> fails exactly when no handler is up and not fenced; the
  handler it returns is usable, no usable handler has a lower score, and of those with the same
  score none has an earlier deadline.
\<close>

theorem lt_choice:
  assumes "reachable b act" "length act < 2 ^ 63" "curDeadline b < MaxFloat64"
  shows "case fst (nextServer b) of
      None \<Rightarrow> getHealthyServers b = []
    | Some i \<Rightarrow> i < length (handlers b) \<and> usable b (fenced b) (hname (handlers b ! i)) \<and>
        (\<forall>j \<in> set (getHealthyServers b). score (handlers b ! i) < score (handlers b ! j) \<or>
           score (handlers b ! i) = score (handlers b ! j) \<and> deadline (handlers b ! i) \<le> deadline (handlers b ! j))"
proof -
  have fin: "\<forall>i \<in> set (getHealthyServers b). score (handlers b ! i) < MaxFloat64 \<and> deadline (handlers b ! i) < MaxFloat64"
    using reachable_finite [OF assms] by blast
  then have cs: "set (candidates b) =
      {i \<in> set (getHealthyServers b). \<forall>j \<in> set (getHealthyServers b). score (handlers b ! i) \<le> score (handlers b ! j)}"
    by (intro candidates_set) auto
  show ?thesis
  proof (cases "fst (nextServer b)")
    case (Some i)
    note best = nextServer_best [OF fin Some]
    have "i \<in> set (getHealthyServers b)" using best cs by simp
    moreover have "score (handlers b ! i) < score (handlers b ! j) \<or>
        score (handlers b ! i) = score (handlers b ! j) \<and> deadline (handlers b ! i) \<le> deadline (handlers b ! j)"
      if j: "j \<in> set (getHealthyServers b)" for j
    proof (cases "j \<in> set (candidates b)")
      case True
      then have "score (handlers b ! i) = score (handlers b ! j)"
        using best cs by (simp add: antisym)
      then show ?thesis using best True by blast
    next
      case False
      then obtain k where "k \<in> set (getHealthyServers b)" "score (handlers b ! k) < score (handlers b ! j)"
        using cs j by (auto simp: not_le)
      moreover from this(1) have "score (handlers b ! i) \<le> score (handlers b ! k)"
        using best cs by simp
      ultimately show ?thesis by simp
    qed
    ultimately show ?thesis
      using Some by (simp add: getHealthyServers_def)
  next
    case None
    then have "getHealthyServers b = [] \<or> candidates b = []"
      by (auto simp: nextServer_def Let_def selectWRR_None split: if_splits)
    then show ?thesis
      using None candidates_ne [of "getHealthyServers b" "\<lambda>i. score (handlers b ! i)" MaxFloat64] fin by auto
  qed
qed

definition demo_lt :: "(unit, char) Balancer" where
  "demo_lt = Add ''b'' CHR ''b'' (Some 2) False (Add ''a'' CHR ''a'' None False (New 0 None True))"

theorem lt_choice_witness: "fst (nextServer demo_lt) = Some 0 \<and> usable demo_lt (fenced demo_lt) ''a''"
proof -
  have "reachable demo_lt []"
    unfolding demo_lt_def by (intro reachable.intros)
  moreover have "fl (1 + fl (1 / fl 2)) \<le> 2 ^ 1" using period_bounds [OF float_weight, of 2] by (intro fl_le_2) simp_all
  then have "curDeadline demo_lt < MaxFloat64"
    by (simp add: demo_lt_def Add_def New_def new_handler_def MaxFloat64_def Let_def)
  moreover have "\<not> fl (1 + fl (1 / fl 2)) < 1"
    using fl_add_ge [of 1 "fl (1 / fl 2)"] period_bounds [OF float_weight, of 2] by simp
  then have "fst (nextServer demo_lt) = Some 0" "hname (handlers demo_lt ! 0) = ''a''"
    by (simp_all add: nextServer_def demo_lt_def Add_def New_def new_handler_def getHealthyServers_def usable_def
        Let_def numeral_2_eq_2 score_def getAvgResponseTime_def selectWRR_def MaxFloat64_def)
  ultimately show ?thesis
    using lt_choice [of demo_lt "[]"] by simp
qed

subsection \<open>Sessions and health\<close>

definition members :: "('u, 'h) Balancer \<Rightarrow> (string \<times> 'h) set" where
  "members b = (\<lambda>h. (hname h, handler h)) ` set (handlers b)"

lemma nextServer_names:
  assumes "nextServer b = (Some i, b')"
  shows "i < length (handlers b) \<and> sticky b' = sticky b \<and> hname (handlers b' ! i) = hname (handlers b ! i) \<and>
    handler (handlers b' ! i) = handler (handlers b ! i)"
proof (cases b rule: nextServer_cases)
  case (tie j d)
  then show ?thesis
    using assms healthy_index [OF tie(2)] by (auto simp: setDeadline_def update_handler_def)
qed (use assms in \<open>auto dest: healthy_index\<close>)

lemma ServeHTTP_tracked:
  assumes "stuck_to (sticky b) (status b) req = None" "ServeHTTP b req = (Forward cs nm h, x, b')"
  shows "(nm, h) \<in> members b \<and> cs = fresh_cookies (sticky b) nm"
proof -
  obtain y b1 where n: "nextServer b = (y, b1)" by fastforce
  with assms obtain i where i: "y = Some i"
    by (cases y) (auto simp: ServeHTTP_def)
  with assms n nextServer_names [of b i b1] show ?thesis
    by (auto simp: ServeHTTP_def Let_def members_def)
qed

text \<open>A request routed by its cookie is not tracked: it leaves the balancer as it is.\<close>

interpretation lt_sticky: sticky_dispatch sticky status members "\<lambda>_. True" "\<lambda>_ b. b"
  "\<lambda>b req. case ServeHTTP b req of (r, _, b') \<Rightarrow> Some (r, b')"
  by unfold_locales (simp add: ServeHTTP_def, auto split: prod.splits dest: ServeHTTP_tracked)

interpretation lt_status: status_tracker SetStatus status updaters
  unfolding SetStatus_def by (rule children.status_tracker_axioms)

end
