(* ===== verification/TransportWrr.thy ===== *)
theory TransportWrr
  imports BalancerStatus "HOL-Library.Multiset"
begin

section \<open>Round robin for TCP and UDP services\<close>

text \<open>
  The balancers of \<open>pkg/tcp/wrr_load_balancer.go\<close> and \<open>pkg/udp/wrr_load_balancer.go\<close> walk in rows over their
  servers, lowering the weight a server needs by the greatest common divisor of the weights
  after each row. The two files repeat the same routines, which are modelled once; all
  operations of both are modelled. A server returned is given by its index in the slice.

  Weights are signed 64 bit integers; the one subtraction that may leave their range wraps. The loop
  need not end, so it is a partial function, where \<^const>\<open>None\<close> is a call that does not return.
\<close>

subsection \<open>The walk\<close>

definition wrap64 :: "int \<Rightarrow> int" where
  "wrap64 x = (x + 2 ^ 63) mod 2 ^ 64 - 2 ^ 63"

text \<open>The operator \<open>%\<close>, which truncates towards zero.\<close>

definition go_rem :: "int \<Rightarrow> int \<Rightarrow> int" where
  "go_rem a b = sgn a * (\<bar>a\<bar> mod \<bar>b\<bar>)"

function go_gcd :: "int \<Rightarrow> int \<Rightarrow> int" where
  "go_gcd a b = (if b = 0 then a else go_gcd b (go_rem a b))"
  by auto

termination
proof (relation "measure (\<lambda>(a, b). nat \<bar>b\<bar>)")
  fix a b :: int
  assume "b \<noteq> 0"
  then have "\<bar>a\<bar> mod \<bar>b\<bar> < \<bar>b\<bar>" "0 \<le> \<bar>a\<bar> mod \<bar>b\<bar>" by auto
  then show "((b, go_rem a b), a, b) \<in> measure (\<lambda>(a, b). nat \<bar>b\<bar>)"
    by (auto simp: go_rem_def abs_mult sgn_if)
qed simp

declare go_gcd.simps [simp del]

definition maxWeight :: "int list \<Rightarrow> int" where
  "maxWeight ws = fold (\<lambda>w m. if w > m then w else m) ws (- 1)"

definition weightGcd :: "int list \<Rightarrow> int" where
  "weightGcd ws = fold (\<lambda>w divisor. if divisor = - 1 then w else go_gcd divisor w) ws (- 1)"

text \<open>One turn moves the index and, at the start of a row, the current weight.\<close>

definition advance :: "nat \<Rightarrow> int \<Rightarrow> int \<Rightarrow> int \<times> int \<Rightarrow> int \<times> int" where
  "advance n g maximum s =
     (let i = (fst s + 1) mod int n in
      (i, if i = 0 then let c = wrap64 (snd s - g) in if c \<le> 0 then maximum else c else snd s))"

partial_function (option) walk ::
  "(nat \<Rightarrow> int \<Rightarrow> bool) \<Rightarrow> nat \<Rightarrow> int \<Rightarrow> int \<Rightarrow> int \<times> int \<Rightarrow> (nat \<times> int \<times> int) option" where
  "walk ok n g maximum s =
     (let s' = advance n g maximum s in
      if ok (nat (fst s')) (snd s') then Some (nat (fst s'), s') else walk ok n g maximum s')"

subsection \<open>TCP\<close>

record 'h server =
  handler :: 'h
  sname :: string
  weight :: int

record ('u, 'h) WRRLoadBalancer = "'u children" +
  servers :: "'h server list"
  index :: int
  currentWeight :: int

definition NewWRRLoadBalancer :: "bool \<Rightarrow> ('u, 'h) WRRLoadBalancer" where
  "NewWRRLoadBalancer hc =
     \<lparr>wantsHealthCheck = hc, status = {}, updaters = [], servers = [], index = - 1, currentWeight = 0\<rparr>"

definition Add :: "string \<Rightarrow> 'h \<Rightarrow> int option \<Rightarrow> ('u, 'h) WRRLoadBalancer \<Rightarrow> ('u, 'h) WRRLoadBalancer" where
  "Add nm hdl w b =
     b\<lparr>servers := servers b @ [\<lparr>handler = hdl, sname = nm, weight = (case w of None \<Rightarrow> 1 | Some w \<Rightarrow> w)\<rparr>],
       status := insert nm (status b)\<rparr>"

definition SetStatus ::
  "string \<Rightarrow> bool \<Rightarrow> ('u, 'h) WRRLoadBalancer \<Rightarrow> ('u, 'h) WRRLoadBalancer \<times> ('u \<times> bool) list" where
  "SetStatus childName up b = setStatus childName up b"

definition RegisterStatusUpdater :: "'u \<Rightarrow> ('u, 'h) WRRLoadBalancer \<Rightarrow> ('u, 'h) WRRLoadBalancer outcome" where
  "RegisterStatusUpdater fn b = registerStatusUpdater ''healthCheck not enabled in config for this weighted service'' fn b"

definition eligible :: "('u, 'h) WRRLoadBalancer \<Rightarrow> nat \<Rightarrow> int \<Rightarrow> bool" where
  "eligible b i c \<longleftrightarrow> sname (servers b ! i) \<in> status b \<and> weight (servers b ! i) \<ge> c"

definition nextServer :: "('u, 'h) WRRLoadBalancer \<Rightarrow> (nat outcome \<times> ('u, 'h) WRRLoadBalancer) option" where
  "nextServer b =
     (let ws = map weight (servers b); maximum = maxWeight ws in
      if servers b = [] \<or> status b = {} then Some (Err ''no servers in the pool'', b)
      else if maximum = 0 then Some (Err ''all servers have 0 weight'', b)
      else map_option (\<lambda>(i, idx, cw). (Ok i, b\<lparr>index := idx, currentWeight := cw\<rparr>))
             (walk (eligible b) (length ws) (weightGcd ws) maximum (index b, currentWeight b)))"

datatype forwarded = Serve nat | CloseConn

definition ServeTCP :: "('u, 'h) WRRLoadBalancer \<Rightarrow> (forwarded \<times> ('u, 'h) WRRLoadBalancer) option" where
  "ServeTCP b =
     map_option (\<lambda>(r, b'). (case r of Ok i \<Rightarrow> Serve i | _ \<Rightarrow> CloseConn, b')) (nextServer b)"

subsection \<open>UDP\<close>

record 'h udpServer =
  udpHandler :: 'h
  udpWeight :: int

record 'h udpBalancer =
  udpServers :: "'h udpServer list"
  udpCurrentWeight :: int
  udpIndex :: int

definition NewUdp :: "'h udpBalancer" where
  "NewUdp = \<lparr>udpServers = [], udpCurrentWeight = 0, udpIndex = - 1\<rparr>"

definition AddWeightedServer :: "'h \<Rightarrow> int option \<Rightarrow> 'h udpBalancer \<Rightarrow> 'h udpBalancer" where
  "AddWeightedServer hdl w b =
     b\<lparr>udpServers := udpServers b @ [\<lparr>udpHandler = hdl, udpWeight = (case w of None \<Rightarrow> 1 | Some w \<Rightarrow> w)\<rparr>]\<rparr>"

definition AddUdpServer :: "'h \<Rightarrow> 'h udpBalancer \<Rightarrow> 'h udpBalancer" where
  "AddUdpServer hdl b = AddWeightedServer hdl (Some 1) b"

definition udp_next :: "'h udpBalancer \<Rightarrow> (nat outcome \<times> 'h udpBalancer) option" where
  "udp_next b =
     (let ws = map udpWeight (udpServers b); maximum = maxWeight ws in
      if udpServers b = [] then Some (Err ''no servers in the pool'', b)
      else if maximum = 0 then Some (Err ''all servers have 0 weight'', b)
      else map_option (\<lambda>(i, idx, cw). (Ok i, b\<lparr>udpIndex := idx, udpCurrentWeight := cw\<rparr>))
             (walk (\<lambda>i c. udpWeight (udpServers b ! i) \<ge> c) (length ws) (weightGcd ws) maximum
               (udpIndex b, udpCurrentWeight b)))"

definition ServeUDP :: "'h udpBalancer \<Rightarrow> (forwarded \<times> 'h udpBalancer) option" where
  "ServeUDP b =
     map_option (\<lambda>(r, b'). (case r of Ok i \<Rightarrow> Serve i | _ \<Rightarrow> CloseConn, b')) (udp_next b)"

subsection \<open>Weights\<close>

lemma go_gcd_gcd: "0 \<le> a \<Longrightarrow> 0 \<le> b \<Longrightarrow> go_gcd a b = gcd a b"
proof (induction a b rule: go_gcd.induct)
  case (1 a b)
  show ?case
  proof (cases "b = 0")
    case False
    have "go_rem a b = a mod b"
      using 1(2,3) False by (cases "a = 0") (simp_all add: go_rem_def)
    then show ?thesis
      using 1 False by (subst go_gcd.simps) (simp add: gcd_red_int [of a b] gcd.commute)
  qed (use 1 in \<open>simp add: go_gcd.simps\<close>)
qed

lemma maxWeight_fold:
  fixes m0 :: int
  assumes "fold (\<lambda>w m. if w > m then w else m) ws m0 = m"
  shows "m0 \<le> m \<and> (\<forall>w \<in> set ws. w \<le> m) \<and> (m = m0 \<or> m \<in> set ws)"
  using assms
proof (induction ws arbitrary: m0)
  case (Cons w ws)
  from Cons.IH [of "if w > m0 then w else m0"] Cons.prems show ?case
    by (auto split: if_splits)
qed simp

text \<open>What the walk relies on: a positive maximum and a divisor of all weights.\<close>

definition weights_ok :: "int list \<Rightarrow> bool" where
  "weights_ok ws \<longleftrightarrow> (\<forall>w \<in> set ws. 0 \<le> w \<and> w < 2 ^ 63) \<and> (\<exists>w \<in> set ws. 0 < w)"

lemma maxWeight_ok:
  assumes "weights_ok ws"
  shows "0 < maxWeight ws" "maxWeight ws \<in> set ws" "\<forall>w \<in> set ws. w \<le> maxWeight ws" "maxWeight ws < 2 ^ 63"
proof -
  have m: "- 1 \<le> maxWeight ws" "\<forall>w \<in> set ws. w \<le> maxWeight ws" "maxWeight ws = - 1 \<or> maxWeight ws \<in> set ws"
    using maxWeight_fold [OF maxWeight_def [symmetric], of ws] by auto
  then show "0 < maxWeight ws" "\<forall>w \<in> set ws. w \<le> maxWeight ws"
    using assms by (auto simp: weights_ok_def intro: less_le_trans)
  with m(3) show "maxWeight ws \<in> set ws" by simp
  then show "maxWeight ws < 2 ^ 63"
    using assms by (simp add: weights_ok_def)
qed

lemma weightGcd_fold:
  assumes "\<forall>w \<in> set ws. 0 \<le> w" "0 \<le> d"
  shows "fold (\<lambda>w divisor. if divisor = - 1 then w else go_gcd divisor w) ws d = gcd d (Gcd (set ws))"
  using assms
proof (induction ws arbitrary: d)
  case (Cons w ws)
  then show ?case using Cons.IH [of "gcd d w"] by (simp add: go_gcd_gcd gcd.assoc)
qed simp

lemma weightGcd_ok:
  assumes "weights_ok ws"
  shows "weightGcd ws = Gcd (set ws)" "0 < weightGcd ws" "w \<in> set ws \<Longrightarrow> weightGcd ws dvd w"
    "weightGcd ws \<le> maxWeight ws"
proof -
  obtain v vs where ws: "ws = v # vs" using assms by (cases ws) (auto simp: weights_ok_def)
  show eq: "weightGcd ws = Gcd (set ws)"
    using assms weightGcd_fold [of vs v] by (auto simp: ws weightGcd_def weights_ok_def)
  show "0 < weightGcd ws"
    using assms by (auto simp: eq weights_ok_def less_le Gcd_0_iff)
  show "w \<in> set ws \<Longrightarrow> weightGcd ws dvd w" by (simp add: eq)
  show "weightGcd ws \<le> maxWeight ws"
    using maxWeight_ok [OF assms] by (intro zdvd_imp_le) (simp_all add: eq)
qed

subsection \<open>When the walk ends\<close>

lemma wrap64_id: "- (2 ^ 63) \<le> x \<Longrightarrow> x < 2 ^ 63 \<Longrightarrow> wrap64 x = x"
  by (simp add: wrap64_def)

text \<open>The states of the walk: before the first turn, or at some index with a positive weight.\<close>

definition state_ok :: "int list \<Rightarrow> int \<times> int \<Rightarrow> bool" where
  "state_ok ws s \<longleftrightarrow> s = (- 1, 0) \<or> 0 \<le> fst s \<and> fst s < int (length ws) \<and> 0 < snd s \<and> snd s \<le> maxWeight ws"

abbreviation step :: "int list \<Rightarrow> int \<times> int \<Rightarrow> int \<times> int" where
  "step ws \<equiv> advance (length ws) (weightGcd ws) (maxWeight ws)"

lemma step_same_row: "0 \<le> i \<Longrightarrow> i + 1 < int (length ws) \<Longrightarrow> step ws (i, c) = (i + 1, c)"
  by (simp add: advance_def)

lemma step_next_row:
  assumes "weights_ok ws" "state_ok ws (i, c)" "i = int (length ws) - 1 \<or> i = - 1"
  shows "step ws (i, c) = (0, if c \<le> weightGcd ws then maxWeight ws else c - weightGcd ws)"
proof -
  have "(i + 1) mod int (length ws) = 0" using assms(3) by auto
  moreover have "wrap64 (c - weightGcd ws) = c - weightGcd ws"
    using assms(2) maxWeight_ok [OF assms(1)] weightGcd_ok [OF assms(1)] by (intro wrap64_id) (auto simp: state_ok_def)
  ultimately show ?thesis by (simp add: advance_def)
qed

lemma step_cases:
  assumes "state_ok ws s"
  obtains (same) i c where "s = (i, c)" "0 \<le> i" "i + 1 < int (length ws)"
    | (row) i c where "s = (i, c)" "i = int (length ws) - 1 \<or> i = - 1"
proof (cases s)
  case (Pair i c)
  then show ?thesis
    using assms that(1) [of i c] that(2) [of i c] by (cases "i + 1 < int (length ws)") (auto simp: state_ok_def)
qed

lemma state_ok_step:
  assumes "weights_ok ws" "state_ok ws s"
  shows "state_ok ws (step ws s)" "0 \<le> fst (step ws s)" "0 < snd (step ws s)"
proof -
  have n: "0 < length ws" using assms(1) by (auto simp: weights_ok_def)
  have "state_ok ws (step ws s) \<and> 0 \<le> fst (step ws s) \<and> 0 < snd (step ws s)"
    using assms(2)
  proof (cases rule: step_cases)
    case (same i c)
    then show ?thesis using assms(2) by (auto simp: step_same_row state_ok_def)
  next
    case (row i c)
    then show ?thesis
      using assms n maxWeight_ok [OF assms(1)] weightGcd_ok(2) [OF assms(1)]
      by (auto simp: step_next_row [OF assms(1)] state_ok_def)
  qed
  then show "state_ok ws (step ws s)" "0 \<le> fst (step ws s)" "0 < snd (step ws s)" by auto
qed

text \<open>
  Towards server \<open>k\<close>: whether it has been passed in a row that would have taken it, the current weight, and
  the rest of the row.
\<close>

definition missed :: "int list \<Rightarrow> nat \<Rightarrow> int \<times> int \<Rightarrow> nat" where
  "missed ws k s = (if fst s = - 1 \<or> snd s \<le> ws ! k \<and> int k \<le> fst s then 1 else 0)"

definition toward :: "int list \<Rightarrow> nat \<Rightarrow> ((int \<times> int) \<times> (int \<times> int)) set" where
  "toward ws k = measures [missed ws k, \<lambda>s. if missed ws k s = 1 then 0 else nat (snd s), \<lambda>s. nat (int (length ws) - fst s)]"

lemma step_toward:
  assumes "weights_ok ws" "state_ok ws s" "k < length ws" "0 < ws ! k"
    and "\<not> (fst (step ws s) = int k \<and> snd (step ws s) \<le> ws ! k)"
  shows "(step ws s, s) \<in> toward ws k"
  using assms(2)
proof (cases rule: step_cases)
  case (same i c)
  then show ?thesis
    using assms(5) by (auto simp: toward_def missed_def step_same_row)
next
  case (row i c)
  have g: "weightGcd ws \<le> ws ! k"
    using weightGcd_ok(3) [OF assms(1), of "ws ! k"] assms(3,4) by (intro zdvd_imp_le) auto
  show ?thesis
  proof (cases "missed ws k s = 1")
    case True
    then show ?thesis
      using row assms weightGcd_ok(2) [OF assms(1)]
      by (auto simp: toward_def missed_def step_next_row [OF assms(1)] split: if_splits)
  next
    case False
    then show ?thesis
      using row assms g weightGcd_ok(2) [OF assms(1)]
      by (auto simp: toward_def missed_def step_next_row [OF assms(1)] split: if_splits)
  qed
qed

lemma wf_toward: "wf (toward ws k)"
  by (simp add: toward_def)

abbreviation walks :: "(nat \<Rightarrow> int \<Rightarrow> bool) \<Rightarrow> int list \<Rightarrow> int \<times> int \<Rightarrow> (nat \<times> int \<times> int) option" where
  "walks ok ws \<equiv> walk ok (length ws) (weightGcd ws) (maxWeight ws)"

lemma walk_returns:
  assumes "weights_ok ws" "state_ok ws s" "k < length ws" "0 < ws ! k" "\<forall>c. c \<le> ws ! k \<longrightarrow> ok k c"
  shows "\<exists>i s'. walks ok ws s = Some (i, s')"
  using assms(2)
proof (induction s rule: wf_induct_rule [OF wf_toward [of ws k]])
  case (1 s)
  show ?case
  proof (cases "ok (nat (fst (step ws s))) (snd (step ws s))")
    case True
    then show ?thesis by (simp add: walk.simps [of _ _ _ _ s] Let_def)
  next
    case False
    then have "\<not> (fst (step ws s) = int k \<and> snd (step ws s) \<le> ws ! k)"
      using assms(5) by auto
    from step_toward [OF assms(1) 1(2) assms(3,4) this] show ?thesis
      using 1(1) [of "step ws s"] state_ok_step(1) [OF assms(1) 1(2)] False
      by (simp add: walk.simps [of _ _ _ _ s] Let_def)
  qed
qed

lemma walk_result:
  assumes "walks ok ws s = Some r" "weights_ok ws" "state_ok ws s"
  shows "fst r < length ws \<and> ok (fst r) (snd (snd r)) \<and> 0 < snd (snd r) \<and> state_ok ws (snd r)"
proof -
  let ?P = "\<lambda>ok n g m s r. n = length ws \<longrightarrow> g = weightGcd ws \<longrightarrow> m = maxWeight ws \<longrightarrow> state_ok ws s \<longrightarrow>
    fst r < length ws \<and> ok (fst r) (snd (snd r)) \<and> 0 < snd (snd r) \<and> state_ok ws (snd r)"
  have "?P ok (length ws) (weightGcd ws) (maxWeight ws) s r"
  proof (rule walk.raw_induct [where P = ?P, OF _ assms(1)])
    fix loop ok n g m s r
    assume 1: "\<And>ok n g m s r. loop ok n g m s = Some r \<Longrightarrow> ?P ok n g m s r"
      "(let s' = advance n g m s in if ok (nat (fst s')) (snd s') then Some (nat (fst s'), s') else loop ok n g m s') = Some r"
    show "?P ok n g m s r"
    proof (intro impI)
      assume eq: "n = length ws" "g = weightGcd ws" "m = maxWeight ws" and s: "state_ok ws s"
      note st = state_ok_step [OF assms(2) s]
      show "fst r < length ws \<and> ok (fst r) (snd (snd r)) \<and> 0 < snd (snd r) \<and> state_ok ws (snd r)"
      proof (cases "ok (nat (fst (step ws s))) (snd (step ws s))")
        case True
        then have "r = (nat (fst (step ws s)), step ws s)" using 1(2) eq by (simp add: Let_def)
        then show ?thesis using True st by (auto simp: state_ok_def)
      next
        case False
        then show ?thesis using 1(1) [of ok n g m "step ws s" r] 1(2) eq st(1) by (simp add: Let_def)
      qed
    qed
  qed
  then show ?thesis using assms(3) by simp
qed

subsection \<open>Whole rounds\<close>

text \<open>The servers that a number of turns selects, and the calls that return them.\<close>

fun run :: "(nat \<Rightarrow> int \<Rightarrow> bool) \<Rightarrow> int list \<Rightarrow> nat \<Rightarrow> int \<times> int \<Rightarrow> nat list \<times> int \<times> int" where
  "run ok ws 0 s = ([], s)"
| "run ok ws (Suc m) s =
     (let s' = step ws s; (es, s'') = run ok ws m s' in
      ((if ok (nat (fst s')) (snd s') then [nat (fst s')] else []) @ es, s''))"

fun picks :: "(nat \<Rightarrow> int \<Rightarrow> bool) \<Rightarrow> int list \<Rightarrow> nat \<Rightarrow> int \<times> int \<Rightarrow> (nat list \<times> int \<times> int) option" where
  "picks ok ws 0 s = Some ([], s)"
| "picks ok ws (Suc n) s =
     (case walks ok ws s of None \<Rightarrow> None
      | Some (i, s') \<Rightarrow> map_option (\<lambda>(is, s''). (i # is, s'')) (picks ok ws n s'))"

lemma run_picks: "run ok ws m s = (es, s') \<Longrightarrow> \<exists>s''. picks ok ws (length es) s = Some (es, s'')"
proof (induction m arbitrary: s es s')
  case (Suc m)
  obtain es1 s1 where r: "run ok ws m (step ws s) = (es1, s1)" by (rule prod.exhaust)
  from Suc.IH [OF r] obtain s'' where p: "picks ok ws (length es1) (step ws s) = Some (es1, s'')" ..
  show ?case
  proof (cases "ok (nat (fst (step ws s))) (snd (step ws s))")
    case True
    then have "es = nat (fst (step ws s)) # es1"
      using Suc.prems by (simp add: r Let_def)
    then show ?thesis
      using True p by (simp add: Let_def walk.simps [of _ _ _ _ s])
  next
    case False
    then have "walks ok ws s = walks ok ws (step ws s)" "es = es1"
      using Suc.prems by (simp_all add: r Let_def walk.simps [of _ _ _ _ s])
    then show ?thesis
      using p by (cases "length es1") auto
  qed
qed simp

lemma run_add:
  "run ok ws (m + k) s = (let (es, s') = run ok ws m s; (es', s'') = run ok ws k s' in (es @ es', s''))"
  by (induction m arbitrary: s) (auto simp: Let_def split: prod.splits)

lemma run_row:
  "i < length ws \<Longrightarrow> run ok ws (length ws - 1 - i) (int i, c) =
     (filter (\<lambda>j. ok j c) [Suc i..<length ws], (int (length ws) - 1, c))"
proof (induction "length ws - 1 - i" arbitrary: i)
  case 0
  then have "i = length ws - 1" by simp
  then show ?case using 0 by simp
next
  case (Suc m)
  then have i: "Suc i < length ws" "m = length ws - 1 - Suc i" by auto
  have "step ws (int i, c) = (int (Suc i), c)"
    using i(1) by (simp add: step_same_row)
  moreover have "[Suc i..<length ws] = Suc i # [Suc (Suc i)..<length ws]"
    using i(1) by (rule upt_conv_Cons)
  moreover have "length ws - 1 - i = Suc (length ws - 1 - Suc i)" "nat (int (Suc i)) = Suc i"
    using i(1) by auto
  ultimately show ?case
    using Suc.hyps(1) [OF i(2) i(1)] by (simp only: run.simps Let_def fst_conv snd_conv) simp
qed

lemma run_full_row:
  assumes "ws \<noteq> []" "step ws s = (0, c)"
  shows "run ok ws (length ws) s = (filter (\<lambda>j. ok j c) [0..<length ws], (int (length ws) - 1, c))"
proof -
  obtain m where m: "length ws = Suc m" using assms(1) by (cases ws) auto
  have "[0..<length ws] = 0 # [Suc 0..<length ws]" using m by (simp add: upt_conv_Cons)
  then show ?thesis
    using run_row [of 0 ws ok c] m assms(2) by (simp add: Let_def)
qed

text \<open>A round goes through the multiples of the divisor, from the maximum down.\<close>

definition levels :: "int list \<Rightarrow> nat" where
  "levels ws = nat (maxWeight ws div weightGcd ws)"

definition row :: "(nat \<Rightarrow> int \<Rightarrow> bool) \<Rightarrow> int list \<Rightarrow> nat \<Rightarrow> nat list" where
  "row ok ws k = filter (\<lambda>j. ok j (maxWeight ws - int k * weightGcd ws)) [0..<length ws]"

lemma levels_max:
  assumes "weights_ok ws"
  shows "maxWeight ws = int (levels ws) * weightGcd ws"
  using maxWeight_ok(1,2) [OF assms] weightGcd_ok(2,3) [OF assms] by (simp add: levels_def pos_imp_zdiv_nonneg_iff)

lemma state_row:
  assumes "weights_ok ws" "k < levels ws"
  shows "state_ok ws (int (length ws) - 1, maxWeight ws - int k * weightGcd ws)"
    "step ws (int (length ws) - 1, maxWeight ws - int k * weightGcd ws) =
       (0, if Suc k = levels ws then maxWeight ws else maxWeight ws - int (Suc k) * weightGcd ws)"
proof -
  let ?g = "weightGcd ws"
  have n: "0 < length ws" using assms(1) by (auto simp: weights_ok_def)
  have g: "0 < ?g" by (rule weightGcd_ok(2) [OF assms(1)])
  have eq: "maxWeight ws - int k * ?g = (int (levels ws) - int k) * ?g"
    unfolding levels_max [OF assms(1)] by (simp add: algebra_simps)
  have "0 < maxWeight ws - int k * ?g" "0 \<le> int k * ?g"
    unfolding eq using assms(2) g by simp_all
  then show st: "state_ok ws (int (length ws) - 1, maxWeight ws - int k * ?g)"
    using n by (simp add: state_ok_def)
  have "(int (levels ws) - int k) * ?g \<le> 1 * ?g \<longleftrightarrow> int (levels ws) - int k \<le> 1"
    using g by (simp only: mult_le_cancel_right) auto
  then have "maxWeight ws - int k * ?g \<le> ?g \<longleftrightarrow> Suc k = levels ws"
    using assms(2) eq by auto
  then show "step ws (int (length ws) - 1, maxWeight ws - int k * ?g) =
      (0, if Suc k = levels ws then maxWeight ws else maxWeight ws - int (Suc k) * ?g)"
    by (simp add: step_next_row [OF assms(1) st] algebra_simps)
qed

lemma run_rows:
  assumes "weights_ok ws" "step ws s = (0, maxWeight ws)" "r < levels ws"
  shows "run ok ws (Suc r * length ws) s =
    (concat (map (row ok ws) [0..<Suc r]), (int (length ws) - 1, maxWeight ws - int r * weightGcd ws))"
  using assms(3)
proof (induction r)
  case 0
  have "ws \<noteq> []" using assms(1) by (auto simp: weights_ok_def)
  from run_full_row [OF this assms(2)] show ?case by (simp add: row_def)
next
  case (Suc r)
  have ne: "ws \<noteq> []" using assms(1) by (auto simp: weights_ok_def)
  have "step ws (int (length ws) - 1, maxWeight ws - int r * weightGcd ws) =
      (0, maxWeight ws - int (Suc r) * weightGcd ws)"
    using Suc.prems by (subst state_row(2) [OF assms(1)]) auto
  from run_full_row [OF ne this, of ok] have row: "run ok ws (length ws) (int (length ws) - 1, maxWeight ws - int r * weightGcd ws) =
      (row ok ws (Suc r), (int (length ws) - 1, maxWeight ws - int (Suc r) * weightGcd ws))"
    by (simp add: row_def)
  have "run ok ws (Suc (Suc r) * length ws) s = run ok ws (Suc r * length ws + length ws) s"
    by (simp add: add.commute)
  also have "\<dots> = (concat (map (row ok ws) [0..<Suc r]) @ row ok ws (Suc r),
      (int (length ws) - 1, maxWeight ws - int (Suc r) * weightGcd ws))"
    unfolding run_add using Suc row by (simp del: mult_Suc of_nat_Suc add: Let_def)
  finally show ?case by simp
qed

definition round_of :: "(nat \<Rightarrow> int \<Rightarrow> bool) \<Rightarrow> int list \<Rightarrow> nat list" where
  "round_of ok ws = concat (map (row ok ws) [0..<levels ws])"

lemma run_rounds:
  assumes "weights_ok ws" "step ws s = (0, maxWeight ws)"
  shows "\<exists>s'. run ok ws (k * (levels ws * length ws)) s = (concat (replicate k (round_of ok ws)), s') \<and> step ws s' = (0, maxWeight ws)"
  using assms(2)
proof (induction k arbitrary: s)
  case (Suc k)
  have pos: "0 < levels ws"
    using levels_max [OF assms(1)] maxWeight_ok(1) [OF assms(1)] by (cases "levels ws") auto
  define s1 where "s1 = (int (length ws) - 1, maxWeight ws - int (levels ws - 1) * weightGcd ws)"
  have one: "run ok ws (levels ws * length ws) s = (round_of ok ws, s1)"
    using run_rows [OF assms(1) Suc.prems, of "levels ws - 1"] pos by (simp add: round_of_def s1_def)
  have "step ws s1 = (0, maxWeight ws)"
    unfolding s1_def using state_row(2) [OF assms(1), of "levels ws - 1"] pos by simp
  from Suc.IH [OF this] obtain s' where
    "run ok ws (k * (levels ws * length ws)) s1 = (concat (replicate k (round_of ok ws)), s')" "step ws s' = (0, maxWeight ws)"
    by blast
  then show ?case
    using one by (simp add: run_add Let_def)
qed simp

text \<open>In a round a server that is up is selected as often as its weight contains the divisor.\<close>

lemma card_less_Suc_if:
  "card {k. k < Suc r \<and> P k} = card {k. k < r \<and> P k} + (if P r then 1 else 0)"
proof -
  have "{k. k < Suc r \<and> P k} = (if P r then insert r {k. k < r \<and> P k} else {k. k < r \<and> P k})"
    by (auto simp: less_Suc_eq)
  then show ?thesis by simp
qed

lemma count_round:
  assumes "weights_ok ws" "i < length ws" "\<forall>i < length ws. \<forall>c. ok i c \<longleftrightarrow> up i \<and> c \<le> ws ! i"
  shows "count_list (round_of ok ws) i = (if up i then nat (ws ! i div weightGcd ws) else 0)"
proof -
  let ?g = "weightGcd ws"
  have g: "0 < ?g" by (rule weightGcd_ok(2) [OF assms(1)])
  obtain q where q: "ws ! i = int q * ?g"
  proof -
    have "?g dvd ws ! i" "0 \<le> ws ! i"
      using weightGcd_ok(3) [OF assms(1)] assms by (auto simp: weights_ok_def)
    then show ?thesis using that [of "nat (ws ! i div ?g)"] g by (simp add: pos_imp_zdiv_nonneg_iff)
  qed
  have "int q * ?g \<le> int (levels ws) * ?g"
    using maxWeight_ok(3) [OF assms(1)] assms(2) levels_max [OF assms(1)] q by (metis nth_mem)
  then have le: "q \<le> levels ws" using g by simp
  have row: "count_list (row ok ws k) i = (if up i \<and> levels ws \<le> q + k then 1 else 0)" for k
  proof -
    have "maxWeight ws - int k * ?g \<le> ws ! i \<longleftrightarrow> int (levels ws) * ?g \<le> int (q + k) * ?g"
      unfolding levels_max [OF assms(1)] q by (auto simp: algebra_simps)
    also have "\<dots> \<longleftrightarrow> levels ws \<le> q + k" using g by (simp del: of_nat_add)
    finally show ?thesis
      using assms(2,3) by (auto simp: row_def count_list_filter_upt)
  qed
  have "count_list (concat (map (row ok ws) [0..<r])) i = (if up i then card {k. k < r \<and> levels ws \<le> q + k} else 0)" for r
    by (induction r) (auto simp: row card_less_Suc_if)
  moreover have "{k. k < levels ws \<and> levels ws \<le> q + k} = {levels ws - q..<levels ws}" by auto
  ultimately show ?thesis
    using le g by (simp add: round_of_def q)
qed

lemma count_replicate: "count_list (concat (replicate k xs)) x = k * count_list xs x"
  by (induction k) simp_all

lemma set_round: "set (round_of ok ws) \<subseteq> {..<length ws}"
  by (auto simp: round_of_def row_def)

lemma rounds_fair:
  assumes "weights_ok ws" "step ws s = (0, maxWeight ws)"
    and "N = k * (\<Sum>i < length ws. if up i then nat (ws ! i div weightGcd ws) else 0)"
    and "\<forall>i < length ws. \<forall>c. ok i c \<longleftrightarrow> up i \<and> c \<le> ws ! i"
  shows "\<exists>is s'. picks ok ws N s = Some (is, s') \<and>
    (\<forall>i < length ws. count_list is i = (if up i then k * nat (ws ! i div weightGcd ws) else 0))"
proof -
  let ?is = "concat (replicate k (round_of ok ws))"
  obtain s' where r: "run ok ws (k * (levels ws * length ws)) s = (?is, s')"
    using run_rounds [OF assms(1,2)] by blast
  have cnt: "\<forall>i < length ws. count_list ?is i = (if up i then k * nat (ws ! i div weightGcd ws) else 0)"
    by (simp add: count_replicate count_round [OF assms(1) _ assms(4)])
  have "set ?is \<subseteq> {..<length ws}"
    using set_round by (auto simp: set_replicate_conv_if)
  then have "length ?is = (\<Sum>i < length ws. count_list ?is i)"
    using sum_count_set [of ?is "{..<length ws}"] by simp
  also have "\<dots> = N"
    unfolding assms(3) sum_distrib_left using cnt by (intro sum.cong) auto
  finally show ?thesis
    using run_picks [OF r] cnt by auto
qed

subsection \<open>Properties of the TCP balancer\<close>

abbreviation tcp_weights :: "('u, 'h) WRRLoadBalancer \<Rightarrow> int list" where
  "tcp_weights b \<equiv> map weight (servers b)"

definition tcp_inv :: "('u, 'h) WRRLoadBalancer \<Rightarrow> bool" where
  "tcp_inv b \<longleftrightarrow> weights_ok (tcp_weights b) \<and> state_ok (tcp_weights b) (index b, currentWeight b)"

text \<open>Adding a server and health reports keep the state of the walk sound.\<close>

lemma state_ok_snoc: "state_ok ws s \<Longrightarrow> state_ok (ws @ [w]) s"
  by (auto simp: state_ok_def maxWeight_def)

lemma tcp_inv_Add: "tcp_inv b \<Longrightarrow> 0 \<le> w \<Longrightarrow> w < 2 ^ 63 \<Longrightarrow> tcp_inv (Add nm hdl (Some w) b)"
  using state_ok_snoc [of "tcp_weights b" "(index b, currentWeight b)" w]
  by (auto simp: tcp_inv_def Add_def weights_ok_def)

lemma tcp_inv_SetStatus: "tcp_inv b \<Longrightarrow> tcp_inv (fst (SetStatus c s b))"
  by (simp add: tcp_inv_def SetStatus_def setStatus_def Let_def)

lemma nextServer_walk:
  assumes "weights_ok (tcp_weights b)" "status b \<noteq> {}"
  shows "nextServer b = map_option (\<lambda>(i, idx, cw). (Ok i, b\<lparr>index := idx, currentWeight := cw\<rparr>))
    (walks (eligible b) (tcp_weights b) (index b, currentWeight b))"
proof -
  have "servers b \<noteq> []" "maxWeight (tcp_weights b) \<noteq> 0"
    using assms(1) maxWeight_ok(1) [OF assms(1)] by (auto simp: weights_ok_def)
  then show ?thesis using assms(2) by (simp add: nextServer_def Let_def)
qed

text \<open>
  C21. A TCP balancer finds a server whenever it can. For weights that are not negative, in every state of the walk,
  if some server is up and has a positive weight then \<open>nextServer\<close> returns, with a server
  that is up and has a positive weight, and the state of the walk is sound again.
\<close>

theorem tcp_returns:
  assumes "tcp_inv b" "k < length (servers b)" "sname (servers b ! k) \<in> status b" "0 < weight (servers b ! k)"
  shows "\<exists>i b'. nextServer b = Some (Ok i, b') \<and> i < length (servers b) \<and> sname (servers b ! i) \<in> status b \<and>
    0 < weight (servers b ! i) \<and> tcp_inv b'"
proof -
  have ok: "weights_ok (tcp_weights b)" "state_ok (tcp_weights b) (index b, currentWeight b)"
    using assms(1) by (simp_all add: tcp_inv_def)
  obtain i s' where w: "walks (eligible b) (tcp_weights b) (index b, currentWeight b) = Some (i, s')"
    using walk_returns [OF ok, of k "eligible b"] assms(2-4) by (auto simp: eligible_def)
  obtain idx cw where s': "s' = (idx, cw)" by (cases s')
  have "nextServer b = Some (Ok i, b\<lparr>index := idx, currentWeight := cw\<rparr>)"
    using nextServer_walk [OF ok(1)] assms(3) w s' by auto
  then show ?thesis
    using walk_result [OF w ok] ok(1) s' by (auto simp: eligible_def tcp_inv_def)
qed

definition demo_tcp :: "(unit, char) WRRLoadBalancer" where
  "demo_tcp = Add ''b'' CHR ''b'' (Some 2) (Add ''a'' CHR ''a'' (Some 4) (NewWRRLoadBalancer True))"

lemma demo_tcp_values:
  "servers demo_tcp = [\<lparr>handler = CHR ''a'', sname = ''a'', weight = 4\<rparr>, \<lparr>handler = CHR ''b'', sname = ''b'', weight = 2\<rparr>]"
  "status demo_tcp = {''a'', ''b''}" "index demo_tcp = - 1" "currentWeight demo_tcp = 0" "tcp_inv demo_tcp"
  by (auto simp: demo_tcp_def Add_def NewWRRLoadBalancer_def tcp_inv_def weights_ok_def state_ok_def)

theorem tcp_returns_witness: "\<exists>i b'. nextServer demo_tcp = Some (Ok i, b')"
  using tcp_returns [of demo_tcp 0] by (auto simp: demo_tcp_values)

text \<open>
  A TCP balancer may never return from \<open>nextServer\<close>. The maximum is taken over all servers, also those that
  are down: if some server has a positive weight but none of those that are up has, neither of the
  error exits is taken and no turn of the loop selects a server.
\<close>

theorem tcp_hangs:
  assumes "tcp_inv b" "status b \<noteq> {}" "list_all (\<lambda>s. sname s \<in> status b \<longrightarrow> weight s \<le> 0) (servers b)"
  shows "nextServer b = None"
proof (cases "walks (eligible b) (tcp_weights b) (index b, currentWeight b)")
  case None
  then show ?thesis using nextServer_walk [of b] assms(1,2) by (simp add: tcp_inv_def)
next
  case (Some r)
  have "fst r < length (servers b) \<and> eligible b (fst r) (snd (snd r)) \<and> 0 < snd (snd r)"
    using walk_result [OF Some] assms(1) by (simp add: tcp_inv_def)
  then show ?thesis
    using assms(3) by (auto simp: eligible_def list_all_length)
qed

definition demo_drained :: "(unit, char) WRRLoadBalancer" where
  "demo_drained = fst (SetStatus ''a'' False (Add ''b'' CHR ''b'' (Some 0) (Add ''a'' CHR ''a'' (Some 1) (NewWRRLoadBalancer True))))"

theorem tcp_hangs_witness: "nextServer demo_drained = None"
  by (rule tcp_hangs)
    (auto simp: demo_drained_def SetStatus_def setStatus_def Add_def NewWRRLoadBalancer_def Let_def tcp_inv_def
      weights_ok_def state_ok_def)

text \<open>Calls of \<open>nextServer\<close> in a row, with the servers they return.\<close>

fun tcp_calls :: "nat \<Rightarrow> ('u, 'h) WRRLoadBalancer \<Rightarrow> (nat list \<times> ('u, 'h) WRRLoadBalancer) option" where
  "tcp_calls 0 b = Some ([], b)"
| "tcp_calls (Suc n) b =
     (case nextServer b of Some (Ok i, b') \<Rightarrow> map_option (\<lambda>(is, b''). (i # is, b'')) (tcp_calls n b') | _ \<Rightarrow> None)"

lemma tcp_calls_picks:
  assumes "weights_ok (tcp_weights b)" "status b \<noteq> {}" "picks (eligible b) (tcp_weights b) n (index b, currentWeight b) = Some (is, s')"
  shows "\<exists>b'. tcp_calls n b = Some (is, b')"
  using assms
proof (induction n arbitrary: b "is")
  case (Suc n)
  obtain i idx cw js where w: "walks (eligible b) (tcp_weights b) (index b, currentWeight b) = Some (i, idx, cw)"
    "picks (eligible b) (tcp_weights b) n (idx, cw) = Some (js, s')" "is = i # js"
    using Suc.prems(3) by (auto split: option.splits prod.splits)
  have nx: "nextServer b = Some (Ok i, b\<lparr>index := idx, currentWeight := cw\<rparr>)"
    using nextServer_walk [OF Suc.prems(1,2)] w(1) by simp
  have "eligible (b\<lparr>index := idx, currentWeight := cw\<rparr>) = eligible b"
    by (simp add: eligible_def fun_eq_iff)
  then show ?case
    using Suc.IH [of "b\<lparr>index := idx, currentWeight := cw\<rparr>" js] Suc.prems(1,2) w nx by auto
qed simp

text \<open>
  C23. A TCP balancer distributes connections exactly by weight. From a new balancer, with any servers
  of which some have been reported down and one of those that are up has a positive weight, take as many
  connections as \<open>k\<close> times the sum of the weights of the servers that are up, divided by the
  greatest common divisor of all weights: the calls return, and each server that is up gets exactly
  \<open>k\<close> times its weight divided by the divisor, each other server none.
\<close>

theorem tcp_rounds:
  assumes "weights_ok (tcp_weights b)" "status b \<noteq> {}" "index b = - 1" "currentWeight b = 0"
    and "g = Gcd (set (tcp_weights b))"
    and "N = k * (\<Sum>i < length (servers b). if sname (servers b ! i) \<in> status b then nat (weight (servers b ! i) div g) else 0)"
  shows "\<exists>is b'. tcp_calls N b = Some (is, b') \<and> (\<forall>i < length (servers b). count_list is i =
    (if sname (servers b ! i) \<in> status b then k * nat (weight (servers b ! i) div g) else 0))"
proof -
  let ?ws = "tcp_weights b" and ?up = "\<lambda>i. sname (servers b ! i) \<in> status b"
  have g: "weightGcd ?ws = g" using weightGcd_ok(1) [OF assms(1)] assms(5) by simp
  have "state_ok ?ws (- 1, 0)" by (simp add: state_ok_def)
  then have st: "step ?ws (index b, currentWeight b) = (0, maxWeight ?ws)"
    using step_next_row [OF assms(1), of "- 1" 0] weightGcd_ok(2) [OF assms(1)] assms(3,4) by simp
  have N: "N = k * (\<Sum>i < length ?ws. if ?up i then nat (?ws ! i div weightGcd ?ws) else 0)"
    unfolding assms(6) g by (auto intro!: sum.cong)
  obtain "is" s' where p: "picks (eligible b) ?ws N (index b, currentWeight b) = Some (is, s')"
    "\<forall>i < length ?ws. count_list is i = (if ?up i then k * nat (?ws ! i div weightGcd ?ws) else 0)"
    using rounds_fair [OF assms(1) st N, of "eligible b"] by (auto simp: eligible_def)
  from tcp_calls_picks [OF assms(1,2) this(1)] show ?thesis
    using p(2) g by auto
qed

theorem tcp_rounds_witness:
  "\<exists>is b'. tcp_calls 3 demo_tcp = Some (is, b') \<and> count_list is 0 = 2 \<and> count_list is 1 = 1"
proof -
  have "weights_ok (tcp_weights demo_tcp)" "status demo_tcp \<noteq> {}" "Gcd (set (tcp_weights demo_tcp)) = 2"
    using demo_tcp_values(5) by (simp_all add: tcp_inv_def demo_tcp_values)
  moreover have "3 = 1 * (\<Sum>i < length (servers demo_tcp). if sname (servers demo_tcp ! i) \<in> status demo_tcp
      then nat (weight (servers demo_tcp ! i) div 2) else 0)"
    by (simp add: demo_tcp_values lessThan_Suc)
  ultimately obtain "is" b' where r: "tcp_calls 3 demo_tcp = Some (is, b')" "\<forall>i < length (servers demo_tcp). count_list is i =
      (if sname (servers demo_tcp ! i) \<in> status demo_tcp then 1 * nat (weight (servers demo_tcp ! i) div 2) else 0)"
    using tcp_rounds [of demo_tcp 2 3 1] demo_tcp_values(3,4) by metis
  then show ?thesis
    using r(2) [rule_format, of 0] r(2) [rule_format, of 1] by (simp add: demo_tcp_values)
qed

interpretation tcp_status: status_tracker SetStatus status updaters
  unfolding SetStatus_def by (rule children.status_tracker_axioms)

subsection \<open>Properties of the UDP balancer\<close>

abbreviation udp_weights :: "'h udpBalancer \<Rightarrow> int list" where
  "udp_weights b \<equiv> map udpWeight (udpServers b)"

lemma udp_next_walk:
  assumes "weights_ok (udp_weights b)"
  shows "udp_next b = map_option (\<lambda>(i, idx, cw). (Ok i, b\<lparr>udpIndex := idx, udpCurrentWeight := cw\<rparr>))
    (walks (\<lambda>i c. udpWeight (udpServers b ! i) \<ge> c) (udp_weights b) (udpIndex b, udpCurrentWeight b))"
proof -
  have "udpServers b \<noteq> []" "maxWeight (udp_weights b) \<noteq> 0"
    using assms maxWeight_ok(1) [OF assms] by (auto simp: weights_ok_def)
  then show ?thesis by (simp add: udp_next_def Let_def)
qed

fun udp_calls :: "nat \<Rightarrow> 'h udpBalancer \<Rightarrow> (nat list \<times> 'h udpBalancer) option" where
  "udp_calls 0 b = Some ([], b)"
| "udp_calls (Suc n) b =
     (case udp_next b of Some (Ok i, b') \<Rightarrow> map_option (\<lambda>(is, b''). (i # is, b'')) (udp_calls n b') | _ \<Rightarrow> None)"

lemma udp_calls_picks:
  assumes "weights_ok (udp_weights b)"
    "picks (\<lambda>i c. udpWeight (udpServers b ! i) \<ge> c) (udp_weights b) n (udpIndex b, udpCurrentWeight b) = Some (is, s')"
  shows "\<exists>b'. udp_calls n b = Some (is, b')"
  using assms
proof (induction n arbitrary: b "is")
  case (Suc n)
  let ?ok = "\<lambda>i c. udpWeight (udpServers b ! i) \<ge> c"
  obtain i idx cw js where w: "walks ?ok (udp_weights b) (udpIndex b, udpCurrentWeight b) = Some (i, idx, cw)"
    "picks ?ok (udp_weights b) n (idx, cw) = Some (js, s')" "is = i # js"
    using Suc.prems(2) by (auto split: option.splits prod.splits)
  have "udp_next b = Some (Ok i, b\<lparr>udpIndex := idx, udpCurrentWeight := cw\<rparr>)"
    using udp_next_walk [OF Suc.prems(1)] w(1) by simp
  then show ?case
    using Suc.IH [of "b\<lparr>udpIndex := idx, udpCurrentWeight := cw\<rparr>" js] Suc.prems(1) w by auto
qed simp

text \<open>
  A UDP balancer distributes sessions exactly by weight. From a new balancer with servers whose weights are not
  negative and not all zero, \<open>k\<close> times the sum of the weights divided by their greatest common
  divisor calls all return, and each server gets exactly \<open>k\<close> times its weight divided by the divisor.
\<close>

theorem udp_rounds:
  assumes "weights_ok (udp_weights b)" "udpIndex b = - 1" "udpCurrentWeight b = 0"
    and "g = Gcd (set (udp_weights b))" "N = k * (\<Sum>i < length (udpServers b). nat (udpWeight (udpServers b ! i) div g))"
  shows "\<exists>is b'. udp_calls N b = Some (is, b') \<and>
    (\<forall>i < length (udpServers b). count_list is i = k * nat (udpWeight (udpServers b ! i) div g))"
proof -
  let ?ws = "udp_weights b"
  have g: "weightGcd ?ws = g" using weightGcd_ok(1) [OF assms(1)] assms(4) by simp
  have "state_ok ?ws (- 1, 0)" by (simp add: state_ok_def)
  then have st: "step ?ws (udpIndex b, udpCurrentWeight b) = (0, maxWeight ?ws)"
    using step_next_row [OF assms(1), of "- 1" 0] weightGcd_ok(2) [OF assms(1)] assms(2,3) by simp
  have N: "N = k * (\<Sum>i < length ?ws. if True then nat (?ws ! i div weightGcd ?ws) else 0)"
    unfolding assms(5) g by (auto intro!: sum.cong)
  obtain "is" s' where p: "picks (\<lambda>i c. udpWeight (udpServers b ! i) \<ge> c) ?ws N (udpIndex b, udpCurrentWeight b) = Some (is, s')"
    "\<forall>i < length ?ws. count_list is i = k * nat (?ws ! i div weightGcd ?ws)"
    using rounds_fair [OF assms(1) st N, of "\<lambda>i c. udpWeight (udpServers b ! i) \<ge> c"] by auto
  from udp_calls_picks [OF assms(1) this(1)] show ?thesis
    using p(2) g by auto
qed

definition demo_udp :: "nat udpBalancer" where
  "demo_udp = AddWeightedServer 2 (Some 3) (AddUdpServer 1 NewUdp)"

theorem udp_rounds_witness: "\<exists>is b'. udp_calls 4 demo_udp = Some (is, b') \<and> count_list is 0 = 1 \<and> count_list is 1 = 3"
proof -
  have v: "udpServers demo_udp = [\<lparr>udpHandler = 1, udpWeight = 1\<rparr>, \<lparr>udpHandler = 2, udpWeight = 3\<rparr>]"
    "udpIndex demo_udp = - 1" "udpCurrentWeight demo_udp = 0"
    by (simp_all add: demo_udp_def AddUdpServer_def AddWeightedServer_def NewUdp_def)
  then have "weights_ok (udp_weights demo_udp)" "Gcd (set (udp_weights demo_udp)) = 1"
    by (simp_all add: weights_ok_def)
  moreover have "4 = 1 * (\<Sum>i < length (udpServers demo_udp). nat (udpWeight (udpServers demo_udp ! i) div 1))"
    by (simp add: v lessThan_Suc)
  ultimately obtain "is" b' where r: "udp_calls 4 demo_udp = Some (is, b')"
    "\<forall>i < length (udpServers demo_udp). count_list is i = 1 * nat (udpWeight (udpServers demo_udp ! i) div 1)"
    using udp_rounds [of demo_udp 1 4 1] v(2,3) by metis
  then show ?thesis
    using r(2) [rule_format, of 0] r(2) [rule_format, of 1] by (simp add: v)
qed

end
