(* ===== verification/Mirror.thy ===== *)
theory Mirror
  imports Prelude "HOL-Library.Word"
begin

section \<open>Mirroring (\<open>pkg/server/service/loadbalancer/mirror\<close>)\<close>

text \<open>
  A mirroring service serves each request by its main handler and sends copies to a share of
  its mirrors. Modelled: the reusable request, which keeps the body in memory, the counters that
  decide on the share, and \<open>ServeHTTP\<close>, as the requests that it hands out. Requests consist of a part that is
  only passed on, the body and the announced length. A body is what a reader yields: its bytes, and then
  the end of the file or an error. The limit that memory sets to \<open>make\<close> is not modelled.
\<close>

subsection \<open>Readers\<close>

record reader =
  bytes :: string
  failure :: "string option"

text \<open>\<open>io.ReadAll\<close>.\<close>

definition ReadAll :: "reader \<Rightarrow> string outcome" where
  "ReadAll r = (case failure r of None \<Rightarrow> Ok (bytes r) | Some e \<Rightarrow> Err e)"

datatype readErr = EOF | ErrUnexpectedEOF | Other string

text \<open>\<open>io.ReadFull\<close> into a buffer of \<open>n\<close> bytes: the bytes read, the error, and what is left in the reader.\<close>

definition ReadFull :: "nat \<Rightarrow> reader \<Rightarrow> string \<times> readErr option \<times> reader" where
  "ReadFull n r =
     (if n \<le> length (bytes r) then (take n (bytes r), None, r\<lparr>bytes := drop n (bytes r)\<rparr>)
      else (bytes r,
            Some (case failure r of Some e \<Rightarrow> Other e | None \<Rightarrow> if bytes r = [] then EOF else ErrUnexpectedEOF),
            r\<lparr>bytes := []\<rparr>))"

subsection \<open>Reusable requests\<close>

record 'm inRequest =
  meta :: 'm
  Body :: "reader option"
  ContentLength :: int

record 'm ReusableRequest =
  rr_req :: "'m inRequest"
  rr_body :: "string option"

text \<open>
  The error \<open>ErrBodyTooLarge\<close> comes with the bytes already read; the reader keeps the rest.
  The largest limit overflows in \<open>maxBodySize+1\<close>, and \<open>make\<close> panics.
\<close>

datatype 'm reuse =
    Reusable "'m ReusableRequest"
  | BodyTooLarge string reader
  | ReadFailed readErr
  | MakePanic

definition NewReusableRequest :: "'m inRequest \<Rightarrow> int \<Rightarrow> 'm reuse" where
  "NewReusableRequest req maxBodySize =
     (case Body req of
        None \<Rightarrow> Reusable \<lparr>rr_req = req, rr_body = None\<rparr>
      | Some r \<Rightarrow>
          if ContentLength req = 0 then Reusable \<lparr>rr_req = req, rr_body = None\<rparr>
          else if maxBodySize < 0 then
            (case ReadAll r of
               Ok b \<Rightarrow> Reusable \<lparr>rr_req = req, rr_body = Some b\<rparr>
             | Err e \<Rightarrow> ReadFailed (Other e)
             | Panic \<Rightarrow> MakePanic)
          else if maxBodySize + 1 \<ge> 2 ^ 63 then MakePanic
          else
            (case ReadFull (nat (maxBodySize + 1)) r of
               (b, Some ErrUnexpectedEOF, _) \<Rightarrow> Reusable \<lparr>rr_req = req, rr_body = Some b\<rparr>
             | (b, Some e, _) \<Rightarrow> ReadFailed e
             | (b, None, rest) \<Rightarrow> BodyTooLarge b rest))"

definition Clone :: "'m ReusableRequest \<Rightarrow> 'm inRequest" where
  "Clone rr =
     (case rr_body rr of
        None \<Rightarrow> rr_req rr
      | Some b \<Rightarrow> (rr_req rr)\<lparr>Body := Some \<lparr>bytes = b, failure = None\<rparr>\<rparr>)"

subsection \<open>Mirrors\<close>

record 'h mirrorHandler =
  handler :: 'h
  percent :: int
  count :: "64 word"

record 'h Mirroring =
  main :: 'h
  mirrorHandlers :: "'h mirrorHandler list"
  mirrorBody :: bool
  maxBodySize :: int
  wantsHealthCheck :: bool
  total :: "64 word"

definition New :: "'h \<Rightarrow> bool \<Rightarrow> int \<Rightarrow> bool \<Rightarrow> 'h Mirroring" where
  "New hdl mb maxSize hc =
     \<lparr>main = hdl, mirrorHandlers = [], mirrorBody = mb, maxBodySize = maxSize, wantsHealthCheck = hc, total = 0\<rparr>"

definition AddMirror :: "'h \<Rightarrow> int \<Rightarrow> 'h Mirroring \<Rightarrow> 'h Mirroring outcome" where
  "AddMirror hdl p m =
     (if p < 0 \<or> p > 100 then Err ''percent must be between 0 and 100''
      else Ok (m\<lparr>mirrorHandlers := mirrorHandlers m @ [\<lparr>handler = hdl, percent = p, count = 0\<rparr>]\<rparr>))"

text \<open>The hook goes to the main handler, if that has one (\<open>healthcheck.StatusUpdater\<close>).\<close>

definition RegisterStatusUpdater :: "('h \<Rightarrow> ('u \<Rightarrow> 'h outcome) option) \<Rightarrow> 'u \<Rightarrow> 'h Mirroring \<Rightarrow> 'h Mirroring outcome" where
  "RegisterStatusUpdater updater fn m =
     (if \<not> wantsHealthCheck m then Err ''healthCheck not enabled in config for this mirroring service''
      else case updater (main m) of
        None \<Rightarrow> Err ''service of mirroring not a healthcheck.StatusUpdater''
      | Some register \<Rightarrow>
          (case register fn of
             Ok h \<Rightarrow> Ok (m\<lparr>main := h\<rparr>)
           | Err e \<Rightarrow> Err (''cannot register service of mirroring as updater: '' @ e)
           | Panic \<Rightarrow> Panic))"

text \<open>Active mirrors are given by their positions.\<close>

definition active :: "64 word \<Rightarrow> 'h mirrorHandler \<Rightarrow> bool" where
  "active tot h \<longleftrightarrow> count h * 100 < tot * word_of_int (percent h)"

definition getActiveMirrors :: "'h Mirroring \<Rightarrow> nat list \<times> 'h Mirroring" where
  "getActiveMirrors m =
     (let tot = total m + 1 in
      (filter (\<lambda>i. active tot (mirrorHandlers m ! i)) [0..<length (mirrorHandlers m)],
       m\<lparr>total := tot,
         mirrorHandlers := map (\<lambda>h. if active tot h then h\<lparr>count := count h + 1\<rparr> else h) (mirrorHandlers m)\<rparr>))"

text \<open>
  What a request comes to: the request given to the main handler and those given to mirrors
  afterwards, or an error answer. Without \<open>mirrorBody\<close> the clones share the reader of the body, whatever the
  main handler has left in it. \<open>canceled\<close> tells whether the client has gone when the main
  handler is done.
\<close>

datatype 'm mirrored = Served "'m inRequest" "(nat \<times> 'm inRequest) list" | InternalError | Crash

definition ServeHTTP :: "bool \<Rightarrow> 'm inRequest \<Rightarrow> 'h Mirroring \<Rightarrow> 'm mirrored \<times> 'h Mirroring" where
  "ServeHTTP canceled req m =
     (let (mirrors, m') = getActiveMirrors m;
          copies = (\<lambda>c. Served c (if canceled then [] else map (\<lambda>i. (i, c)) mirrors))
      in (if mirrors = [] then Served req []
          else if \<not> mirrorBody m' then copies req
          else case NewReusableRequest req (maxBodySize m') of
                 Reusable rr \<Rightarrow> copies (Clone rr)
               | BodyTooLarge b rest \<Rightarrow> Served (req\<lparr>Body := Some (rest\<lparr>bytes := b @ bytes rest\<rparr>)\<rparr>) []
               | ReadFailed _ \<Rightarrow> InternalError
               | MakePanic \<Rightarrow> Crash, m'))"

subsection \<open>The body is complete\<close>


definition demo_mirror :: "nat Mirroring" where
  "demo_mirror = (New 0 True 8 False)\<lparr>mirrorHandlers := [\<lparr>handler = 1, percent = 100, count = 0\<rparr>]\<rparr>"

definition demo_post :: "unit inRequest" where
  "demo_post = \<lparr>meta = (), Body = Some \<lparr>bytes = ''data'', failure = None\<rparr>, ContentLength = - 1\<rparr>"


text \<open>
  An empty body of unknown length is refused. A request that announces no length and then sends
  no bytes makes the read of the body report the end of the file, which is not the error that is
  taken for a short body: the request is answered by an internal error, and the main handler never gets it.
\<close>

theorem mirror_empty_body:
  assumes "Body req = Some \<lparr>bytes = [], failure = None\<rparr>" "ContentLength req \<noteq> 0"
    and "mirrorBody m" "0 \<le> maxBodySize m" "maxBodySize m < 2 ^ 63 - 1" "fst (getActiveMirrors m) \<noteq> []"
  shows "fst (ServeHTTP canceled req m) = InternalError"
  using assms by (auto simp: ServeHTTP_def getActiveMirrors_def Let_def NewReusableRequest_def ReadFull_def)

theorem mirror_empty_body_witness:
  "fst (ServeHTTP False (demo_post\<lparr>Body := Some \<lparr>bytes = [], failure = None\<rparr>\<rparr>) demo_mirror) = InternalError"
  by (rule mirror_empty_body)
    (simp_all add: demo_post_def demo_mirror_def New_def getActiveMirrors_def active_def Let_def)

subsection \<open>The share of the mirrors\<close>






definition fresh :: "'h Mirroring \<Rightarrow> bool" where
  "fresh m \<longleftrightarrow> total m = 0 \<and> (\<forall>h \<in> set (mirrorHandlers m). count h = 0 \<and> 0 \<le> percent h \<and> percent h \<le> 100)"

lemma fresh_New: "fresh (New hdl mb maxSize hc)"
  by (simp add: fresh_def New_def)

lemma fresh_AddMirror: "fresh m \<Longrightarrow> AddMirror hdl p m = Ok m' \<Longrightarrow> fresh m'"
  by (auto simp: fresh_def AddMirror_def split: if_splits)




end
