(* ===== verification/Failover.thy ===== *)
theory Failover
  imports Mirror
begin

section \<open>Failover (\<open>pkg/server/service/loadbalancer/failover\<close>)\<close>

text \<open>
  A failover service sends requests to its main handler, and to a fallback when the main handler is
  down or answers with one of the configured status codes. All operations are modelled, with the
  response writer that holds back the main handler's answer and the parsing of the ranges of codes
  (\<open>pkg/types/http_code_range.go\<close>). A handler is the sequence of calls that it makes on its response
  writer; the client's side is the writer of \<open>net/http\<close>, with its rules for implicit headers. Header fields
  are a function from canonical names to values, so that the order of fields is not modelled.
\<close>

subsection \<open>Ranges of status codes\<close>

text \<open>\<open>strconv.Atoi\<close>; the texts of its errors are left out.\<close>

definition is_digit :: "char \<Rightarrow> bool" where
  "is_digit c \<longleftrightarrow> 48 \<le> code_of c \<and> code_of c \<le> 57"

definition Atoi :: "string \<Rightarrow> int option" where
  "Atoi s =
     (let neg = (s \<noteq> [] \<and> hd s = CHR ''-'');
          ds = (if s \<noteq> [] \<and> (hd s = CHR ''-'' \<or> hd s = CHR ''+'') then tl s else s);
          n = foldl (\<lambda>v c. 10 * v + int (code_of c) - 48) 0 ds;
          v = (if neg then - n else n)
      in if ds = [] \<or> \<not> list_all is_digit ds \<or> v < - (2 ^ 63) \<or> v \<ge> 2 ^ 63 then None else Some v)"

type_synonym HTTPCodeRanges = "(int \<times> int) list"

fun NewHTTPCodeRanges :: "string list \<Rightarrow> HTTPCodeRanges outcome" where
  "NewHTTPCodeRanges [] = Ok []"
| "NewHTTPCodeRanges (block # blocks) =
     (let codes = Split block (CHR ''-'');
          codes = (if length codes = 1 then codes @ [codes ! 0] else codes)
      in case (Atoi (codes ! 0), Atoi (codes ! 1)) of
           (Some lowCode, Some highCode) \<Rightarrow>
             bind_outcome (NewHTTPCodeRanges blocks) (\<lambda>rest. Ok ((lowCode, highCode) # rest))
         | _ \<Rightarrow> Err ''strconv.Atoi'')"

definition Contains :: "HTTPCodeRanges \<Rightarrow> int \<Rightarrow> bool" where
  "Contains h statusCode \<longleftrightarrow> list_ex (\<lambda>(lo, hi). statusCode \<ge> lo \<and> statusCode \<le> hi) h"

subsection \<open>Response writers\<close>

type_synonym headers = "string \<Rightarrow> string list"

datatype call =
    HeaderAdd string string
  | HeaderSet string string
  | HeaderDel string
  | WriteHeader int
  | Write string
  | Flush
  | Hijack

text \<open>
  The writer of the client. The first final status is sent with the header fields of that moment, and is 200
  when the body comes first or the writer is flushed; codes from 100 to 199 but 101 are
  informational.
\<close>

record client =
  cfields :: headers
  sent :: "(int \<times> headers) option"
  body :: string
  hijacked :: bool

definition informational :: "int \<Rightarrow> bool" where
  "informational c \<longleftrightarrow> 100 \<le> c \<and> c \<le> 199 \<and> c \<noteq> 101"

definition commit :: "int \<Rightarrow> client \<Rightarrow> client" where
  "commit c w = (case sent w of None \<Rightarrow> w\<lparr>sent := Some (c, cfields w)\<rparr> | Some _ \<Rightarrow> w)"

fun client_call :: "call \<Rightarrow> client \<Rightarrow> client" where
  "client_call (HeaderAdd k v) w = w\<lparr>cfields := (cfields w)(k := cfields w k @ [v])\<rparr>"
| "client_call (HeaderSet k v) w = w\<lparr>cfields := (cfields w)(k := [v])\<rparr>"
| "client_call (HeaderDel k) w = w\<lparr>cfields := (cfields w)(k := [])\<rparr>"
| "client_call (WriteHeader c) w = (if informational c then w else commit c w)"
| "client_call (Write s) w = (let w' = commit 200 w in w'\<lparr>body := body w' @ s\<rparr>)"
| "client_call Flush w = commit 200 w"
| "client_call Hijack w = w\<lparr>hijacked := True\<rparr>"

record responseWriter =
  needFallback :: bool
  written :: bool
  header :: headers

definition rw_WriteHeader :: "HTTPCodeRanges \<Rightarrow> int \<Rightarrow> responseWriter \<times> client \<Rightarrow> responseWriter \<times> client" where
  "rw_WriteHeader ranges statusCode s =
     (let (r, w) = s in
      if 100 \<le> statusCode \<and> statusCode \<le> 199 \<and> statusCode \<noteq> 101 then (r\<lparr>header := (\<lambda>_. [])\<rparr>, w)
      else if written r then (r, w)
      else let r' = r\<lparr>written := True, needFallback := Contains ranges statusCode\<rparr> in
           if needFallback r' then (r', w)
           else (r', client_call (WriteHeader statusCode) (w\<lparr>cfields := (\<lambda>k. cfields w k @ header r' k)\<rparr>)))"

definition rw_Write :: "HTTPCodeRanges \<Rightarrow> string \<Rightarrow> responseWriter \<times> client \<Rightarrow> responseWriter \<times> client" where
  "rw_Write ranges b s =
     (let (r, w) = (if \<not> written (fst s) then rw_WriteHeader ranges 200 s else s) in
      if needFallback r then (r, w) else (r, client_call (Write b) w))"

fun rw_call :: "HTTPCodeRanges \<Rightarrow> call \<Rightarrow> responseWriter \<times> client \<Rightarrow> responseWriter \<times> client" where
  "rw_call ranges (HeaderAdd k v) (r, w) = (r\<lparr>header := (header r)(k := header r k @ [v])\<rparr>, w)"
| "rw_call ranges (HeaderSet k v) (r, w) = (r\<lparr>header := (header r)(k := [v])\<rparr>, w)"
| "rw_call ranges (HeaderDel k) (r, w) = (r\<lparr>header := (header r)(k := [])\<rparr>, w)"
| "rw_call ranges (WriteHeader c) s = rw_WriteHeader ranges c s"
| "rw_call ranges (Write b) s = rw_Write ranges b s"
| "rw_call ranges Flush (r, w) = (r, client_call Flush w)"
| "rw_call ranges Hijack (r, w) = (r, client_call Hijack w)"

definition new_writer :: responseWriter where
  "new_writer = \<lparr>needFallback = False, written = False, header = (\<lambda>_. [])\<rparr>"

subsection \<open>The service\<close>

record errorsConfig =
  Status :: "string list"
  MaxRequestBodyBytes :: "int option"

record failoverConfig =
  HealthCheck :: bool
  Errors :: "errorsConfig option"

type_synonym 'm handlerFunc = "'m inRequest \<Rightarrow> call list"

record ('u, 'm) Failover =
  wantsHealthCheck :: bool
  handler :: "'m handlerFunc option"
  fallbackHandler :: "'m handlerFunc option"
  updaters :: "'u list"
  handlerStatus :: bool
  fallbackStatus :: bool
  statusCode :: HTTPCodeRanges
  maxRequestBodyBytes :: int

definition New :: "failoverConfig \<Rightarrow> ('u, 'm) Failover outcome" where
  "New config =
     (let f = \<lparr>wantsHealthCheck = HealthCheck config, handler = None, fallbackHandler = None, updaters = [],
               handlerStatus = False, fallbackStatus = False, statusCode = [], maxRequestBodyBytes = 0\<rparr>
      in case Errors config of
           None \<Rightarrow> Ok f
         | Some e \<Rightarrow>
             let size = (case MaxRequestBodyBytes e of None \<Rightarrow> - 1 | Some n \<Rightarrow> n) in
             if length (Status e) > 0
             then (case NewHTTPCodeRanges (Status e) of
                     Ok ranges \<Rightarrow> Ok (f\<lparr>statusCode := ranges, maxRequestBodyBytes := size\<rparr>)
                   | Err m \<Rightarrow> Err (''creating HTTP code ranges: '' @ m)
                   | Panic \<Rightarrow> Panic)
             else Ok (f\<lparr>maxRequestBodyBytes := size\<rparr>))"

definition RegisterStatusUpdater :: "'u \<Rightarrow> ('u, 'm) Failover \<Rightarrow> ('u, 'm) Failover outcome" where
  "RegisterStatusUpdater fn f =
     (if \<not> wantsHealthCheck f then Err ''healthCheck not enabled in config for this failover service''
      else Ok (f\<lparr>updaters := updaters f @ [fn]\<rparr>))"

text \<open>\<open>http.Error\<close>.\<close>

definition http_Error :: "string \<Rightarrow> int \<Rightarrow> call list" where
  "http_Error msg code =
     [HeaderDel ''Content-Length'', HeaderSet ''Content-Type'' ''text/plain; charset=utf-8'',
      HeaderSet ''X-Content-Type-Options'' ''nosniff'', WriteHeader code, Write (msg @ [CHR 0x0A])]"

definition serve_fallback :: "('u, 'm) Failover \<Rightarrow> 'm inRequest \<Rightarrow> client \<Rightarrow> client outcome" where
  "serve_fallback f req w =
     (if fallbackStatus f
      then (case fallbackHandler f of None \<Rightarrow> Panic | Some h \<Rightarrow> Ok (fold client_call (h req) w))
      else Ok (fold client_call (http_Error ''Service Unavailable'' 503) w))"

definition ServeHTTP :: "('u, 'm) Failover \<Rightarrow> 'm inRequest \<Rightarrow> client \<Rightarrow> client outcome" where
  "ServeHTTP f req w =
     (if handlerStatus f
      then (if statusCode f = []
            then (case handler f of None \<Rightarrow> Panic | Some h \<Rightarrow> Ok (fold client_call (h req) w))
            else (case NewReusableRequest req (maxRequestBodyBytes f) of
                    ReadFailed _ \<Rightarrow> Ok (fold client_call (http_Error ''Internal Server Error'' 500) w)
                  | BodyTooLarge _ _ \<Rightarrow> Ok (fold client_call (http_Error ''Request body too large'' 413) w)
                  | MakePanic \<Rightarrow> Panic
                  | Reusable rr \<Rightarrow>
                      (case handler f of
                         None \<Rightarrow> Panic
                       | Some h \<Rightarrow>
                           let (r, w') = fold (rw_call (statusCode f)) (h (Clone rr)) (new_writer, w) in
                           if \<not> needFallback r then Ok w'
                           else serve_fallback f (Clone rr) w')))
      else serve_fallback f req w)"

definition SetHandler :: "'m handlerFunc \<Rightarrow> ('u, 'm) Failover \<Rightarrow> ('u, 'm) Failover" where
  "SetHandler h f = f\<lparr>handler := Some h, handlerStatus := True\<rparr>"

definition SetFallbackHandler :: "'m handlerFunc \<Rightarrow> ('u, 'm) Failover \<Rightarrow> ('u, 'm) Failover" where
  "SetFallbackHandler h f = f\<lparr>fallbackHandler := Some h, fallbackStatus := True\<rparr>"

definition SetHandlerStatus :: "bool \<Rightarrow> ('u, 'm) Failover \<Rightarrow> ('u, 'm) Failover \<times> ('u \<times> bool) list" where
  "SetHandlerStatus up f =
     (if up = handlerStatus f then (f, [])
      else let f' = f\<lparr>handlerStatus := up\<rparr> in
           (f', map (\<lambda>fn. (fn, handlerStatus f' \<or> fallbackStatus f')) (updaters f')))"

definition SetFallbackHandlerStatus :: "bool \<Rightarrow> ('u, 'm) Failover \<Rightarrow> ('u, 'm) Failover \<times> ('u \<times> bool) list" where
  "SetFallbackHandlerStatus up f =
     (if up = fallbackStatus f then (f, [])
      else let f' = f\<lparr>fallbackStatus := up\<rparr> in
           (f', map (\<lambda>fn. (fn, handlerStatus f' \<or> fallbackStatus f')) (updaters f')))"

subsection \<open>What the client sees\<close>


definition plain :: "call \<Rightarrow> bool" where
  "plain c \<longleftrightarrow> c \<noteq> Flush \<and> c \<noteq> Hijack"





definition demo_failover :: "(unit, unit) Failover" where
  "demo_failover = SetFallbackHandler (\<lambda>_. [WriteHeader 200, Write ''fallback''])
     (SetHandler (\<lambda>_. [WriteHeader 503, Write ''down''])
       \<lparr>wantsHealthCheck = False, handler = None, fallbackHandler = None, updaters = [], handlerStatus = False,
        fallbackStatus = False, statusCode = [(500, 599)], maxRequestBodyBytes = - 1\<rparr>)"

definition demo_get :: "unit inRequest" where
  "demo_get = \<lparr>meta = (), Body = None, ContentLength = 0\<rparr>"

definition demo_client :: client where
  "demo_client = \<lparr>cfields = (\<lambda>_. []), sent = None, body = [], hijacked = False\<rparr>"


subsection \<open>Transparency\<close>








text \<open>
  A flush of a failed answer reaches the client. The writer holds the answer back but passes a flush on, and
  a flush with nothing sent yet sends the status 200 without header fields: when the main handler
  settles on a configured code and flushes, the client gets 200, whatever the fallback answers.
\<close>

theorem failover_flush_leak:
  assumes "handlerStatus f" "handler f = Some (\<lambda>_. [WriteHeader c, Flush])" "fallbackStatus f" "fallbackHandler f = Some g"
    and "NewReusableRequest req (maxRequestBodyBytes f) = Reusable rr"
    and "\<not> informational c" "Contains (statusCode f) c" "sent w = None"
  shows "\<exists>w'. ServeHTTP f req w = Ok w' \<and> map_option fst (sent w') = Some 200"
proof -
  have keep: "sent w = Some x \<Longrightarrow> sent (fold client_call cs w) = Some x" for cs w x
  proof (induction cs arbitrary: w)
    case (Cons c cs)
    then have "sent (client_call c w) = Some x"
      by (cases c) (auto simp: commit_def Let_def split: option.splits)
    then show ?case using Cons.IH by simp
  qed simp
  have "statusCode f \<noteq> []" using assms(7) by (auto simp: Contains_def)
  moreover have "fold (rw_call (statusCode f)) [WriteHeader c, Flush] (new_writer, w) =
      (new_writer\<lparr>written := True, needFallback := True\<rparr>, commit 200 w)"
    using assms(6,7) by (auto simp: rw_WriteHeader_def informational_def new_writer_def)
  moreover have "sent (commit 200 w) = Some (200, cfields w)"
    using assms(8) by (simp add: commit_def)
  ultimately show ?thesis
    using assms(1-5) keep [of "commit 200 w"] by (simp add: ServeHTTP_def serve_fallback_def)
qed

theorem failover_flush_leak_witness:
  "\<exists>w'. ServeHTTP (SetFallbackHandler (\<lambda>_. [WriteHeader 404]) (SetHandler (\<lambda>_. [WriteHeader 503, Flush]) demo_failover)) demo_get demo_client = Ok w' \<and>
    map_option fst (sent w') = Some 200"
proof -
  let ?f = "SetFallbackHandler (\<lambda>_. [WriteHeader 404]) (SetHandler (\<lambda>_. [WriteHeader 503, Flush]) demo_failover)"
  have "NewReusableRequest demo_get (maxRequestBodyBytes ?f) = Reusable \<lparr>rr_req = demo_get, rr_body = None\<rparr>"
    by (simp add: NewReusableRequest_def demo_get_def)
  from failover_flush_leak [OF _ _ _ _ this, of 503 _ demo_client] show ?thesis
    by (simp add: demo_failover_def SetFallbackHandler_def SetHandler_def informational_def Contains_def demo_client_def)
qed

subsection \<open>Health\<close>

text \<open>The hooks are told, with each change of a part, whether one of the two parts is up.\<close>

lemma failover_reports:
  "(f', calls) = SetHandlerStatus up f \<or> (f', calls) = SetFallbackHandlerStatus up f \<Longrightarrow>
     updaters f' = updaters f \<and> (\<forall>c \<in> set calls. snd c \<longleftrightarrow> handlerStatus f' \<or> fallbackStatus f') \<and>
     (calls = [] \<longrightarrow> updaters f = [] \<or> f' = f)"
  by (auto simp: SetHandlerStatus_def SetFallbackHandlerStatus_def Let_def split: if_splits)

end
