(* ===== verification/Spec2Isabelle.thy ===== *)
theory Spec2Isabelle
  imports RouterBuild EntryPoint ConfigWatcher ProviderMerge PathMiddlewares IpAllowList HttpMuxer TcpMuxer HttpWrr P2C Hrw LeastTime TransportWrr Failover
begin

text \<open>
  Verification of the core of the ingress proxy: how a request or a connection finds its route, how a balancer finds the server, and
  how the configurations of the providers become routers. File and function names below are those under \<open>src/\<close>.

  \<^bold>\<open>The program.\<close> Providers deliver configurations; these are aggregated into one, whose routers are linked to a tree and built into
  the handlers of the entry points. An entry point normalises the path of a request and gives it to its muxer, which evaluates the rules of its
  routes in decreasing priority; the route leads through middlewares to nested routers and at last to a service: a balancer,
  a mirror or a failover over the servers. TCP connections are routed by a muxer of their own, and TCP and UDP have
  their own round robin.

  \<^bold>\<open>Theories, in the order of their imports.\<close>
  \<^item> \<open>Prelude\<close>: the collections of rules, the functions of the Go library on strings and slices, results (\<open>Ok\<close>, \<open>Err\<close>,
    \<open>Panic\<close>), generic lemmas. \<open>HttpTypes\<close>: requests, and the response writer of \<open>net/http\<close>.
  \<^item> \<open>Rules\<close> (\<open>pkg/rules/parser.go\<close>): trees of rules, with negations pushed to the leaves. The lemmas show that this keeps the meaning.
  \<^item> \<open>UrlPath\<close> (\<open>pkg/muxer/http/mux.go\<close>, \<open>pkg/server/server_entrypoint_tcp.go\<close>, \<open>pkg/server/router/deny.go\<close>,
    \<open>pkg/middlewares/encodedcharacters\<close>): the loops over percent-encoded paths. Shown: they agree on what a path means.
  \<^item> \<open>IpCheck\<close> (\<open>pkg/ip\<close>): lists of trusted addresses and the choice of the address of the client.
  \<^item> \<open>HttpMuxer\<close> (\<open>pkg/muxer/http\<close>), \<open>TcpMuxer\<close> (\<open>pkg/muxer/tcp\<close>): matchers, matcher trees, parsers, route tables, dispatch. Shown:
    a rule matches what it says, and the route chosen is an eligible one of the highest priority. A TCP matcher may
    write to a variable that it captured, so matching returns the new state.
  \<^item> \<open>BalancerStatus\<close>: the bookkeeping of children that are up, which all balancers repeat; its locales say what a balancer promises to
    its parents. \<open>GoHeap\<close>: \<open>container/heap\<close>, as an instance of a locale of priority queues. \<open>Hashes\<close>: FNV and SHA-256.
    \<open>Sticky\<close> (\<open>loadbalancer/sticky.go\<close>): cookies that name a server.
  \<^item> \<open>HttpWrr\<close>, \<open>P2C\<close>, \<open>Hrw\<close>, \<open>LeastTime\<close> (\<open>pkg/server/service/loadbalancer\<close>), \<open>TransportWrr\<close> (\<open>pkg/tcp\<close>, \<open>pkg/udp\<close>): the balancers.
    Shown: invariants of all reachable states, which server is chosen, fairness, return of the loops, and where they
    do not return.
  \<^item> \<open>Mirror\<close>, \<open>Failover\<close>: services that copy requests, or repeat them elsewhere.
  \<^item> \<open>RouterConfig\<close>, \<open>DynamicConfig\<close> (\<open>pkg/config\<close>): the data of routers and configurations. \<open>RouterTree\<close> (\<open>pkg/server/router/router.go\<close>):
    parents, cycles, unusable routers. \<open>Aggregator\<close> (\<open>pkg/server/aggregator.go\<close>): merging and the models of entry points.
    \<open>RouterBuild\<close> (\<open>pkg/server/router/router.go\<close>): handlers of nested routers, with the lemma
    that a service is only reached through the chain of its parents.
  \<^item> This theory: what holds of the aggregated configuration once it has become a tree of routers.

  \<^bold>\<open>Conventions.\<close> A struct is a record, the state of an object is passed and returned, an error is a value, a panic the value \<open>Panic\<close>.
  A Go map is an association list or a map; where code iterates over one, the order is that of the list or an argument, so what is
  proved holds for every order. Pointers into a slice that only grows are indexes. Third-party code and interfaces are arguments
  (predicate parser, regular expressions, address parsers, \<open>alice\<close>, source of random numbers, logarithm), with what
  is relied on as named hypotheses; each property with such a hypothesis has a witness. Locks are
  not modelled: an operation that the code runs under a lock is one step, and a request that spans several such sections is several steps.

  \<^bold>\<open>Bounds.\<close> Loops that need not end (\<open>nextServer\<close> of the round robin balancers) are partial functions, where \<^const>\<open>None\<close> is a call that does
  not return; that they return is a theorem of its own. The recursion of \<open>traverse\<close> is bounded by the number of routers plus one, that
  of \<open>buildRouterHandler\<close> by a number larger than the depth of the tree; both are proved to suffice. Counters and
  weights keep their width where the code can overflow (\<open>TransportWrr\<close>, \<open>Mirror\<close>); deadlines and averages of type
  \<open>float64\<close> are exact rationals.

  \<^bold>\<open>Not modelled.\<close> The providers, because they are clients of remote services and decode third-party types; generated deep copies, since the
  model's configurations are values; certificates and TLS, sockets, the proxies and health checks, which are input and output; logs, metrics and
  traces, which do not influence routing; plugins and the dashboard; the matchers of the v2 syntax of HTTP rules, which wrap
  a third-party router; middlewares that wrap third-party limiters, encoders and authenticators.
\<close>

section \<open>Properties across components\<close>

subsection \<open>From the aggregated configuration to the tree of routers\<close>

definition runtime_routers :: "(string, Router) gomap \<Rightarrow> routers" where
  "runtime_routers rs = (\<lambda>n. map_option NewRouterInfo (map_of rs n))"

lemma runtime_initial: "gomap_ok rs \<Longrightarrow> initial (runtime_routers rs) (map fst rs)"
  by (auto simp: initial_def runtime_routers_def ran_def dom_map_option_comp dom_map_of_conv_image_fst) force

text \<open>
  C17. A router whose parents do not exist is served on its own. When any entry point has a model, a router that names only missing parents,
  and on top of that has entry points, passes \<open>applyModel\<close> as a root router, and \<open>ParseRouterTree\<close> enables it without an error: it is served
  on these entry points without the middlewares of its parents and without those of the entry point. (Without
  any model the same router is disabled, with the error that its parent does not exist.)
\<close>

theorem orphan_served:
  assumes "HTTP cfg = Some h" "Models h \<noteq> []" "gomap_ok (Routers h)" "(n, rt) \<in> set (Routers h)" "ParentRefs rt = Some ps"
    and "\<forall>(n', rt') \<in> set (Routers h). n' \<noteq> n \<longrightarrow> n \<notin> targets (Models h) n' rt'"
    and "\<forall>ref \<in> set ps. \<forall>(n', rt') \<in> set (Routers h). n' \<noteq> ref \<and> ref \<notin> targets (Models h) n' rt'"
    and "Service rt \<noteq> []" "\<forall>(n', rt') \<in> set (Routers h). n \<notin> set (elems (ParentRefs rt'))"
  shows "\<exists>h' c' r. HTTP (applyModel cfg) = Some h' \<and> ParseRouterTree (map fst (Routers h')) order2 (runtime_routers (Routers h')) = Some c' \<and>
    c' n = Some r \<and> ParentRefs r = None \<and> Errs r = [] \<and> RouterInfo.Status r = StatusEnabled \<and> EntryPoints r = EntryPoints rt \<and>
    Middlewares r = Middlewares rt"
proof -
  obtain h' where h': "HTTP (applyModel cfg) = Some h'"
    using assms(1) by (simp add: applyModel_def)
  let ?r = "default_observability (rt\<lparr>ParentRefs := None\<rparr>)" and ?c = "runtime_routers (Routers h')"
  have r: "map_of (Routers h') n = Some ?r"
    by (rule orphan_relinked [OF assms(1-7) h'])
  have "\<forall>(n', rt') \<in> set (Routers h). ParentRefs rt' = None \<longrightarrow> n \<notin> targets (Models h) n' rt'"
  proof (intro ballI, clarify)
    fix n' rt' assume n': "(n', rt') \<in> set (Routers h)" "ParentRefs rt' = None" "n \<in> targets (Models h) n' rt'"
    then have "n' = n" using assms(6) by blast
    then have "rt' = rt" using n'(1) assms(3,4) eq_key_imp_eq_value by fast
    then show False using n'(2) assms(5) by simp
  qed
  note par = applyModel_parents [OF assms(1,2) h' assms(9) this]
  have "?c n = Some (NewRouterInfo ?r)" using r by (simp add: runtime_routers_def)
  moreover have "unreferenced n ?c"
    using par(2) map_of_SomeD by (fastforce simp: unreferenced_def runtime_routers_def)
  ultimately obtain c' where "ParseRouterTree (map fst (Routers h')) order2 ?c = Some c'" "c' n = Some (NewRouterInfo ?r)"
    using standalone_untouched [OF runtime_initial [OF par(1)], of n "NewRouterInfo ?r" order2] assms(8) by auto
  then show ?thesis using h' by auto
qed

text \<open>
  The parent of the router is missing (a typing error). The entry point demands a middleware, the parent would have demanded another one: the
  router is enabled with neither.
\<close>

definition demo_orphan :: "nat Configuration" where
  "demo_orphan = demo_http_config [(''admin@file'', demo_plain_router\<lparr>EntryPoints := [''web''], ParentRefs := Some [''login@file'']\<rparr>)]
     [(''web@internal'', demo_model)]"

theorem orphan_served_witness:
  "\<exists>h' c' r. HTTP (applyModel demo_orphan) = Some h' \<and>
     ParseRouterTree (map fst (Routers h')) [''admin@file''] (runtime_routers (Routers h')) = Some c' \<and>
     c' ''admin@file'' = Some r \<and> ParentRefs r = None \<and> Errs r = [] \<and> RouterInfo.Status r = StatusEnabled \<and> EntryPoints r = [''web''] \<and> Middlewares r = []"
proof -
  have "HTTP demo_orphan = Some \<lparr>Routers = [(''admin@file'', demo_plain_router\<lparr>EntryPoints := [''web''], ParentRefs := Some [''login@file'']\<rparr>)],
     Services = [], MiddlewareMap = [], Models = [(''web@internal'', demo_model)], ServersTransports = []\<rparr>"
    by (simp add: demo_orphan_def demo_http_config_def)
  from orphan_served [OF this, of "''admin@file''" "demo_plain_router\<lparr>EntryPoints := [''web''], ParentRefs := Some [''login@file'']\<rparr>" "[''login@file'']"
      "[''admin@file'']"]
  show ?thesis by (simp add: demo_plain_router_def targets_def)
qed

end
